(* ===== verification/Prelude.thy ===== *)
theory Prelude
  imports Main "HOL-Library.Word" "HOL-Library.Char_ord" "HOL-Library.List_Lexorder"
begin

text \<open>
  What every component of the model shares: names for Go's machine types, the values a Go
  \<^verbatim>\<open>panic\<close> carries, bytes and strings, and list lemmas.

  A Go string is a sequence of bytes, which is Isabelle's \<open>string\<close> (a \<open>char\<close> is one of 256
  byte values).  A step that can panic returns \<open>gopanic + 'a\<close>; a loop that may not end returns
  an \<open>option\<close> of that, \<open>None\<close> standing for divergence.
\<close>

section \<open>Machine types, panics, collections\<close>

type_synonym u8 = "8 word"
type_synonym u16 = "16 word"
type_synonym u32 = "32 word"
type_synonym u64 = "64 word"

text \<open>A panic raised by the code carries a message; the run time raises one of its own when an
  index is out of range.\<close>

datatype gopanic =
    PanicMsg string
  | IndexOutOfRange

named_theorems route_simps \<open>rewrite rules about patterns, tokens and their routes\<close>
named_theorems tree_intros \<open>introduction rules for well-formed trees\<close>
named_theorems chain_simps \<open>evaluation rules of the handler chain\<close>
named_theorems http_simps \<open>frame and projection rules of requests, responses and contexts\<close>

section \<open>Bytes and strings\<close>

text \<open>\<^verbatim>\<open>string(b)\<close> of a byte \<open>b\<close> is, in Go, the UTF-8 encoding of the code point \<open>b\<close>: one byte
  below 128, two bytes from 128 on.\<close>

definition byteString :: "char \<Rightarrow> string" where
  "byteString c =
     (let n = (of_char c :: nat)
      in if n < 128 then [c] else [char_of (192 + n div 64), char_of (128 + n mod 64)])"

text \<open>A string between single quotes, as the panic messages print paths.\<close>

definition quoted :: "string \<Rightarrow> string" where
  "quoted s = CHR 0x27 # s @ [CHR 0x27]"

definition ascii :: "string \<Rightarrow> bool" where
  "ascii s \<longleftrightarrow> list_all (\<lambda>c. (of_char c :: nat) < 128) s"

lemma byteString_ascii [simp]: "(of_char c :: nat) < 128 \<Longrightarrow> byteString c = [c]"
  by (simp add: byteString_def)

lemma ascii_simps [simp]:
  "ascii []"
  "ascii (c # s) \<longleftrightarrow> (of_char c :: nat) < 128 \<and> ascii s"
  "ascii (s @ t) \<longleftrightarrow> ascii s \<and> ascii t"
  by (auto simp: ascii_def)

lemma ascii_take [simp]: "ascii s \<Longrightarrow> ascii (take n s)"
  by (auto simp: ascii_def list_all_iff dest: in_set_takeD)

lemma ascii_drop [simp]: "ascii s \<Longrightarrow> ascii (drop n s)"
  by (auto simp: ascii_def list_all_iff dest: in_set_dropD)

lemma ascii_dropWhile [simp]: "ascii s \<Longrightarrow> ascii (dropWhile P s)"
  by (auto simp: ascii_def list_all_iff dest: set_dropWhileD)

lemma ascii_nth: "ascii s \<Longrightarrow> i < length s \<Longrightarrow> (of_char (s ! i) :: nat) < 128"
  by (auto simp: ascii_def list_all_iff)

text \<open>The first position of a byte in a string, as a scanning loop finds it.\<close>

fun indexOf :: "char \<Rightarrow> string \<Rightarrow> nat option" where
  "indexOf c [] = None"
| "indexOf c (d # s) = (if c = d then Some 0 else map_option Suc (indexOf c s))"

lemma indexOf_None: "indexOf c s = None \<longleftrightarrow> c \<notin> set s"
  by (induction s) auto

lemma indexOf_Some: "indexOf c s = Some i \<Longrightarrow> i < length s \<and> s ! i = c"
  by (induction s arbitrary: i) (auto split: if_splits)

lemma indexOf_distinct: "distinct s \<Longrightarrow> i < length s \<Longrightarrow> s ! i = c \<Longrightarrow> indexOf c s = Some i"
  by (induction s arbitrary: i) (auto simp: nth_Cons split: nat.splits if_splits)

section \<open>Lists\<close>

text \<open>Moving the element at \<open>pos\<close> down to \<open>newPos\<close> shifts the elements in between up by one.\<close>

definition moveDown :: "nat \<Rightarrow> nat \<Rightarrow> 'a list \<Rightarrow> 'a list" where
  "moveDown newPos pos xs =
     take newPos xs @ [xs ! pos] @ take (pos - newPos) (drop newPos xs) @ drop (Suc pos) xs"

lemma length_moveDown [simp]:
  "newPos \<le> pos \<Longrightarrow> pos < length xs \<Longrightarrow> length (moveDown newPos pos xs) = length xs"
  by (simp add: moveDown_def)

lemma moveDown_same [simp]: "pos < length xs \<Longrightarrow> moveDown pos pos xs = xs"
  by (simp add: moveDown_def id_take_nth_drop [symmetric])

lemma map_moveDown:
  "newPos \<le> pos \<Longrightarrow> pos < length xs \<Longrightarrow> map f (moveDown newPos pos xs) = moveDown newPos pos (map f xs)"
  by (simp add: moveDown_def take_map drop_map)

lemma moveDown_nth [simp]: "newPos \<le> pos \<Longrightarrow> pos < length xs \<Longrightarrow> moveDown newPos pos xs ! newPos = xs ! pos"
  by (simp add: moveDown_def nth_append)

lemma split_around:
  assumes "newPos \<le> pos" "pos < length xs"
  shows "xs = take newPos xs @ take (pos - newPos) (drop newPos xs) @ [xs ! pos] @ drop (Suc pos) xs"
proof -
  have "drop newPos xs = take (pos - newPos) (drop newPos xs) @ drop pos xs"
    using assms(1) append_take_drop_id [of "pos - newPos" "drop newPos xs"] by simp
  moreover have "drop pos xs = xs ! pos # drop (Suc pos) xs"
    using assms(2) by (simp add: Cons_nth_drop_Suc)
  ultimately show ?thesis
    by (metis append_Cons append_Nil append_take_drop_id)
qed

lemma moveDown_shape:
  assumes "newPos \<le> pos" "pos < length xs"
  obtains A B C x where "xs = A @ B @ x # C" "moveDown newPos pos xs = A @ x # B @ C"
proof
  show "xs = take newPos xs @ take (pos - newPos) (drop newPos xs) @ xs ! pos # drop (Suc pos) xs"
    using split_around [OF assms] by simp
  show "moveDown newPos pos xs =
      take newPos xs @ xs ! pos # take (pos - newPos) (drop newPos xs) @ drop (Suc pos) xs"
    by (simp add: moveDown_def)
qed

lemma set_moveDown [simp]:
  assumes "newPos \<le> pos" "pos < length xs"
  shows "set (moveDown newPos pos xs) = set xs"
proof -
  obtain A B C x where "xs = A @ B @ x # C" and m: "moveDown newPos pos xs = A @ x # B @ C"
    using moveDown_shape [OF assms] .
  then have "set xs = set (A @ B @ x # C)" by simp
  then show ?thesis unfolding m by auto
qed

lemma distinct_moveDown [simp]:
  assumes "newPos \<le> pos" "pos < length xs"
  shows "distinct (moveDown newPos pos xs) \<longleftrightarrow> distinct xs"
proof -
  obtain A B C x where "xs = A @ B @ x # C" and m: "moveDown newPos pos xs = A @ x # B @ C"
    using moveDown_shape [OF assms] .
  then have "distinct xs = distinct (A @ B @ x # C)" by simp
  then show ?thesis unfolding m by auto
qed

lemma zip_moveDown:
  assumes "newPos \<le> pos" "pos < length xs" "length xs = length ys"
  shows "zip (moveDown newPos pos xs) (moveDown newPos pos ys) = moveDown newPos pos (zip xs ys)"
  using assms by (simp add: moveDown_def take_zip drop_zip zip_append)

section \<open>Splitting and joining\<close>

text \<open>\<^verbatim>\<open>strings.Split\<close> with a one-byte separator, and \<^verbatim>\<open>strings.Join\<close>.\<close>

fun splitOn :: "char \<Rightarrow> string \<Rightarrow> string list" where
  "splitOn sep [] = [[]]"
| "splitOn sep (c # s) =
     (if c = sep then [] # splitOn sep s
      else case splitOn sep s of l # ls \<Rightarrow> (c # l) # ls | [] \<Rightarrow> [[c]])"

fun joinStrings :: "string \<Rightarrow> string list \<Rightarrow> string" where
  "joinStrings sep [] = []"
| "joinStrings sep [s] = s"
| "joinStrings sep (s # t # ss) = s @ sep @ joinStrings sep (t # ss)"

lemma splitOn_nonempty [simp]: "splitOn sep s \<noteq> []"
  by (induction s) (auto split: list.splits)

lemma splitOn_no_sep: "l \<in> set (splitOn sep s) \<Longrightarrow> sep \<notin> set l"
proof (induction s arbitrary: l)
  case (Cons c s)
  then show ?case by (cases "splitOn sep s") (auto split: if_splits)
qed simp

lemma splitOn_join:
  "segs \<noteq> [] \<Longrightarrow> \<forall>s\<in>set segs. sep \<notin> set s \<Longrightarrow> splitOn sep (joinStrings [sep] segs) = segs"
proof (induction "[sep]" segs rule: joinStrings.induct)
  case (2 s)
  then show ?case by (induction s) auto
next
  case (3 s t ss)
  have "sep \<notin> set s \<Longrightarrow> splitOn sep (s @ sep # u) = s # splitOn sep u" for u by (induction s) auto
  then show ?case using 3 by simp
qed simp

end
