(* ===== verification/Params.thy ===== *)
theory Params
  imports Prelude
begin

text \<open>
  URL parameters (\<^verbatim>\<open>params.go\<close>): the ordered list of key/value pairs a lookup captures, and the
  first-match access to it.
\<close>

record param =
  Key :: string
  Value :: string

type_synonym params = "param list"

fun Params_Get :: "params \<Rightarrow> string \<Rightarrow> string \<times> bool" where
  "Params_Get [] name = ([], False)"
| "Params_Get (p # ps) name = (if Key p = name then (Value p, True) else Params_Get ps name)"

definition Params_ByName :: "params \<Rightarrow> string \<Rightarrow> string" where
  "Params_ByName ps name = fst (Params_Get ps name)"

lemma Params_Get_found: "snd (Params_Get ps name) \<longleftrightarrow> name \<in> Key ` set ps"
  by (induction ps) auto

lemma Params_Get_map_of:
  "Params_Get ps name =
     (case map_of (map (\<lambda>p. (Key p, Value p)) ps) name of None \<Rightarrow> ([], False) | Some v \<Rightarrow> (v, True))"
  by (induction ps) auto

lemma Params_Get_distinct:
  "distinct (map Key ps) \<Longrightarrow> p \<in> set ps \<Longrightarrow> Params_Get ps (Key p) = (Value p, True)"
  by (induction ps) (auto simp: rev_image_eqI)

lemma Params_ByName_absent: "name \<notin> Key ` set ps \<Longrightarrow> Params_ByName ps name = []"
  by (induction ps) (auto simp: Params_ByName_def)

end
