(* ===== verification/Tree.thy ===== *)
theory Tree
  imports Params
begin

text \<open>
  The priority-ordered radix tree (\<^verbatim>\<open>tree.go\<close>): nodes, registration (\<^verbatim>\<open>addRoute\<close>,
  \<^verbatim>\<open>insertChild\<close>) and lookup (\<^verbatim>\<open>getValue\<close>).

  The code mutates nodes through a moving pointer; here each operation takes the node and returns
  the changed one, a descent being a call on the child whose result is put back in its place.  A
  panic is \<open>Inl\<close>, and the partly changed tree is dropped with it, as the panics of registration
  end the program's setup.  Registration's loop is a \<^verbatim>\<open>for\<close> without a bound, so \<open>walk\<close> is a partial
  function whose value \<open>None\<close> is "never returns"; lookup always descends and is total.
  Out-of-range accesses are panics of the model too (\<open>IndexOutOfRange\<close>).
\<close>

section \<open>Nodes\<close>

datatype nodeType = NodeStatic | NodeRoot | NodeParam | NodeCatchAll

datatype 'h node =
  Node (npath: string) (nindices: string) (nchildren: "'h node list") (nhandlers: "'h option")
    (nparamName: string) (npriority: u32) (nType: nodeType) (nwildChild: bool)

text \<open>The zero value \<^verbatim>\<open>&node{}\<close> and the assignments to single fields.\<close>

definition emptyNode :: "'h node" where
  "emptyNode = Node [] [] [] None [] 0 NodeStatic False"

primrec set_npath :: "string \<Rightarrow> 'h node \<Rightarrow> 'h node" where
  "set_npath v (Node p ind cs h pn pr ty w) = Node v ind cs h pn pr ty w"

primrec set_nindices :: "string \<Rightarrow> 'h node \<Rightarrow> 'h node" where
  "set_nindices v (Node p ind cs h pn pr ty w) = Node p v cs h pn pr ty w"

primrec set_nchildren :: "'h node list \<Rightarrow> 'h node \<Rightarrow> 'h node" where
  "set_nchildren v (Node p ind cs h pn pr ty w) = Node p ind v h pn pr ty w"

primrec set_nhandlers :: "'h option \<Rightarrow> 'h node \<Rightarrow> 'h node" where
  "set_nhandlers v (Node p ind cs h pn pr ty w) = Node p ind cs v pn pr ty w"

primrec set_nType :: "nodeType \<Rightarrow> 'h node \<Rightarrow> 'h node" where
  "set_nType v (Node p ind cs h pn pr ty w) = Node p ind cs h pn pr v w"

primrec set_nwildChild :: "bool \<Rightarrow> 'h node \<Rightarrow> 'h node" where
  "set_nwildChild v (Node p ind cs h pn pr ty w) = Node p ind cs h pn pr ty v"

text \<open>\<^verbatim>\<open>n.priority++\<close> on the unsigned 32-bit field.\<close>

primrec incPriority :: "'h node \<Rightarrow> 'h node" where
  "incPriority (Node p ind cs h pn pr ty w) = Node p ind cs h pn (pr + 1) ty w"

definition replaceChild :: "'h node \<Rightarrow> nat \<Rightarrow> 'h node \<Rightarrow> 'h node" where
  "replaceChild n i m = set_nchildren ((nchildren n)[i := m]) n"

section \<open>String helpers of the tree\<close>

fun longestCommonPrefix :: "string \<Rightarrow> string \<Rightarrow> nat" where
  "longestCommonPrefix (x # a) (y # b) = (if x = y then Suc (longestCommonPrefix a b) else 0)"
| "longestCommonPrefix _ _ = 0"

definition isWild :: "char \<Rightarrow> bool" where
  "isWild c \<longleftrightarrow> c = CHR '':'' \<or> c = CHR ''*''"

text \<open>The inner loop of \<^verbatim>\<open>findWildcard\<close>: the segment up to the next slash, and whether it is free
  of further markers.\<close>

fun wildcardSegment :: "string \<Rightarrow> bool \<Rightarrow> string \<times> bool" where
  "wildcardSegment [] valid = ([], valid)"
| "wildcardSegment (ch # s) valid =
     (if ch = CHR ''/'' then ([], valid)
      else case wildcardSegment s (if isWild ch then False else valid) of
             (seg, v) \<Rightarrow> (ch # seg, v))"

fun findWildcardFrom :: "nat \<Rightarrow> string \<Rightarrow> string \<times> int \<times> bool" where
  "findWildcardFrom start [] = ([], -1, False)"
| "findWildcardFrom start (c # s) =
     (if \<not> isWild c then findWildcardFrom (Suc start) s
      else case wildcardSegment s True of (seg, v) \<Rightarrow> (c # seg, int start, v))"

definition findWildcard :: "string \<Rightarrow> string \<times> int \<times> bool" where
  "findWildcard path = findWildcardFrom 0 path"

section \<open>Priorities\<close>

text \<open>The swapping loop: the child at the position moves down while its neighbour's priority is
  smaller.\<close>

fun swapDown :: "u32 \<Rightarrow> nat \<Rightarrow> 'h node list \<Rightarrow> nat \<times> 'h node list" where
  "swapDown prio 0 cs = (0, cs)"
| "swapDown prio (Suc p) cs =
     (if npriority (cs ! p) < prio
      then swapDown prio p (cs[p := cs ! Suc p, Suc p := cs ! p])
      else (Suc p, cs))"

definition incrementChildPriority :: "'h node \<Rightarrow> nat \<Rightarrow> gopanic + (nat \<times> 'h node)" where
  "incrementChildPriority n pos =
     (if length (nchildren n) \<le> pos then Inl IndexOutOfRange
      else
        let cs = (nchildren n)[pos := incPriority (nchildren n ! pos)];
            prio = npriority (cs ! pos)
        in case swapDown prio pos cs of (newPos, cs') \<Rightarrow>
             let ind = (if newPos \<noteq> pos
                        then take newPos (nindices n) @ take 1 (drop pos (nindices n)) @
                             take (pos - newPos) (drop newPos (nindices n)) @
                             drop (pos + 1) (nindices n)
                        else nindices n)
             in Inr (newPos, set_nchildren cs' (set_nindices ind n)))"

section \<open>Registration\<close>

text \<open>\<^verbatim>\<open>insertChild\<close>: the nodes for the rest of a pattern below \<open>n\<close>.\<close>

lemma length_wildcardSegment: "length (fst (wildcardSegment s v)) \<le> length s"
  by (induction s v rule: wildcardSegment.induct) (auto split: prod.splits)

lemma findWildcardFrom_bound:
  "findWildcardFrom st s = (w, i, v) \<Longrightarrow> 0 \<le> i \<Longrightarrow>
     int st \<le> i \<and> nat i + length w \<le> st + length s"
proof (induction st s rule: findWildcardFrom.induct)
  case (2 start c s)
  then show ?case
    using length_wildcardSegment [of s True] by (auto split: if_splits prod.splits)
qed auto

function (sequential) insertChild ::
    "'h node \<Rightarrow> string \<Rightarrow> string \<Rightarrow> 'h \<Rightarrow> gopanic + 'h node" where
  "insertChild n path fullPath handlers =
     (case findWildcard path of (wildcard, idx, valid) \<Rightarrow>
        if idx < 0 then Inr (set_nhandlers (Some handlers) (set_npath path n))
        else if \<not> valid then
          Inl (PanicMsg (''only one wildcard per path segment is allowed, has: '' @ quoted wildcard @
            '' in path '' @ quoted fullPath))
        else if length wildcard < 2 then
          Inl (PanicMsg (''wildcards must be named with a non-empty name in path '' @ quoted fullPath))
        else if wildcard ! 0 = CHR '':'' then
          let n1 = (if 0 < idx then set_npath (take (nat idx) path) n else n);
              path1 = (if 0 < idx then drop (nat idx) path else path);
              child = Node wildcard [] [] None (drop 1 wildcard) 1 NodeParam False
          in if length wildcard < length path1 then
               let path2 = drop (length wildcard) path1;
                   child1 = set_nindices (byteString (path2 ! 0)) child
               in map_sum id (\<lambda>c2. set_nwildChild True (set_nchildren [set_nchildren [c2] child1] n1))
                    (insertChild (Node [] [] [] None [] 1 NodeStatic False) path2 fullPath handlers)
             else Inr (set_nwildChild True (set_nchildren [set_nhandlers (Some handlers) child] n1))
        else if nat idx + length wildcard \<noteq> length path then
          Inl (PanicMsg (''catch-all routes are only allowed at the end of the path in '' @ quoted fullPath))
        else if npath n \<noteq> [] \<and> last (npath n) = CHR ''/'' then
          Inl (PanicMsg (''catch-all conflicts with existing handle for the path segment root in '' @ quoted fullPath))
        else if idx - 1 < 0 then Inl IndexOutOfRange
        else if path ! nat (idx - 1) \<noteq> CHR ''/'' then
          Inl (PanicMsg (''no / before catch-all in path '' @ quoted fullPath))
        else
          let i = nat (idx - 1);
              catchAll = Node (drop i path) [] [] (Some handlers) (drop 1 wildcard) 1 NodeCatchAll False;
              boundary = Node [] [] [catchAll] None [] 0 NodeCatchAll True
          in Inr (set_nchildren [boundary] (set_nindices ''/'' (set_npath (take i path) n))))"
  by pat_completeness auto
termination
proof (relation "measure (\<lambda>(n, path, fp, h). length path)", goal_cases)
  case 1
  then show ?case by simp
next
  case (2 n path fullPath handlers w x i v n1 path1 child path2 child1)
  then have "0 \<le> i" by simp
  with 2 have "nat i + length w \<le> length path"
    using findWildcardFrom_bound [of 0 path w i v] by (simp add: findWildcard_def)
  with 2 show ?case by (auto split: if_splits)
qed

declare insertChild.simps [simp del]

text \<open>Splitting a node whose path is longer than the common prefix: its suffix, with everything
  below it, becomes the only child.  The byte after the prefix goes through \<^verbatim>\<open>string(n.path[i])\<close>.\<close>

definition splitNode :: "nat \<Rightarrow> string \<Rightarrow> 'h node \<Rightarrow> 'h node" where
  "splitNode i path n =
     Node (take i path) (byteString (npath n ! i))
       [Node (drop i (npath n)) (nindices n) (nchildren n) (nhandlers n) (nparamName n)
          (npriority n - 1) NodeStatic (nwildChild n)]
       None [] (npriority n) (nType n) False"

text \<open>A new static child for the byte \<open>c\<close>.  The code keeps a pointer to it across the reordering:
  it has moved when it was the child whose priority was raised.\<close>

definition growChild :: "'h node \<Rightarrow> char \<Rightarrow> string \<Rightarrow> string \<Rightarrow> 'h \<Rightarrow> gopanic + 'h node" where
  "growChild n c path fullPath handlers =
     (let n1 = set_nchildren (nchildren n @ [emptyNode]) (set_nindices (nindices n @ byteString c) n);
          pos = length (nindices n1) - 1
      in case incrementChildPriority n1 pos of
           Inl e \<Rightarrow> Inl e
         | Inr (newPos, n2) \<Rightarrow>
             let loc = (if pos = length (nchildren n) then newPos else length (nchildren n))
             in map_sum id (replaceChild n2 loc) (insertChild (nchildren n2 ! loc) path fullPath handlers))"

text \<open>The test on an existing wildcard child: the new pattern goes on through the same wildcard.\<close>

definition continuesWild :: "string \<Rightarrow> 'h node \<Rightarrow> bool" where
  "continuesWild path m \<longleftrightarrow>
     length (npath m) \<le> length path \<and> npath m = take (length (npath m)) path \<and>
     nType m \<noteq> NodeCatchAll \<and>
     (length path \<le> length (npath m) \<or> path ! length (npath m) = CHR ''/'')"

text \<open>The loop \<^verbatim>\<open>walk\<close> of \<^verbatim>\<open>addRoute\<close>.\<close>

partial_function (option) walk ::
    "string \<Rightarrow> 'h \<Rightarrow> 'h node \<Rightarrow> string \<Rightarrow> (gopanic + 'h node) option" where
  "walk fullPath handlers n path =
     (let i = longestCommonPrefix path (npath n);
          n1 = (if i < length (npath n) then splitNode i path n else n)
      in if i < length path then
           let path1 = drop i path; c = path1 ! 0
           in if nType n1 = NodeParam \<and> c = CHR ''/'' \<and> length (nchildren n1) = 1 then
                Option.bind (walk fullPath handlers (incPriority (nchildren n1 ! 0)) path1)
                  (\<lambda>r. Some (map_sum id (replaceChild n1 0) r))
              else
                (case (if nType n1 \<noteq> NodeParam then indexOf c (nindices n1) else None) of
                   Some idx \<Rightarrow>
                     (case incrementChildPriority n1 idx of
                        Inl e \<Rightarrow> Some (Inl e)
                      | Inr q \<Rightarrow>
                          Option.bind (walk fullPath handlers (nchildren (snd q) ! fst q) path1)
                            (\<lambda>r. Some (map_sum id (replaceChild (snd q) (fst q)) r)))
                 | None \<Rightarrow>
                     if c \<noteq> CHR '':'' \<and> c \<noteq> CHR ''*'' \<and> nType n1 \<noteq> NodeCatchAll then
                       Some (growChild n1 c path1 fullPath handlers)
                     else if nwildChild n1 then
                       (if nchildren n1 = [] then Some (Inl IndexOutOfRange)
                        else
                          let k = length (nchildren n1) - 1; m = incPriority (nchildren n1 ! k)
                          in if continuesWild path1 m then
                               Option.bind (walk fullPath handlers m path1)
                                 (\<lambda>r. Some (map_sum id (replaceChild n1 k) r))
                             else Some (Inl (PanicMsg (''wildcard conflict: '' @ quoted path1 @
                                    '' conflicts with existing route in path '' @ quoted fullPath))))
                     else Some (insertChild n1 path1 fullPath handlers))
         else if nhandlers n1 \<noteq> None then
           Some (Inl (PanicMsg (''handlers are already registered for path '' @ quoted fullPath)))
         else Some (Inr (set_nhandlers (Some handlers) n1)))"

declare walk.simps [code]

definition addRoute :: "'h node \<Rightarrow> string \<Rightarrow> 'h \<Rightarrow> (gopanic + 'h node) option" where
  "addRoute n path handlers =
     (let n1 = incPriority n
      in if npath n1 = [] \<and> nchildren n1 = [] then
           Some (map_sum id (set_nType NodeRoot) (insertChild n1 path path handlers))
         else walk path handlers n1 path)"

section \<open>Lookup\<close>

record 'h routeResult =
  rhandlers :: "'h option"
  rparams :: params
  rtsr :: bool

text \<open>\<^verbatim>\<open>tsrForRedirect\<close>; Go's \<^verbatim>\<open>&&\<close> stops before the indexing when the lengths differ.\<close>

definition tsrForRedirect :: "'h node \<Rightarrow> string \<Rightarrow> bool" where
  "tsrForRedirect n path \<longleftrightarrow>
     length path + 1 = length (npath n) \<and> npath n ! length path = CHR ''/'' \<and>
     path = take (length path) (npath n) \<and> nhandlers n \<noteq> None"

text \<open>The branch of \<^verbatim>\<open>getValue\<close> for a path equal to the node's.\<close>

definition exactMatch :: "'h node \<Rightarrow> string \<Rightarrow> params \<Rightarrow> gopanic + 'h routeResult" where
  "exactMatch n path params =
     (if nhandlers n \<noteq> None then
        Inr \<lparr>rhandlers = nhandlers n, rparams = params, rtsr = False\<rparr>
      else if path = ''/'' \<and> nwildChild n \<and> nType n \<noteq> NodeRoot then
        Inr \<lparr>rhandlers = None, rparams = params, rtsr = True\<rparr>
      else case indexOf (CHR ''/'') (nindices n) of
             Some i \<Rightarrow>
               if length (nchildren n) \<le> i then Inl IndexOutOfRange
               else
                 let m = nchildren n ! i
                 in if length (npath m) = 1 \<and> nhandlers m \<noteq> None then
                      Inr \<lparr>rhandlers = None, rparams = params, rtsr = True\<rparr>
                    else if nType m = NodeCatchAll then
                      (if nchildren m = [] then Inl IndexOutOfRange
                       else Inr \<lparr>rhandlers = None, rparams = params,
                                 rtsr = (nhandlers (nchildren m ! 0) \<noteq> None)\<rparr>)
                    else Inr \<lparr>rhandlers = None, rparams = params, rtsr = False\<rparr>
           | None \<Rightarrow> Inr \<lparr>rhandlers = None, rparams = params, rtsr = False\<rparr>)"

lemma size_child [termination_simp]:
  "nchildren n = cs \<Longrightarrow> i < length cs \<Longrightarrow> size (cs ! i) < size n"
  using size_list_estimation' [of "cs ! i" cs "size (cs ! i)" size] by (cases n) fastforce

lemma size_grandchild [termination_simp]:
  "cs = nchildren n \<Longrightarrow> i < length cs \<Longrightarrow> nchildren (cs ! i) \<noteq> [] \<Longrightarrow> size (nchildren (cs ! i) ! 0) < size n"
  using size_child [of "cs ! i" "nchildren (cs ! i)" 0] size_child [of n cs i] by simp

function (sequential) getValue :: "'h node \<Rightarrow> string \<Rightarrow> params \<Rightarrow> gopanic + 'h routeResult" where
  "getValue n path params =
     (if length (npath n) < length path then
        if take (length (npath n)) path \<noteq> npath n then
          Inr \<lparr>rhandlers = None, rparams = params, rtsr = tsrForRedirect n path\<rparr>
        else
          let path1 = drop (length (npath n)) path
          in if \<not> nwildChild n then
               (case indexOf (path1 ! 0) (nindices n) of
                  Some i \<Rightarrow>
                    if length (nchildren n) \<le> i then Inl IndexOutOfRange
                    else getValue (nchildren n ! i) path1 params
                | None \<Rightarrow>
                    Inr \<lparr>rhandlers = None, rparams = params,
                         rtsr = (path1 = ''/'' \<and> nhandlers n \<noteq> None)\<rparr>)
             else if nchildren n = [] then Inl IndexOutOfRange
             else
               let m = nchildren n ! (length (nchildren n) - 1)
               in (case nType m of
                     NodeParam \<Rightarrow>
                       let value = takeWhile (\<lambda>c. c \<noteq> CHR ''/'') path1;
                           params1 = params @ [\<lparr>Key = nparamName m, Value = value\<rparr>]
                       in if length value < length path1 then
                            if nchildren m \<noteq> [] then
                              getValue (nchildren m ! 0) (drop (length value) path1) params1
                            else Inr \<lparr>rhandlers = None, rparams = params1,
                                      rtsr = (length path1 = length value + 1)\<rparr>
                          else if nhandlers m \<noteq> None then
                            Inr \<lparr>rhandlers = nhandlers m, rparams = params1, rtsr = False\<rparr>
                          else if length (nchildren m) = 1 then
                            let m1 = nchildren m ! 0
                            in Inr \<lparr>rhandlers = None, rparams = params1,
                                    rtsr = (npath m1 = ''/'' \<and> nhandlers m1 \<noteq> None \<or>
                                            npath m1 = [] \<and> nindices m1 = ''/'')\<rparr>
                          else Inr \<lparr>rhandlers = None, rparams = params1, rtsr = False\<rparr>
                   | NodeCatchAll \<Rightarrow>
                       Inr \<lparr>rhandlers = nhandlers m,
                            rparams = params @ [\<lparr>Key = nparamName m, Value = path1\<rparr>], rtsr = False\<rparr>
                   | _ \<Rightarrow> Inr \<lparr>rhandlers = None, rparams = params, rtsr = False\<rparr>)
      else if path = npath n then exactMatch n path params
      else
        Inr \<lparr>rhandlers = None, rparams = params,
             rtsr = (path = ''/'' \<or>
               length (npath n) = length path + 1 \<and> npath n ! length path = CHR ''/'' \<and>
               path = take (length path) (npath n) \<and> nhandlers n \<noteq> None)\<rparr>)"
  by pat_completeness auto
termination
  by (relation "measure (\<lambda>(n, path, ps). size n)") (auto simp: termination_simp)

declare getValue.simps [simp del]

end
