(* ===== verification/RouteSpec.thy ===== *)
theory RouteSpec
  imports Tree
begin

text \<open>
  What the routing tree promises: the meaning of a route pattern, apart from any tree.  A pattern
  is read as a list of tokens (literal bytes, one-segment parameters, a final catch-all), a token
  list matches a request path or not and captures parameters, and two patterns are compatible
  when they can live in one table.  The denotation \<open>routes\<close> reads the table back off a tree and
  \<open>wfNode\<close> is the tree's representation invariant.
\<close>

section \<open>Patterns as token lists\<close>

datatype tok = Lit char | Par string | Catch string

definition noWild :: "string \<Rightarrow> bool" where
  "noWild s \<longleftrightarrow> list_all (\<lambda>c. \<not> isWild c) s"

lemma noWild_simps [simp]:
  "noWild []"
  "noWild (c # s) \<longleftrightarrow> \<not> isWild c \<and> noWild s"
  "noWild (s @ t) \<longleftrightarrow> noWild s \<and> noWild t"
  by (auto simp: noWild_def)

lemma noWild_take [simp]: "noWild s \<Longrightarrow> noWild (take n s)"
  by (auto simp: noWild_def list_all_iff dest: in_set_takeD)

lemma noWild_drop [simp]: "noWild s \<Longrightarrow> noWild (drop n s)"
  by (auto simp: noWild_def list_all_iff dest: in_set_dropD)

lemma noWild_nth: "noWild s \<Longrightarrow> i < length s \<Longrightarrow> \<not> isWild (s ! i)"
  by (auto simp: noWild_def list_all_iff)

lemma isWild_simps [simp]:
  "isWild CHR '':''" "isWild CHR ''*''" "\<not> isWild CHR ''/''"
  by (auto simp: isWild_def)

abbreviation notSlash :: "char \<Rightarrow> bool" where
  "notSlash c \<equiv> c \<noteq> CHR ''/''"

text \<open>A well-formed name: not empty, no slash and no further marker.\<close>

definition goodName :: "string \<Rightarrow> bool" where
  "goodName nm \<longleftrightarrow> nm \<noteq> [] \<and> noWild nm \<and> CHR ''/'' \<notin> set nm"

function (sequential) toks :: "string \<Rightarrow> tok list option" where
  "toks [] = Some []"
| "toks (c # s) =
     (if c = CHR '':'' then
        (if goodName (takeWhile notSlash s)
         then map_option ((#) (Par (takeWhile notSlash s))) (toks (dropWhile notSlash s))
         else None)
      else if c = CHR ''*'' then None
      else if c = CHR ''/'' \<and> s \<noteq> [] \<and> hd s = CHR ''*'' then
        (if goodName (tl s) then Some [Catch (tl s)] else None)
      else map_option ((#) (Lit c)) (toks s))"
  by pat_completeness auto
termination
  by (relation "measure length") (auto simp: le_imp_less_Suc length_dropWhile_le)

declare toks.simps(2) [simp del]

text \<open>Matching: a parameter takes the bytes up to the next slash (which may be none in the middle
  of a path, but not at its end); a catch-all takes the rest, slash included.\<close>

fun matches :: "tok list \<Rightarrow> string \<Rightarrow> params option" where
  "matches [] s = (if s = [] then Some [] else None)"
| "matches (Lit c # ts) [] = None"
| "matches (Lit c # ts) (d # s) = (if c = d then matches ts s else None)"
| "matches (Par nm # ts) s =
     (if s = [] then None
      else map_option ((#) \<lparr>Key = nm, Value = takeWhile notSlash s\<rparr>)
             (matches ts (dropWhile notSlash s)))"
| "matches (Catch nm # ts) s =
     (if s \<noteq> [] \<and> hd s = CHR ''/'' \<and> ts = [] then Some [\<lparr>Key = nm, Value = s\<rparr>] else None)"

text \<open>Two patterns can share a table: where they first differ they are told apart by a literal
  byte, or one ends.  A parameter or catch-all next to anything else is a conflict.\<close>

fun compat :: "tok list \<Rightarrow> tok list \<Rightarrow> bool" where
  "compat [] [] = False"
| "compat [] (u # us) = True"
| "compat (t # ts) [] = True"
| "compat (t # ts) (u # us) =
     (if t = u then compat ts us
      else case t of
             Lit c \<Rightarrow> (case u of Lit d \<Rightarrow> True | Par n \<Rightarrow> False | Catch n \<Rightarrow> c \<noteq> CHR ''/'')
           | Par m \<Rightarrow> False
           | Catch m \<Rightarrow> (case u of Lit d \<Rightarrow> d \<noteq> CHR ''/'' | _ \<Rightarrow> False))"

lemma compat_sym: "compat ts us \<longleftrightarrow> compat us ts"
  by (induction ts us rule: compat.induct) (auto split: tok.splits)

lemma compat_irrefl: "\<not> compat ts ts"
  by (induction ts) auto

lemma compat_append [simp]: "compat (xs @ ts) (xs @ us) \<longleftrightarrow> compat ts us"
  by (induction xs) auto

text \<open>Compatible patterns never match the same path: the table needs no order.\<close>

lemma compat_disjoint: "compat ts us \<Longrightarrow> matches ts s \<noteq> None \<Longrightarrow> matches us s = None"
proof (induction ts us arbitrary: s rule: compat.induct)
  case (2 u us)
  then show ?case by (cases u) (auto split: if_splits)
next
  case (3 t ts)
  then show ?case by (cases s; cases t) (auto split: if_splits)
next
  case (4 t ts u us)
  then show ?case by (cases s; cases t; cases u) (auto split: if_splits)
qed simp

section \<open>Reading patterns\<close>

lemma toks_Lit [route_simps]:
  "\<not> isWild c \<Longrightarrow> \<not> (c = CHR ''/'' \<and> s \<noteq> [] \<and> hd s = CHR ''*'') \<Longrightarrow>
     toks (c # s) = map_option ((#) (Lit c)) (toks s)"
  by (auto simp: toks.simps(2) isWild_def)

lemma toks_star [route_simps]: "toks (CHR ''*'' # s) = None"
  by (simp add: toks.simps(2))

lemma takeWhile_seg [simp]:
  "CHR ''/'' \<notin> set nm \<Longrightarrow> rest = [] \<or> hd rest = CHR ''/'' \<Longrightarrow>
     takeWhile notSlash (nm @ rest) = nm \<and> dropWhile notSlash (nm @ rest) = rest"
  by (induction nm) (cases rest; auto)+

lemma toks_Par [route_simps]:
  "goodName nm \<Longrightarrow> rest = [] \<or> hd rest = CHR ''/'' \<Longrightarrow>
     toks (CHR '':'' # nm @ rest) = map_option ((#) (Par nm)) (toks rest)"
  using takeWhile_seg [of nm rest] by (simp add: toks.simps(2) goodName_def)

lemma toks_Catch [route_simps]:
  "goodName nm \<Longrightarrow> toks (CHR ''/'' # CHR ''*'' # nm) = Some [Catch nm]"
  by (simp add: toks.simps(2))

lemma toks_append_lits [route_simps]:
  "noWild pre \<Longrightarrow> \<not> (pre \<noteq> [] \<and> last pre = CHR ''/'' \<and> s \<noteq> [] \<and> hd s = CHR ''*'') \<Longrightarrow>
     toks (pre @ s) = map_option ((@) (map Lit pre)) (toks s)"
proof (induction pre)
  case Nil
  then show ?case by (cases "toks s") auto
next
  case (Cons c pre)
  have "\<not> (c = CHR ''/'' \<and> pre @ s \<noteq> [] \<and> hd (pre @ s) = CHR ''*'')"
    using Cons.prems by (cases pre) auto
  then have "toks (c # pre @ s) = map_option ((#) (Lit c)) (toks (pre @ s))"
    using Cons.prems by (auto simp: route_simps)
  also have "\<not> (pre \<noteq> [] \<and> last pre = CHR ''/'' \<and> s \<noteq> [] \<and> hd s = CHR ''*'')"
    using Cons.prems by (cases pre) auto
  then have "toks (pre @ s) = map_option ((@) (map Lit pre)) (toks s)"
    using Cons by simp
  finally show ?case by (cases "toks s") auto
qed

lemma toks_lits: "noWild p \<Longrightarrow> toks p = Some (map Lit p)"
  using toks_append_lits [of p "[]"] by simp

text \<open>The three ways a readable pattern goes on: literal to its end, up to a parameter, up to a
  catch-all.\<close>

definition parsePar :: "string \<Rightarrow> tok list \<Rightarrow> string \<Rightarrow> string \<Rightarrow> string \<Rightarrow> tok list \<Rightarrow> bool" where
  "parsePar path ts pre nm rest us \<longleftrightarrow>
     path = pre @ CHR '':'' # nm @ rest \<and> noWild pre \<and> goodName nm \<and>
     (rest = [] \<or> hd rest = CHR ''/'') \<and> toks rest = Some us \<and> ts = map Lit pre @ Par nm # us"

definition parseCatch :: "string \<Rightarrow> tok list \<Rightarrow> string \<Rightarrow> string \<Rightarrow> bool" where
  "parseCatch path ts pre nm \<longleftrightarrow>
     path = pre @ CHR ''/'' # CHR ''*'' # nm \<and> noWild pre \<and> goodName nm \<and>
     ts = map Lit pre @ [Catch nm]"

lemma parsePar_Cons: "parsePar s us pre nm rest vs \<Longrightarrow> \<not> isWild c \<Longrightarrow>
    parsePar (c # s) (Lit c # us) (c # pre) nm rest vs"
  by (simp add: parsePar_def)

lemma parseCatch_Cons: "parseCatch s us pre nm \<Longrightarrow> \<not> isWild c \<Longrightarrow>
    parseCatch (c # s) (Lit c # us) (c # pre) nm"
  by (simp add: parseCatch_def)

lemma toks_parse:
  "toks path = Some ts \<Longrightarrow>
     noWild path \<and> ts = map Lit path \<or> (\<exists>pre nm rest us. parsePar path ts pre nm rest us) \<or>
     (\<exists>pre nm. parseCatch path ts pre nm)"
proof (induction path arbitrary: ts rule: toks.induct)
  case 1
  then show ?case by simp
next
  case (2 c s)
  consider (colon) "c = CHR '':''" | (star) "c = CHR ''*''"
    | (catch) "c = CHR ''/''" "s \<noteq> []" "hd s = CHR ''*''"
    | (lit) "\<not> isWild c" "\<not> (c = CHR ''/'' \<and> s \<noteq> [] \<and> hd s = CHR ''*'')"
    by (auto simp: isWild_def)
  then show ?case
  proof cases
    case colon
    have "dropWhile notSlash s = [] \<or> hd (dropWhile notSlash s) = CHR ''/''"
      using hd_dropWhile [of notSlash s] by auto
    with "2.prems" colon have "\<exists>us. parsePar (c # s) ts [] (takeWhile notSlash s) (dropWhile notSlash s) us"
      by (auto simp: parsePar_def toks.simps(2) split: if_splits)
    then show ?thesis by blast
  next
    case star
    with "2.prems" show ?thesis by (simp add: route_simps)
  next
    case catch
    with "2.prems" have "parseCatch (c # s) ts [] (tl s)"
      by (cases s) (auto simp: parseCatch_def toks.simps(2) split: if_splits)
    then show ?thesis by blast
  next
    case lit
    with "2.prems" obtain us where us: "toks s = Some us" "ts = Lit c # us"
      by (auto simp: route_simps)
    have "c \<noteq> CHR '':''" "c \<noteq> CHR ''*''"
      using lit(1) by (auto simp: isWild_def)
    from "2.IH"(2) [OF this lit(2) us(1)] show ?thesis
      using us(2) lit(1) by (auto dest: parsePar_Cons parseCatch_Cons)
  qed
qed

lemma toks_cases:
  assumes "toks path = Some ts"
  obtains (lits) "noWild path" "ts = map Lit path"
    | (par) pre nm rest us where "parsePar path ts pre nm rest us"
    | (catchall) pre nm where "parseCatch path ts pre nm"
  using toks_parse [OF assms] by blast

text \<open>The code's scanner finds the first wildcard of a readable pattern.\<close>

lemma wildcardSegment_good:
  "noWild nm \<Longrightarrow> CHR ''/'' \<notin> set nm \<Longrightarrow> rest = [] \<or> hd rest = CHR ''/'' \<Longrightarrow>
     wildcardSegment (nm @ rest) True = (nm, True)"
  by (induction nm) (cases rest; auto)+

lemma findWildcardFrom_pre:
  "noWild pre \<Longrightarrow> findWildcardFrom st (pre @ s) = findWildcardFrom (st + length pre) s"
  by (induction pre arbitrary: st) auto

lemma findWildcard_none [simp]: "noWild s \<Longrightarrow> findWildcard s = ([], -1, False)"
  using findWildcardFrom_pre [of s 0 "[]"] by (simp add: findWildcard_def)

lemma findWildcard_first:
  assumes "noWild pre" "isWild c" "goodName nm" "rest = [] \<or> hd rest = CHR ''/''"
  shows "findWildcard (pre @ c # nm @ rest) = (c # nm, int (length pre), True)"
  using assms wildcardSegment_good [of nm rest]
  by (simp add: findWildcard_def findWildcardFrom_pre goodName_def)

section \<open>The common prefix\<close>

lemma lcp_bounds:
  "longestCommonPrefix a b \<le> length a" "longestCommonPrefix a b \<le> length b"
  by (induction a b rule: longestCommonPrefix.induct) auto

lemma lcp_take: "take (longestCommonPrefix a b) a = take (longestCommonPrefix a b) b"
  by (induction a b rule: longestCommonPrefix.induct) auto

lemma lcp_differs:
  "longestCommonPrefix a b < length a \<Longrightarrow> longestCommonPrefix a b < length b \<Longrightarrow>
     a ! longestCommonPrefix a b \<noteq> b ! longestCommonPrefix a b"
  by (induction a b rule: longestCommonPrefix.induct) auto

lemma lcp_maximal:
  "take k a = take k b \<Longrightarrow> k \<le> length a \<Longrightarrow> k \<le> length b \<Longrightarrow> k \<le> longestCommonPrefix a b"
proof (induction a b arbitrary: k rule: longestCommonPrefix.induct)
  case (1 x a y b)
  then show ?case by (cases k) auto
qed auto

lemma lcp_prefix [simp]: "longestCommonPrefix (p @ s) p = length p"
  by (induction p) (cases s; auto)+

end
