(* ===== verification/TreeInv.thy ===== *)
theory TreeInv
  imports RouteSpec
begin

text \<open>
  The abstraction function \<open>routes\<close> of the radix tree (the set of token lists and handlers below a
  node) and its representation invariant \<open>wfNode\<close>.
\<close>

section \<open>The routes of a tree\<close>

text \<open>What a node itself contributes to the patterns through it.  The boundary node in front of a
  catch-all contributes nothing; the slash belongs to the catch-all.\<close>

definition labelOf :: "string \<Rightarrow> string \<Rightarrow> nodeType \<Rightarrow> bool \<Rightarrow> tok list" where
  "labelOf p pn ty w =
     (case ty of
        NodeParam \<Rightarrow> [Par pn]
      | NodeCatchAll \<Rightarrow> if w then [] else [Catch pn]
      | _ \<Rightarrow> map Lit p)"

definition prep :: "tok list \<Rightarrow> (tok list \<times> 'h) set \<Rightarrow> (tok list \<times> 'h) set" where
  "prep ls R = (\<lambda>(ts, x). (ls @ ts, x)) ` R"

definition own :: "'h option \<Rightarrow> (tok list \<times> 'h) set" where
  "own h = (case h of None \<Rightarrow> {} | Some x \<Rightarrow> {([], x)})"

fun routes :: "'h node \<Rightarrow> (tok list \<times> 'h) set" where
  "routes (Node p ind cs h pn pr ty w) = prep (labelOf p pn ty w) (own h \<union> (\<Union>c\<in>set cs. routes c))"

definition below :: "'h node \<Rightarrow> (tok list \<times> 'h) set" where
  "below n = own (nhandlers n) \<union> (\<Union>c\<in>set (nchildren n). routes c)"

lemma labelOf_simps [route_simps]:
  "labelOf p pn NodeParam w = [Par pn]"
  "labelOf p pn NodeCatchAll True = []"
  "labelOf p pn NodeCatchAll False = [Catch pn]"
  "labelOf p pn NodeStatic w = map Lit p"
  "labelOf p pn NodeRoot w = map Lit p"
  by (simp_all add: labelOf_def)

lemma prep_simps [route_simps]:
  "prep [] R = R"
  "prep ls {} = {}"
  "prep ls (insert r R) = insert (ls @ fst r, snd r) (prep ls R)"
  "prep ls (R \<union> S) = prep ls R \<union> prep ls S"
  "prep ls (prep ms R) = prep (ls @ ms) R"
  by (simp_all add: prep_def image_Un image_image case_prod_beta)

lemma own_simps [route_simps]:
  "own None = {}"
  "own (Some x) = {([], x)}"
  by (simp_all add: own_def)

lemma in_prep: "(ts, x) \<in> prep ls R \<longleftrightarrow> (\<exists>us. ts = ls @ us \<and> (us, x) \<in> R)"
  by (auto simp: prep_def)

lemma prep_empty_iff [simp]: "prep ls R = {} \<longleftrightarrow> R = {}"
  by (simp add: prep_def)

lemma routes_below: "routes n = prep (labelOf (npath n) (nparamName n) (nType n) (nwildChild n)) (below n)"
  by (cases n) (simp add: below_def)

text \<open>Field updates that leave the routes alone.\<close>

lemma node_simps [simp]:
  "npath (incPriority n) = npath n" "nindices (incPriority n) = nindices n"
  "nchildren (incPriority n) = nchildren n" "nhandlers (incPriority n) = nhandlers n"
  "nparamName (incPriority n) = nparamName n" "nType (incPriority n) = nType n"
  "nwildChild (incPriority n) = nwildChild n" "npriority (incPriority n) = npriority n + 1"
  "routes (incPriority n) = routes n" "below (incPriority n) = below n"
  by (cases n; simp add: below_def)+

section \<open>The invariant\<close>

text \<open>\<open>firstIs k ts\<close>: every path that \<open>ts\<close> matches begins with the byte \<open>k\<close>.\<close>

definition firstIs :: "char \<Rightarrow> tok list \<Rightarrow> bool" where
  "firstIs k ts \<longleftrightarrow>
     (case ts of Lit c # us \<Rightarrow> c = k | Catch nm # us \<Rightarrow> k = CHR ''/'' | _ \<Rightarrow> False)"

definition keyOK :: "char \<Rightarrow> 'h node \<Rightarrow> bool" where
  "keyOK k c \<longleftrightarrow>
     (\<forall>r\<in>routes c. firstIs k (fst r)) \<and>
     (nType c = NodeStatic \<or> nType c = NodeCatchAll \<and> nwildChild c)"

text \<open>The shapes of the three kinds of node: a static node branches on distinct first bytes or has
  one parameter child, never both; a parameter node has at most one child, for the slash; a
  catch-all is a boundary node over one leaf.\<close>

definition staticShape ::
    "string \<Rightarrow> string \<Rightarrow> 'h node list \<Rightarrow> 'h option \<Rightarrow> string \<Rightarrow> bool \<Rightarrow> bool" where
  "staticShape p ind cs h pn w \<longleftrightarrow>
     pn = [] \<and> ascii p \<and> noWild p \<and> (h = None \<longrightarrow> cs \<noteq> []) \<and>
     (if w then ind = [] \<and> length cs = 1 \<and> nType (cs ! 0) = NodeParam
      else length ind = length cs \<and> distinct ind \<and> noWild ind \<and>
           (\<forall>(k, c)\<in>set (zip ind cs). keyOK k c))"

text \<open>The child of a parameter node begins with its slash, or the slash is that of a catch-all; the
  trailing-slash test of \<^verbatim>\<open>getValue\<close> looks at no more than this.\<close>

definition slashChild :: "'h node \<Rightarrow> bool" where
  "slashChild m \<longleftrightarrow> npath m = [] \<longrightarrow> list_all (\<lambda>c. nType c = NodeCatchAll) (nchildren m)"

lemma slashChild_path: "npath m \<noteq> [] \<Longrightarrow> slashChild m"
  by (simp add: slashChild_def)

definition paramShape ::
    "string \<Rightarrow> string \<Rightarrow> 'h node list \<Rightarrow> 'h option \<Rightarrow> string \<Rightarrow> bool \<Rightarrow> bool" where
  "paramShape p ind cs h pn w \<longleftrightarrow>
     p = CHR '':'' # pn \<and> goodName pn \<and> \<not> w \<and> (h = None \<longrightarrow> cs \<noteq> []) \<and>
     (cs = [] \<and> ind = [] \<or>
      length cs = 1 \<and> ind = ''/'' \<and> nType (cs ! 0) = NodeStatic \<and> keyOK CHR ''/'' (cs ! 0) \<and>
      slashChild (cs ! 0))"

definition catchShape ::
    "string \<Rightarrow> string \<Rightarrow> 'h node list \<Rightarrow> 'h option \<Rightarrow> string \<Rightarrow> bool \<Rightarrow> bool" where
  "catchShape p ind cs h pn w \<longleftrightarrow>
     (if w then p = [] \<and> ind = [] \<and> h = None \<and> pn = [] \<and> length cs = 1 \<and>
                nType (cs ! 0) = NodeCatchAll \<and> \<not> nwildChild (cs ! 0)
      else p = CHR ''/'' # CHR ''*'' # pn \<and> goodName pn \<and> ind = [] \<and> cs = [] \<and> h \<noteq> None)"

definition nodeShape ::
    "string \<Rightarrow> string \<Rightarrow> 'h node list \<Rightarrow> 'h option \<Rightarrow> string \<Rightarrow> nodeType \<Rightarrow> bool \<Rightarrow> bool" where
  "nodeShape p ind cs h pn ty w \<longleftrightarrow>
     (case ty of
        NodeParam \<Rightarrow> paramShape p ind cs h pn w
      | NodeCatchAll \<Rightarrow> catchShape p ind cs h pn w
      | _ \<Rightarrow> staticShape p ind cs h pn w)"

fun wfNode :: "'h node \<Rightarrow> bool" where
  "wfNode (Node p ind cs h pn pr ty w) \<longleftrightarrow>
     nodeShape p ind cs h pn ty w \<and> (\<forall>c\<in>set cs. wfNode c)"

lemma wfNode_shape:
  "wfNode n \<longleftrightarrow>
     nodeShape (npath n) (nindices n) (nchildren n) (nhandlers n) (nparamName n) (nType n) (nwildChild n) \<and>
     (\<forall>c\<in>set (nchildren n). wfNode c)"
  by (cases n) simp

abbreviation isStatic :: "'h node \<Rightarrow> bool" where
  "isStatic n \<equiv> nType n = NodeStatic \<or> nType n = NodeRoot"

lemma wf_static_iff:
  "isStatic n \<Longrightarrow> wfNode n \<longleftrightarrow>
     staticShape (npath n) (nindices n) (nchildren n) (nhandlers n) (nparamName n) (nwildChild n) \<and>
     (\<forall>c\<in>set (nchildren n). wfNode c)"
  by (subst wfNode_shape) (auto simp: nodeShape_def)

lemma wf_param_iff:
  "nType n = NodeParam \<Longrightarrow> wfNode n \<longleftrightarrow>
     paramShape (npath n) (nindices n) (nchildren n) (nhandlers n) (nparamName n) (nwildChild n) \<and>
     (\<forall>c\<in>set (nchildren n). wfNode c)"
  by (subst wfNode_shape) (auto simp: nodeShape_def)

lemma wf_catch_iff:
  "nType n = NodeCatchAll \<Longrightarrow> wfNode n \<longleftrightarrow>
     catchShape (npath n) (nindices n) (nchildren n) (nhandlers n) (nparamName n) (nwildChild n) \<and>
     (\<forall>c\<in>set (nchildren n). wfNode c)"
  by (subst wfNode_shape) (auto simp: nodeShape_def)

lemma wfNode_incPriority [simp]: "wfNode (incPriority n) = wfNode n"
  by (subst (1 2) wfNode_shape) simp

lemma shape_nonempty: "nodeShape p ind cs h pn ty w \<Longrightarrow> h = None \<Longrightarrow> cs \<noteq> []"
  by (auto simp: nodeShape_def staticShape_def paramShape_def catchShape_def
      split: nodeType.splits if_splits)

lemma routes_nonempty: "wfNode n \<Longrightarrow> routes n \<noteq> {}"
proof (induction n)
  case (Node p ind cs h pn pr ty w)
  show ?case
  proof (cases h)
    case None
    with Node.prems obtain c where c: "c \<in> set cs"
      using shape_nonempty [of p ind cs h pn ty w] by (cases cs) auto
    with Node have "routes c \<noteq> {}" by simp
    with c show ?thesis by auto
  next
    case (Some x)
    then show ?thesis by (simp add: own_def)
  qed
qed

text \<open>A boundary node, seen through its leaf.\<close>

lemma wf_boundary:
  assumes "wfNode n" "nType n = NodeCatchAll" "nwildChild n"
  obtains m x where "nchildren n = [m]" "nhandlers m = Some x" "goodName (nparamName m)"
    "nType m = NodeCatchAll" "npath n = []" "nhandlers n = None" "nindices n = []"
    "routes n = {([Catch (nparamName m)], x)}"
proof -
  have s: "catchShape (npath n) (nindices n) (nchildren n) (nhandlers n) (nparamName n) True"
    and wfc: "\<forall>c\<in>set (nchildren n). wfNode c"
    using assms wf_catch_iff [of n] by auto
  then obtain m where m: "nchildren n = [m]" "nType m = NodeCatchAll" "\<not> nwildChild m"
    by (auto simp: catchShape_def length_Suc_conv)
  with wfc have "catchShape (npath m) (nindices m) (nchildren m) (nhandlers m) (nparamName m) False"
    using wf_catch_iff [of m] by auto
  then obtain x where x: "nhandlers m = Some x" "goodName (nparamName m)" "nchildren m = []"
    by (auto simp: catchShape_def)
  then have "routes m = {([Catch (nparamName m)], x)}"
    using m by (simp add: routes_below [of m] below_def route_simps)
  then have "routes n = {([Catch (nparamName m)], x)}"
    using assms m s by (simp add: routes_below [of n] below_def route_simps catchShape_def)
  then show thesis
    using that m x s by (auto simp: catchShape_def)
qed

section \<open>Matching through a node\<close>

lemma matches_lits:
  "matches (map Lit p @ ts) s =
     (if take (length p) s = p then matches ts (drop (length p) s) else None)"
proof (induction p arbitrary: s)
  case (Cons c p)
  then show ?case by (cases s) auto
qed simp

lemma firstIs_matches: "firstIs k ts \<Longrightarrow> matches ts s \<noteq> None \<Longrightarrow> s \<noteq> [] \<and> hd s = k"
  by (cases ts; cases s; cases "hd ts") (auto simp: firstIs_def split: if_splits)

lemma firstIs_unique: "firstIs k ts \<Longrightarrow> firstIs k' ts \<Longrightarrow> k = k'"
  by (cases ts; cases "hd ts") (auto simp: firstIs_def)

text \<open>A lookup result \<open>res\<close> agrees with a set of routes on a path: it has a handler exactly when a
  route matches, and then that route's handler and captures.\<close>

definition agrees ::
    "(tok list \<times> 'h) set \<Rightarrow> string \<Rightarrow> params \<Rightarrow> 'h routeResult \<Rightarrow> bool" where
  "agrees R s ps res \<longleftrightarrow>
     (\<forall>ts x qs. (ts, x) \<in> R \<longrightarrow> matches ts s = Some qs \<longrightarrow>
        rhandlers res = Some x \<and> rparams res = ps @ qs) \<and>
     (\<forall>x. rhandlers res = Some x \<longrightarrow>
        (\<exists>ts qs. (ts, x) \<in> R \<and> matches ts s = Some qs \<and> rparams res = ps @ qs))"

lemma agrees_miss:
  "rhandlers res = None \<Longrightarrow> (\<And>ts x. (ts, x) \<in> R \<Longrightarrow> matches ts s = None) \<Longrightarrow> agrees R s ps res"
  by (auto simp: agrees_def)

lemma agrees_prep:
  "agrees (prep ls R) s ps res \<longleftrightarrow>
     (\<forall>us x qs. (us, x) \<in> R \<longrightarrow> matches (ls @ us) s = Some qs \<longrightarrow>
        rhandlers res = Some x \<and> rparams res = ps @ qs) \<and>
     (\<forall>x. rhandlers res = Some x \<longrightarrow>
        (\<exists>us qs. (us, x) \<in> R \<and> matches (ls @ us) s = Some qs \<and> rparams res = ps @ qs))"
  unfolding agrees_def in_prep by blast

lemma agrees_lits:
  "take (length p) s = p \<Longrightarrow> agrees R (drop (length p) s) ps res \<Longrightarrow> agrees (prep (map Lit p) R) s ps res"
  unfolding agrees_prep matches_lits unfolding agrees_def by simp

lemma agrees_narrow:
  assumes "agrees S s ps res" "S \<subseteq> R" "\<And>ts x. (ts, x) \<in> R \<Longrightarrow> (ts, x) \<notin> S \<Longrightarrow> matches ts s = None"
  shows "agrees R s ps res"
proof -
  have "(ts, x) \<in> S" if "(ts, x) \<in> R" "matches ts s = Some qs" for ts x qs
    using assms(3) that by fastforce
  with assms(1,2) show ?thesis
    unfolding agrees_def by (meson subsetD)
qed

lemma agrees_par:
  assumes s: "s \<noteq> []"
    and ag: "agrees R (dropWhile notSlash s) (ps @ [\<lparr>Key = nm, Value = takeWhile notSlash s\<rparr>]) res"
  shows "agrees (prep [Par nm] R) s ps res"
proof -
  let ?p = "\<lparr>Key = nm, Value = takeWhile notSlash s\<rparr>"
  have m: "matches ([Par nm] @ us) s = Some qs \<longleftrightarrow>
      (\<exists>qs'. matches us (dropWhile notSlash s) = Some qs' \<and> qs = ?p # qs')" for us qs
    using s by (auto simp: map_option_eq_Some)
  show ?thesis
    unfolding agrees_prep m
  proof (intro conjI allI impI)
    fix us x qs
    assume "(us, x) \<in> R" "\<exists>qs'. matches us (dropWhile notSlash s) = Some qs' \<and> qs = ?p # qs'"
    then show "rhandlers res = Some x" "rparams res = ps @ qs"
      using ag unfolding agrees_def by fastforce+
  next
    fix x
    assume "rhandlers res = Some x"
    then obtain ts qs where "(ts, x) \<in> R" "matches ts (dropWhile notSlash s) = Some qs"
      "rparams res = (ps @ [?p]) @ qs"
      using ag unfolding agrees_def by meson
    then show "\<exists>us qs. (us, x) \<in> R \<and>
        (\<exists>qs'. matches us (dropWhile notSlash s) = Some qs' \<and> qs = ?p # qs') \<and> rparams res = ps @ qs"
      by auto
  qed
qed

end
