(* ===== verification/TreeLookup.thy ===== *)
theory TreeLookup
  imports TreeInv
begin

text \<open>
  Lookup is correct: on every well-formed tree \<open>getValue\<close> returns, without an index out of range,
  the handler of the route that matches the path, with the parameters the pattern captures, and no
  handler when none matches.
\<close>

section \<open>Inversion of well-formed nodes\<close>

lemma own_below: "nhandlers n = Some x \<Longrightarrow> ([], x) \<in> below n"
  by (simp add: below_def own_def)

lemma keyOK_firstIs: "keyOK k c \<Longrightarrow> (ts, x) \<in> routes c \<Longrightarrow> firstIs k ts"
  by (auto simp: keyOK_def)

lemma firstIs_empty: "firstIs k ts \<Longrightarrow> matches ts [] = None"
  using firstIs_matches [of k ts "[]"] by fastforce

lemma below_cases:
  assumes "(ts, x) \<in> below n"
  obtains (own) "ts = []" "nhandlers n = Some x"
    | (child) i where "i < length (nchildren n)" "(ts, x) \<in> routes (nchildren n ! i)"
  using assms by (auto simp: below_def own_def in_set_conv_nth split: option.splits)

lemma wf_branching:
  assumes "wfNode n" "isStatic n" "\<not> nwildChild n"
  shows "length (nindices n) = length (nchildren n)" "distinct (nindices n)" "noWild (nindices n)"
    and "\<And>i. i < length (nchildren n) \<Longrightarrow> keyOK (nindices n ! i) (nchildren n ! i) \<and> wfNode (nchildren n ! i)"
proof -
  have s: "staticShape (npath n) (nindices n) (nchildren n) (nhandlers n) (nparamName n) False"
    and wfc: "\<forall>c\<in>set (nchildren n). wfNode c"
    using assms wf_static_iff [of n] by auto
  then show len: "length (nindices n) = length (nchildren n)"
    and "distinct (nindices n)" "noWild (nindices n)"
    by (auto simp: staticShape_def)
  fix i
  assume i: "i < length (nchildren n)"
  then have "(nindices n ! i, nchildren n ! i) \<in> set (zip (nindices n) (nchildren n))"
    using len by (auto simp: set_zip)
  then have "keyOK (nindices n ! i) (nchildren n ! i)"
    using s by (auto simp: staticShape_def)
  then show "keyOK (nindices n ! i) (nchildren n ! i) \<and> wfNode (nchildren n ! i)"
    using wfc i by simp
qed

lemma wf_wild:
  assumes "wfNode n" "isStatic n" "nwildChild n"
  obtains q where "nchildren n = [q]" "nType q = NodeParam" "wfNode q" "nindices n = []"
proof -
  have "staticShape (npath n) (nindices n) (nchildren n) (nhandlers n) (nparamName n) True"
    and wfc: "\<forall>c\<in>set (nchildren n). wfNode c"
    using assms wf_static_iff [of n] by auto
  then obtain q where "nchildren n = [q]" "nType q = NodeParam" "nindices n = []"
    by (auto simp: staticShape_def length_Suc_conv)
  then show thesis
    using that wfc by auto
qed

lemma wf_paramE:
  assumes "wfNode q" "nType q = NodeParam"
  obtains (leaf) x where "nchildren q = []" "nindices q = []" "nhandlers q = Some x"
      "npath q = CHR '':'' # nparamName q" "goodName (nparamName q)" "\<not> nwildChild q"
    | (inner) m where "nchildren q = [m]" "nindices q = ''/''" "nType m = NodeStatic" "wfNode m"
      "keyOK CHR ''/'' m" "npath q = CHR '':'' # nparamName q" "goodName (nparamName q)" "\<not> nwildChild q"
      "slashChild m"
proof -
  have p: "paramShape (npath q) (nindices q) (nchildren q) (nhandlers q) (nparamName q) (nwildChild q)"
    and wfc: "\<forall>c\<in>set (nchildren q). wfNode c"
    using assms wf_param_iff [of q] by auto
  show thesis
  proof (cases "nchildren q")
    case Nil
    with p show ?thesis by (auto simp: paramShape_def intro: leaf)
  next
    case (Cons m ms)
    with p wfc show ?thesis by (auto simp: paramShape_def intro: inner)
  qed
qed

lemma routes_static: "isStatic n \<Longrightarrow> routes n = prep (map Lit (npath n)) (below n)"
  by (subst routes_below) (auto simp: labelOf_def)

lemma routes_param: "nType q = NodeParam \<Longrightarrow> routes q = prep [Par (nparamName q)] (below q)"
  by (subst routes_below) (auto simp: labelOf_def)

lemma below_wild: "nchildren n = [q] \<Longrightarrow> below n = own (nhandlers n) \<union> routes q"
  by (simp add: below_def)

text \<open>Below a branching node, a non-empty path is matched only by the child keyed by its first
  byte, and the empty path only by the node itself.\<close>

lemma branch_miss:
  assumes wf: "wfNode n" "isStatic n" "\<not> nwildChild n"
    and ts: "(ts, x) \<in> below n" "s \<noteq> []" "matches ts s \<noteq> None"
  shows "\<exists>i < length (nchildren n). nindices n ! i = hd s \<and> (ts, x) \<in> routes (nchildren n ! i)"
  using ts(1)
proof (cases rule: below_cases)
  case own
  with ts show ?thesis by simp
next
  case (child i)
  then have "firstIs (nindices n ! i) ts"
    using wf_branching(4) [OF wf, of i] by (auto simp: keyOK_def)
  with ts(3) have "nindices n ! i = hd s"
    using firstIs_matches [of "nindices n ! i" ts s] by simp
  with child show ?thesis by blast
qed

lemma param_child_nonempty: "(ts, x) \<in> routes q \<Longrightarrow> nType q = NodeParam \<Longrightarrow> matches ts [] = None"
  by (auto simp: routes_param in_prep)

lemma below_empty_path:
  assumes "wfNode n" "isStatic n" "(ts, x) \<in> below n" "matches ts [] \<noteq> None"
  shows "ts = [] \<and> nhandlers n = Some x"
  using assms(3)
proof (cases rule: below_cases)
  case own
  then show ?thesis by simp
next
  case (child i)
  show ?thesis
  proof (cases "nwildChild n")
    case True
    obtain q where "nchildren n = [q]" "nType q = NodeParam"
      using wf_wild [OF assms(1,2) True] by metis
    with child have "matches ts [] = None"
      using param_child_nonempty [of ts x q] by simp
    with assms(4) show ?thesis by simp
  next
    case False
    then have "firstIs (nindices n ! i) ts"
      using wf_branching(4) [OF assms(1,2), of i] child by (auto simp: keyOK_def)
    with assms(4) show ?thesis using firstIs_empty by auto
  qed
qed

section \<open>Lookup agrees with the routes\<close>

lemma getValue_boundary:
  assumes "wfNode n" "nType n = NodeCatchAll" "nwildChild n" "s \<noteq> []" "hd s = CHR ''/''"
  shows "\<exists>res. getValue n s ps = Inr res \<and> agrees (routes n) s ps res \<and> \<not> rtsr res"
proof -
  obtain m x where "nchildren n = [m]" "nhandlers m = Some x" "nType m = NodeCatchAll"
    "npath n = []" "routes n = {([Catch (nparamName m)], x)}"
    using wf_boundary [OF assms(1-3)] by metis
  then show ?thesis
    using assms by (simp add: getValue.simps [of n] agrees_def)
qed

lemma boundary_key:
  assumes "wfNode n" "nType n = NodeCatchAll" "nwildChild n" "keyOK k n"
  shows "k = CHR ''/''"
proof (rule wf_boundary [OF assms(1-3)])
  fix m x
  assume "routes n = {([Catch (nparamName m)], x)}"
  with assms(4) show ?thesis by (simp add: keyOK_def firstIs_def)
qed

lemma exactMatch_Some:
  "nhandlers n = Some x \<Longrightarrow> exactMatch n s ps = Inr \<lparr>rhandlers = Some x, rparams = ps, rtsr = False\<rparr>"
  by (simp add: exactMatch_def)

lemma exactMatch_None:
  assumes wf: "wfNode n" "isStatic n" and h: "nhandlers n = None"
  shows "\<exists>b. exactMatch n s ps = Inr \<lparr>rhandlers = None, rparams = ps, rtsr = b\<rparr>"
proof (cases "indexOf CHR ''/'' (nindices n)")
  case None
  with h show ?thesis by (auto simp: exactMatch_def)
next
  case (Some i)
  then have i: "i < length (nindices n)" using indexOf_Some by blast
  then have w: "\<not> nwildChild n" using wf by (auto elim: wf_wild)
  have m: "wfNode (nchildren n ! i)" "keyOK (nindices n ! i) (nchildren n ! i)" "i < length (nchildren n)"
    using wf_branching(1,4) [OF wf w] i by auto
  have "nchildren (nchildren n ! i) \<noteq> []" if "nType (nchildren n ! i) = NodeCatchAll"
    using m(1,2) that by (auto simp: keyOK_def elim: wf_boundary)
  with m(3) Some h w show ?thesis
    by (auto simp: exactMatch_def Let_def)
qed

text \<open>At the end of the path only a handler of the node itself can answer.\<close>

lemma agrees_end:
  assumes "\<And>ts x. (ts, x) \<in> R \<Longrightarrow> matches ts [] \<noteq> None \<Longrightarrow> ts = [] \<and> rhandlers res = Some x"
    and "\<And>x. rhandlers res = Some x \<Longrightarrow> ([], x) \<in> R" and "rparams res = ps"
  shows "agrees R [] ps res"
proof -
  have "rhandlers res = Some x \<and> rparams res = ps @ qs"
    if "(ts, x) \<in> R" "matches ts [] = Some qs" for ts x qs
    using assms(1) [OF that(1)] that(2) assms(3) by auto
  moreover have "\<exists>ts qs. (ts, x) \<in> R \<and> matches ts [] = Some qs \<and> rparams res = ps @ qs"
    if "rhandlers res = Some x" for x
    using assms(2) [OF that] assms(3) by (intro exI [of _ "[]"]) auto
  ultimately show ?thesis unfolding agrees_def by blast
qed

lemma exactMatch_agrees:
  assumes wf: "wfNode n" "isStatic n"
  shows "\<exists>res. exactMatch n s ps = Inr res \<and> agrees (below n) [] ps res"
proof -
  have "\<exists>b. exactMatch n s ps = Inr \<lparr>rhandlers = nhandlers n, rparams = ps, rtsr = b\<rparr>"
  proof (cases "nhandlers n")
    case None
    show ?thesis unfolding None by (rule exactMatch_None [OF wf None])
  next
    case (Some x)
    show ?thesis unfolding Some exactMatch_Some [OF Some] by blast
  qed
  then obtain b where "exactMatch n s ps = Inr \<lparr>rhandlers = nhandlers n, rparams = ps, rtsr = b\<rparr>" ..
  moreover have "agrees (below n) [] ps \<lparr>rhandlers = nhandlers n, rparams = ps, rtsr = b\<rparr>"
  proof (rule agrees_end)
    fix ts x
    assume "(ts, x) \<in> below n" "matches ts [] \<noteq> None"
    then show "ts = [] \<and> rhandlers \<lparr>rhandlers = nhandlers n, rparams = ps, rtsr = b\<rparr> = Some x"
      using below_empty_path [OF wf] by simp
  qed (simp_all add: own_below)
  ultimately show ?thesis by blast
qed

text \<open>The branches of \<open>getValue\<close> on well-formed nodes, one equation each.\<close>

lemma getValue_miss:
  assumes "isStatic n" "take (length (npath n)) s \<noteq> npath n"
  shows "\<exists>res. getValue n s ps = Inr res \<and> agrees (routes n) s ps res"
proof -
  have "s \<noteq> npath n" using assms(2) by auto
  with assms(2) have "\<exists>res. getValue n s ps = Inr res \<and> rhandlers res = None"
    by (simp add: getValue.simps [of n])
  moreover have "agrees (routes n) s ps res" if "rhandlers res = None" for res
    using that assms by (intro agrees_miss) (auto simp: routes_static in_prep matches_lits)
  ultimately show ?thesis by blast
qed

lemma getValue_exact: "getValue n (npath n) ps = exactMatch n (npath n) ps"
  by (simp add: getValue.simps [of n])

lemma getValue_branch:
  assumes "s \<noteq> []" "\<not> nwildChild n"
  shows "getValue n (npath n @ s) ps =
     (case indexOf (hd s) (nindices n) of
        Some i \<Rightarrow> if length (nchildren n) \<le> i then Inl IndexOutOfRange
                  else getValue (nchildren n ! i) s ps
      | None \<Rightarrow> Inr \<lparr>rhandlers = None, rparams = ps, rtsr = (s = ''/'' \<and> nhandlers n \<noteq> None)\<rparr>)"
  using assms by (simp add: getValue.simps [of n] hd_conv_nth)

lemma getValue_param:
  assumes "s \<noteq> []" "nwildChild n" "nchildren n = [q]" "nType q = NodeParam"
    and "rest = dropWhile notSlash s"
    and "ps1 = ps @ [\<lparr>Key = nparamName q, Value = takeWhile notSlash s\<rparr>]"
  shows "getValue n (npath n @ s) ps =
     (if rest \<noteq> [] then
        if nchildren q \<noteq> [] then getValue (nchildren q ! 0) rest ps1
        else Inr \<lparr>rhandlers = None, rparams = ps1, rtsr = (length rest = 1)\<rparr>
      else if nhandlers q \<noteq> None then Inr \<lparr>rhandlers = nhandlers q, rparams = ps1, rtsr = False\<rparr>
      else if length (nchildren q) = 1 then
        Inr \<lparr>rhandlers = None, rparams = ps1,
             rtsr = (npath (nchildren q ! 0) = ''/'' \<and> nhandlers (nchildren q ! 0) \<noteq> None \<or>
                     npath (nchildren q ! 0) = [] \<and> nindices (nchildren q ! 0) = ''/'')\<rparr>
      else Inr \<lparr>rhandlers = None, rparams = ps1, rtsr = False\<rparr>)"
proof -
  have len: "length s = length (takeWhile notSlash s) + length rest"
    unfolding assms(5) by (metis length_append takeWhile_dropWhile_id)
  then have "(length (takeWhile notSlash s) < length s) = (rest \<noteq> [])"
    "(length s = length (takeWhile notSlash s) + 1) = (length rest = 1)" by auto
  moreover have "drop (length (takeWhile notSlash s)) s = rest"
    unfolding assms(5) by (simp add: dropWhile_eq_drop)
  ultimately show ?thesis
    using assms(1-4,6) by (simp add: getValue.simps [of n] Let_def)
qed

lemma getValue_param_end:
  assumes "s \<noteq> []" "nwildChild n" "nchildren n = [q]" "nType q = NodeParam" "dropWhile notSlash s = []"
  shows "\<exists>b. getValue n (npath n @ s) ps =
     Inr \<lparr>rhandlers = nhandlers q, rparams = ps @ [\<lparr>Key = nparamName q, Value = takeWhile notSlash s\<rparr>],
          rtsr = b\<rparr>"
  unfolding getValue_param [OF assms(1-4) refl refl] assms(5)
  by (cases "nhandlers q"; cases "length (nchildren q) = 1"; simp; blast)

text \<open>An answer for the child that the next byte selects is an answer for everything below the
  node.\<close>

lemma agrees_branch:
  assumes wf: "wfNode n" "isStatic n" "\<not> nwildChild n" and s: "s \<noteq> []"
    and i: "i < length (nchildren n)" "nindices n ! i = hd s"
    and ag: "agrees (routes (nchildren n ! i)) s ps res"
  shows "agrees (below n) s ps res"
proof (rule agrees_narrow [OF ag])
  show "routes (nchildren n ! i) \<subseteq> below n" using i(1) by (auto simp: below_def)
  fix ts x
  assume ts: "(ts, x) \<in> below n" "(ts, x) \<notin> routes (nchildren n ! i)"
  show "matches ts s = None"
  proof (rule ccontr)
    assume "matches ts s \<noteq> None"
    then obtain j where "j < length (nchildren n)" "nindices n ! j = hd s"
      "(ts, x) \<in> routes (nchildren n ! j)"
      using branch_miss [OF wf ts(1) s] by blast
    then show False
      using ts(2) i wf_branching(1,2) [OF wf] nth_eq_iff_index_eq [of "nindices n" i j] by auto
  qed
qed

lemma agrees_branch_none:
  assumes wf: "wfNode n" "isStatic n" "\<not> nwildChild n" and s: "s \<noteq> []"
    and "indexOf (hd s) (nindices n) = None" "rhandlers res = None"
  shows "agrees (below n) s ps res"
proof (rule agrees_miss [OF assms(6)])
  fix ts x
  assume ts: "(ts, x) \<in> below n"
  have "hd s \<notin> set (nindices n)" using assms(5) by (simp add: indexOf_None)
  then have "\<not> (\<exists>i<length (nchildren n). nindices n ! i = hd s \<and> (ts, x) \<in> routes (nchildren n ! i))"
    using wf_branching(1) [OF wf] by (metis nth_mem)
  then show "matches ts s = None"
    using branch_miss [OF wf ts s] by blast
qed

lemma agrees_wild:
  assumes q: "nchildren n = [q]" "nType q = NodeParam" and s: "s \<noteq> []"
    and "agrees (below q) (dropWhile notSlash s)
           (ps @ [\<lparr>Key = nparamName q, Value = takeWhile notSlash s\<rparr>]) res"
  shows "agrees (below n) s ps res"
proof (rule agrees_narrow)
  show "agrees (routes q) s ps res"
    using agrees_par [OF s assms(4)] q(2) by (simp add: routes_param)
  show "routes q \<subseteq> below n" using q by (simp add: below_wild)
  show "matches ts s = None" if "(ts, x) \<in> below n" "(ts, x) \<notin> routes q" for ts x
    using that q s by (auto simp: below_wild own_def split: option.splits)
qed

text \<open>Below a parameter node: at the end of the path only its own handler counts, before a slash
  only its child.\<close>

lemma agrees_param_end:
  assumes q: "wfNode q" "nType q = NodeParam" and "rhandlers res = nhandlers q" "rparams res = ps"
  shows "agrees (below q) [] ps res"
proof (rule agrees_end)
  fix ts x
  assume "(ts, x) \<in> below q" "matches ts [] \<noteq> None"
  then show "ts = [] \<and> rhandlers res = Some x"
  proof (cases rule: below_cases)
    case own
    with assms show ?thesis by simp
  next
    case (child i)
    have "firstIs CHR ''/'' ts"
      using q
    proof (cases rule: wf_paramE)
      case (inner m)
      with child show ?thesis by (auto intro: keyOK_firstIs)
    qed (use child in simp)
    with \<open>matches ts [] \<noteq> None\<close> show ?thesis by (simp add: firstIs_empty)
  qed
qed (simp_all add: assms own_below)

lemma agrees_param_child:
  assumes "nchildren q = [m]" "s \<noteq> []" "agrees (routes m) s ps res"
  shows "agrees (below q) s ps res"
  by (rule agrees_narrow [OF assms(3)])
    (use assms in \<open>auto simp: below_wild own_def split: option.splits\<close>)

text \<open>The two ways down, given the lookup in the smaller nodes.\<close>

lemma getValue_agrees_branch:
  fixes n :: "'h node"
  assumes wf: "wfNode n" "isStatic n" and br: "s \<noteq> []" "\<not> nwildChild n"
    and IH: "\<And>c :: 'h node. size c < size n \<Longrightarrow> wfNode c \<Longrightarrow> isStatic c \<Longrightarrow>
       \<exists>res. getValue c s ps = Inr res \<and> agrees (routes c) s ps res"
  shows "\<exists>res. getValue n (npath n @ s) ps = Inr res \<and> agrees (below n) s ps res"
proof (cases "indexOf (hd s) (nindices n)")
  case None
  with br show ?thesis
    by (auto simp: getValue_branch intro!: agrees_branch_none [OF wf])
next
  case (Some i)
  then have i: "i < length (nchildren n)" "nindices n ! i = hd s"
    using indexOf_Some wf_branching(1) [OF wf br(2)] by fastforce+
  let ?c = "nchildren n ! i"
  have c: "keyOK (hd s) ?c" "wfNode ?c" "size ?c < size n"
    using wf_branching(4) [OF wf br(2) i(1)] i(2) size_child [OF refl i(1)] by auto
  have "\<exists>res. getValue ?c s ps = Inr res \<and> agrees (routes ?c) s ps res"
  proof (cases "nType ?c = NodeStatic")
    case True
    then show ?thesis using IH [OF c(3,2)] by blast
  next
    case False
    then have b: "nType ?c = NodeCatchAll" "nwildChild ?c"
      using c(1) by (auto simp: keyOK_def)
    then show ?thesis
      using getValue_boundary [OF c(2) b br(1) boundary_key [OF c(2) b c(1)]] by blast
  qed
  then show ?thesis
    using br Some i agrees_branch [OF wf br(2,1) i] by (auto simp: getValue_branch)
qed

lemma getValue_agrees_param:
  fixes n :: "'h node" and ps
  assumes q: "nchildren n = [q]" "nType q = NodeParam" "wfNode q" and wild: "s \<noteq> []" "nwildChild n"
    and r: "dropWhile notSlash s \<noteq> []"
    and IH: "\<And>(c :: 'h node) s ps. size c < size n \<Longrightarrow> wfNode c \<Longrightarrow> isStatic c \<Longrightarrow>
       \<exists>res. getValue c s ps = Inr res \<and> agrees (routes c) s ps res"
  defines "ps' \<equiv> ps @ [\<lparr>Key = nparamName q, Value = takeWhile notSlash s\<rparr>]"
  shows "\<exists>res. getValue n (npath n @ s) ps = Inr res \<and> agrees (below q) (dropWhile notSlash s) ps' res"
proof -
  let ?r = "dropWhile notSlash s"
  note gv = getValue_param [OF wild q(1,2) refl refl, of ps, folded ps'_def]
  show ?thesis
    using q(3,2)
  proof (cases rule: wf_paramE)
    case (leaf x)
    have "agrees (below q) ?r ps' res" if "rhandlers res = None" for res
      using leaf r that by (intro agrees_miss) (auto simp: below_def own_def)
    with leaf r show ?thesis unfolding gv by simp
  next
    case (inner m)
    have "size m < size n"
      using size_child [of q "nchildren q" 0] size_child [of n "nchildren n" 0] q inner by simp
    then obtain res where res: "getValue m ?r ps' = Inr res" "agrees (routes m) ?r ps' res"
      using IH inner(3,4) by blast
    have "getValue n (npath n @ s) ps = Inr res"
      unfolding gv using inner(1) r res(1) by simp
    moreover have "agrees (below q) ?r ps' res"
      by (rule agrees_param_child [OF inner(1) r res(2)])
    ultimately show ?thesis by blast
  qed
qed

lemma getValue_agrees_wild:
  fixes n :: "'h node"
  assumes wf: "wfNode n" "isStatic n" and wild: "s \<noteq> []" "nwildChild n"
    and IH: "\<And>(c :: 'h node) s ps. size c < size n \<Longrightarrow> wfNode c \<Longrightarrow> isStatic c \<Longrightarrow>
       \<exists>res. getValue c s ps = Inr res \<and> agrees (routes c) s ps res"
  shows "\<exists>res. getValue n (npath n @ s) ps = Inr res \<and> agrees (below n) s ps res"
proof -
  obtain q where q: "nchildren n = [q]" "nType q = NodeParam" "wfNode q"
    using wf_wild [OF wf wild(2)] by metis
  let ?ps = "ps @ [\<lparr>Key = nparamName q, Value = takeWhile notSlash s\<rparr>]"
  have "\<exists>res. getValue n (npath n @ s) ps = Inr res \<and> agrees (below q) (dropWhile notSlash s) ?ps res"
  proof (cases "dropWhile notSlash s = []")
    case True
    then obtain b where "getValue n (npath n @ s) ps = Inr \<lparr>rhandlers = nhandlers q, rparams = ?ps, rtsr = b\<rparr>"
      using getValue_param_end [OF wild q(1,2) True, of ps] by blast
    moreover have "agrees (below q) [] ?ps \<lparr>rhandlers = nhandlers q, rparams = ?ps, rtsr = b\<rparr>"
      by (rule agrees_param_end [OF q(3,2)]) simp_all
    ultimately show ?thesis unfolding True by blast
  next
    case False
    then show ?thesis by (rule getValue_agrees_param [OF q wild _ IH])
  qed
  then show ?thesis using agrees_wild [OF q(1,2) wild(1), of ps] by blast
qed

lemma getValue_agrees:
  "wfNode n \<Longrightarrow> isStatic n \<Longrightarrow> \<exists>res. getValue n s ps = Inr res \<and> agrees (routes n) s ps res"
proof (induction n arbitrary: s ps rule: measure_induct_rule [where f = size])
  case (less n)
  note wf = less.prems
  show ?case
  proof (cases "take (length (npath n)) s = npath n")
    case False
    then show ?thesis using getValue_miss [OF wf(2)] by blast
  next
    case True
    then obtain s1 where s: "s = npath n @ s1" by (metis append_take_drop_id)
    consider (exact) "s1 = []" | (branch) "s1 \<noteq> []" "\<not> nwildChild n" | (wild) "s1 \<noteq> []" "nwildChild n"
      by blast
    then have "\<exists>res. getValue n s ps = Inr res \<and> agrees (below n) s1 ps res"
    proof cases
      case exact
      then show ?thesis using exactMatch_agrees [OF wf] by (simp add: s getValue_exact)
    next
      case branch
      then show ?thesis unfolding s by (rule getValue_agrees_branch [OF wf _ _ less.IH])
    next
      case wild
      then show ?thesis unfolding s by (rule getValue_agrees_wild [OF wf _ _ less.IH])
    qed
    then show ?thesis
      using agrees_lits [of "npath n" s] s routes_static [OF wf(2)] by fastforce
  qed
qed

end
