(* ===== verification/TreeInsert.thy ===== *)
theory TreeInsert
  imports TreeLookup
begin

text \<open>
  Registration is correct: adding a pattern that is compatible with the routes of a well-formed
  tree ends, does not panic, keeps the invariant and adds exactly that route.
\<close>

section \<open>Reordering by priority\<close>

lemma moveDown_nth_cases:
  assumes "np \<le> pos" "pos < length xs" "j < length xs"
  shows "moveDown np pos xs ! j =
    (if j < np then xs ! j else if j = np then xs ! pos else if j \<le> pos then xs ! (j - 1) else xs ! j)"
proof -
  consider "j < np" | "j = np" | "np < j" "j \<le> pos" | "pos < j" by linarith
  then show ?thesis
    using assms by cases (auto simp: moveDown_def nth_append min_def nth_Cons' intro!: arg_cong [where f = "(!) xs"])
qed

lemma moveDown_swap:
  assumes "np \<le> p" "Suc p < length xs"
  shows "moveDown np p (xs[p := xs ! Suc p, Suc p := xs ! p]) = moveDown np (Suc p) xs"
proof (rule nth_equalityI)
  fix i
  assume "i < length (moveDown np p (xs[p := xs ! Suc p, Suc p := xs ! p]))"
  then have "i < length xs" using assms by simp
  moreover have "i - Suc 0 = p" if "\<not> i \<le> p" "i \<le> Suc p" using that by simp
  ultimately show "moveDown np p (xs[p := xs ! Suc p, Suc p := xs ! p]) ! i = moveDown np (Suc p) xs ! i"
    using assms by (auto simp: moveDown_nth_cases nth_list_update)
qed (use assms in simp)

lemma moveDown_update:
  assumes "np \<le> pos" "pos < length xs"
  shows "(moveDown np pos xs)[np := y] = moveDown np pos (xs[pos := y])"
  using assms by (intro nth_equalityI) (auto simp: moveDown_nth_cases nth_list_update)

lemma swapDown_moveDown:
  "swapDown prio pos cs = (np, cs') \<Longrightarrow> pos < length cs \<Longrightarrow> np \<le> pos \<and> cs' = moveDown np pos cs"
proof (induction prio pos cs rule: swapDown.induct)
  case (2 prio p cs)
  then show ?case
    by (auto split: if_splits simp: moveDown_swap le_SucI)
qed simp

text \<open>Raising a child's priority moves it, with its index byte, to a smaller position.\<close>

definition reorder :: "nat \<Rightarrow> nat \<Rightarrow> string \<Rightarrow> 'h node list \<Rightarrow> 'h node \<Rightarrow> 'h node" where
  "reorder np pos ind cs n = set_nchildren (moveDown np pos cs) (set_nindices (moveDown np pos ind) n)"

lemma incrementChildPriority_ok:
  assumes "length (nindices n) = length (nchildren n)" "pos < length (nchildren n)"
  shows "\<exists>np\<le>pos. incrementChildPriority n pos =
    Inr (np, reorder np pos (nindices n) ((nchildren n)[pos := incPriority (nchildren n ! pos)]) n)"
proof -
  let ?cs = "(nchildren n)[pos := incPriority (nchildren n ! pos)]"
  obtain np cs' where sw: "swapDown (npriority (?cs ! pos)) pos ?cs = (np, cs')"
    by fastforce
  then have np: "np \<le> pos" "cs' = moveDown np pos ?cs"
    using swapDown_moveDown [of _ pos ?cs] assms by auto
  have "take 1 (drop pos (nindices n)) = [nindices n ! pos]"
    using assms by (metis Cons_nth_drop_Suc One_nat_def take_Suc_Cons take0)
  then have "(if np \<noteq> pos then take np (nindices n) @ take 1 (drop pos (nindices n)) @
       take (pos - np) (drop np (nindices n)) @ drop (pos + 1) (nindices n) else nindices n) =
       moveDown np pos (nindices n)"
    using assms by (auto simp: moveDown_same) (simp add: moveDown_def)
  then have "incrementChildPriority n pos = Inr (np, reorder np pos (nindices n) ?cs n)"
    using assms sw np unfolding incrementChildPriority_def Let_def reorder_def by simp
  with np show ?thesis by blast
qed

lemma set_simps [simp]:
  "npath (set_npath v n) = v" "npath (set_nindices ind n) = npath n" "npath (set_nchildren cs n) = npath n"
  "npath (set_nhandlers h n) = npath n" "npath (set_nwildChild w n) = npath n" "npath (set_nType ty n) = npath n"
  "nindices (set_npath v n) = nindices n" "nindices (set_nindices ind n) = ind"
  "nindices (set_nchildren cs n) = nindices n" "nindices (set_nhandlers h n) = nindices n"
  "nindices (set_nwildChild w n) = nindices n" "nindices (set_nType ty n) = nindices n"
  "nchildren (set_npath v n) = nchildren n" "nchildren (set_nindices ind n) = nchildren n"
  "nchildren (set_nchildren cs n) = cs" "nchildren (set_nhandlers h n) = nchildren n"
  "nchildren (set_nwildChild w n) = nchildren n" "nchildren (set_nType ty n) = nchildren n"
  "nhandlers (set_npath v n) = nhandlers n" "nhandlers (set_nindices ind n) = nhandlers n"
  "nhandlers (set_nchildren cs n) = nhandlers n" "nhandlers (set_nhandlers h n) = h"
  "nhandlers (set_nwildChild w n) = nhandlers n" "nhandlers (set_nType ty n) = nhandlers n"
  "nparamName (set_npath v n) = nparamName n" "nparamName (set_nindices ind n) = nparamName n"
  "nparamName (set_nchildren cs n) = nparamName n" "nparamName (set_nhandlers h n) = nparamName n"
  "nparamName (set_nwildChild w n) = nparamName n" "nparamName (set_nType ty n) = nparamName n"
  by (cases n; simp)+

lemma set_simps2 [simp]:
  "nType (set_npath v n) = nType n" "nType (set_nindices ind n) = nType n" "nType (set_nchildren cs n) = nType n"
  "nType (set_nhandlers h n) = nType n" "nType (set_nwildChild w n) = nType n" "nType (set_nType ty n) = ty"
  "nwildChild (set_npath v n) = nwildChild n" "nwildChild (set_nindices ind n) = nwildChild n"
  "nwildChild (set_nchildren cs n) = nwildChild n" "nwildChild (set_nhandlers h n) = nwildChild n"
  "nwildChild (set_nwildChild w n) = w" "nwildChild (set_nType ty n) = nwildChild n"
  "npriority (set_npath v n) = npriority n" "npriority (set_nindices ind n) = npriority n"
  "npriority (set_nchildren cs n) = npriority n" "npriority (set_nhandlers h n) = npriority n"
  "npriority (set_nwildChild w n) = npriority n" "npriority (set_nType ty n) = npriority n"
  by (cases n; simp)+

lemma emptyNode_simps [simp]:
  "npath emptyNode = []" "nindices emptyNode = []" "nchildren emptyNode = []" "nhandlers emptyNode = None"
  "nparamName emptyNode = []" "nType emptyNode = NodeStatic" "nwildChild emptyNode = False"
  "npriority emptyNode = 0"
  by (simp_all add: emptyNode_def)

lemma reorder_simps [simp]:
  "npath (reorder np pos ind cs n) = npath n" "nhandlers (reorder np pos ind cs n) = nhandlers n"
  "nparamName (reorder np pos ind cs n) = nparamName n" "nType (reorder np pos ind cs n) = nType n"
  "nwildChild (reorder np pos ind cs n) = nwildChild n"
  "nindices (reorder np pos ind cs n) = moveDown np pos ind"
  "nchildren (reorder np pos ind cs n) = moveDown np pos cs"
  by (simp_all add: reorder_def)

lemma replaceChild_reorder:
  "np \<le> pos \<Longrightarrow> pos < length cs \<Longrightarrow>
     replaceChild (reorder np pos ind cs n) np m = reorder np pos ind (cs[pos := m]) n"
  by (cases n) (simp add: replaceChild_def reorder_def moveDown_update)

section \<open>Well-formed branching nodes\<close>

text \<open>A node that differs from a branching node by a reordering of its index bytes and children.\<close>

lemma wf_reorder:
  assumes "isStatic n" "\<not> nwildChild n" "np \<le> pos" "pos < length cs"
    and "staticShape (npath n) ind cs (nhandlers n) (nparamName n) False" "\<forall>c\<in>set cs. wfNode c"
  shows "wfNode (reorder np pos ind cs n)"
    and "below (reorder np pos ind cs n) = own (nhandlers n) \<union> (\<Union>c\<in>set cs. routes c)"
proof -
  have len: "length ind = length cs" using assms(5) by (simp add: staticShape_def)
  then have "set (zip (moveDown np pos ind) (moveDown np pos cs)) = set (zip ind cs)"
    using assms(3,4) by (simp add: zip_moveDown)
  moreover have "noWild (moveDown np pos ind) = noWild ind" "(moveDown np pos cs = []) = (cs = [])"
    using assms(3,4) len by (auto simp: noWild_def list_all_iff simp flip: length_0_conv)
  ultimately have "staticShape (npath n) (moveDown np pos ind) (moveDown np pos cs) (nhandlers n) (nparamName n) False"
    using assms(3-5) len unfolding staticShape_def by auto
  then show "wfNode (reorder np pos ind cs n)"
    using assms by (subst wf_static_iff) auto
  show "below (reorder np pos ind cs n) = own (nhandlers n) \<union> (\<Union>c\<in>set cs. routes c)"
    using assms(3,4) by (simp add: below_def)
qed

lemma UN_routes_update:
  assumes "i < length cs" "routes m = insert r (routes (cs ! i))"
  shows "(\<Union>c\<in>set (cs[i := m]). routes c) = insert r (\<Union>c\<in>set cs. routes c)"
proof
  show "(\<Union>c\<in>set (cs[i := m]). routes c) \<subseteq> insert r (\<Union>c\<in>set cs. routes c)"
    using assms set_update_subset_insert [of cs i m] nth_mem [OF assms(1)] by fastforce
  show "insert r (\<Union>c\<in>set cs. routes c) \<subseteq> (\<Union>c\<in>set (cs[i := m]). routes c)"
  proof -
    have "m \<in> set (cs[i := m])" using assms(1) by (simp add: set_update_memI)
    then have m: "routes m \<subseteq> (\<Union>c\<in>set (cs[i := m]). routes c)" by blast
    have "routes (cs ! j) \<subseteq> (\<Union>c\<in>set (cs[i := m]). routes c)" if j: "j < length cs" for j
    proof (cases "j = i")
      case True
      then show ?thesis using m assms(2) by auto
    next
      case False
      then have "cs ! j \<in> set (cs[i := m])"
        using j by (metis length_list_update nth_list_update_neq nth_mem)
      then show ?thesis by blast
    qed
    then show ?thesis
      using m assms(2) by (auto simp: in_set_conv_nth) blast
  qed
qed

text \<open>Replacing a child by one with one more route, and adding a child for a new byte.\<close>

lemma wf_update_child:
  assumes wf: "wfNode n" "isStatic n" "\<not> nwildChild n"
    and pos: "np \<le> pos" "pos < length (nchildren n)"
    and m: "wfNode m" "keyOK (nindices n ! pos) m" "routes m = insert r (routes (nchildren n ! pos))"
  shows "wfNode (reorder np pos (nindices n) ((nchildren n)[pos := m]) n)"
    and "below (reorder np pos (nindices n) ((nchildren n)[pos := m]) n) = insert r (below n)"
proof -
  let ?cs = "(nchildren n)[pos := m]"
  have s: "staticShape (npath n) (nindices n) (nchildren n) (nhandlers n) (nparamName n) False"
    and wfc: "\<forall>c\<in>set (nchildren n). wfNode c"
    using wf wf_static_iff [of n] by auto
  have key: "\<forall>(k, c)\<in>set (zip (nindices n) ?cs). keyOK k c"
    using wf_branching(1,4) [OF wf] m(2) pos(2)
    by (auto simp: set_zip nth_list_update split: if_splits)
  have "nchildren n \<noteq> []" using pos by auto
  then have s': "staticShape (npath n) (nindices n) ?cs (nhandlers n) (nparamName n) False"
    using s key by (simp add: staticShape_def)
  have wfc': "\<forall>c\<in>set ?cs. wfNode c"
    using wfc m(1) set_update_subset_insert [of "nchildren n" pos m] by auto
  show "wfNode (reorder np pos (nindices n) ?cs n)"
    using wf_reorder(1) [OF wf(2,3) pos(1) _ s' wfc'] pos by simp
  show "below (reorder np pos (nindices n) ?cs n) = insert r (below n)"
    using wf_reorder(2) [OF wf(2,3) pos(1) _ s' wfc'] pos UN_routes_update [of pos "nchildren n" m r] m(3)
    by (simp add: below_def)
qed

lemma wf_add_child:
  assumes wf: "wfNode n" "isStatic n" "\<not> nwildChild n"
    and c: "c \<notin> set (nindices n)" "\<not> isWild c" and np: "np \<le> length (nchildren n)"
    and m: "wfNode m" "keyOK c m"
  shows "wfNode (reorder np (length (nchildren n)) (nindices n @ [c]) (nchildren n @ [m]) n)"
    and "below (reorder np (length (nchildren n)) (nindices n @ [c]) (nchildren n @ [m]) n) =
           below n \<union> routes m"
proof -
  have "staticShape (npath n) (nindices n) (nchildren n) (nhandlers n) (nparamName n) False"
    and wfc: "\<forall>c\<in>set (nchildren n). wfNode c"
    using wf wf_static_iff [of n] by auto
  then have s: "staticShape (npath n) (nindices n @ [c]) (nchildren n @ [m]) (nhandlers n) (nparamName n) False"
    using c m by (auto simp: staticShape_def)
  note R = wf_reorder [OF wf(2,3) np _ s]
  show "wfNode (reorder np (length (nchildren n)) (nindices n @ [c]) (nchildren n @ [m]) n)"
    using R(1) wfc m(1) by simp
  show "below (reorder np (length (nchildren n)) (nindices n @ [c]) (nchildren n @ [m]) n) =
      below n \<union> routes m"
    using R(2) wfc m(1) by (auto simp: below_def)
qed

section \<open>Splitting a node\<close>

lemma splitNode_simps [simp]:
  "npath (splitNode i path n) = take i path" "nindices (splitNode i path n) = byteString (npath n ! i)"
  "nhandlers (splitNode i path n) = None" "nparamName (splitNode i path n) = []"
  "nType (splitNode i path n) = nType n" "nwildChild (splitNode i path n) = False"
  "length (nchildren (splitNode i path n)) = 1"
  by (simp_all add: splitNode_def)

lemma splitNode_ok:
  assumes wf: "wfNode n" "isStatic n" and i: "i < length (npath n)" "take i path = take i (npath n)"
  shows "wfNode (splitNode i path n)" "routes (splitNode i path n) = routes n"
    "nindices (splitNode i path n) = [npath n ! i]"
proof -
  have s: "staticShape (npath n) (nindices n) (nchildren n) (nhandlers n) (nparamName n) (nwildChild n)"
    and wfc: "\<forall>c\<in>set (nchildren n). wfNode c"
    using wf wf_static_iff [of n] by auto
  then have asc: "(of_char (npath n ! i) :: nat) < 128" "\<not> isWild (npath n ! i)"
    using i(1) by (auto simp: staticShape_def ascii_nth noWild_nth)
  then show ind: "nindices (splitNode i path n) = [npath n ! i]" by simp
  let ?m = "Node (drop i (npath n)) (nindices n) (nchildren n) (nhandlers n) (nparamName n)
              (npriority n - 1) NodeStatic (nwildChild n)"
  have ch: "nchildren (splitNode i path n) = [?m]" by (simp add: splitNode_def)
  have m: "wfNode ?m"
    using s wfc by (simp add: nodeShape_def staticShape_def)
  have rm: "routes ?m = prep (map Lit (drop i (npath n))) (below n)"
    by (subst routes_below) (simp add: below_def route_simps)
  have "drop i (npath n) = npath n ! i # drop (Suc i) (npath n)"
    using i(1) by (simp add: Cons_nth_drop_Suc)
  then have key: "keyOK (npath n ! i) ?m"
    unfolding keyOK_def rm by (auto simp: prep_def firstIs_def)
  have "staticShape (take i path) [npath n ! i] [?m] None [] False"
    using s asc key i(2) unfolding staticShape_def by simp
  then show "wfNode (splitNode i path n)"
    using wf(2) m ind ch by (subst wf_static_iff) auto
  have "map Lit (take i path) @ map Lit (drop i (npath n)) = map Lit (npath n)"
    unfolding i(2) by (metis append_take_drop_id map_append)
  then show "routes (splitNode i path n) = routes n"
    using routes_static [of "splitNode i path n"] routes_static [of n] wf(2) rm ch
    by (simp add: below_def route_simps del: routes.simps)
qed

section \<open>New nodes\<close>

lemma toks_firstIs: "toks s = Some ts \<Longrightarrow> s \<noteq> [] \<Longrightarrow> \<not> isWild (hd s) \<Longrightarrow> firstIs (hd s) ts"
  by (cases s) (auto simp: toks.simps(2) firstIs_def isWild_def split: if_splits)

lemma wf_param_leaf:
  "goodName nm \<Longrightarrow> wfNode (Node (CHR '':'' # nm) [] [] (Some h) nm pr NodeParam False)"
  "routes (Node (CHR '':'' # nm) [] [] (Some h) nm pr NodeParam False) = {([Par nm], h)}"
  by (simp_all add: nodeShape_def paramShape_def route_simps)

lemma wf_param_inner:
  assumes "goodName nm" "wfNode m" "nType m = NodeStatic" "keyOK CHR ''/'' m" "slashChild m"
  shows "wfNode (Node (CHR '':'' # nm) ''/'' [m] h nm pr NodeParam False)"
    and "routes (Node (CHR '':'' # nm) ''/'' [m] h nm pr NodeParam False) = prep [Par nm] (own h \<union> routes m)"
  using assms by (simp_all add: nodeShape_def paramShape_def route_simps)

text \<open>A childless static node that receives a parameter child.\<close>

lemma wf_wild_node:
  assumes "isStatic n" "nparamName n = []" "nindices n = []" "ascii (npath n)" "noWild (npath n)"
    and q: "wfNode q" "nType q = NodeParam"
  shows "wfNode (set_nwildChild True (set_nchildren [q] n))"
    and "below (set_nwildChild True (set_nchildren [q] n)) = own (nhandlers n) \<union> routes q"
proof -
  have "staticShape (npath n) [] [q] (nhandlers n) [] True"
    using assms by (simp add: staticShape_def)
  then show "wfNode (set_nwildChild True (set_nchildren [q] n))"
    using assms by (subst wf_static_iff) auto
qed (simp add: below_def)

abbreviation freshNode :: "u32 \<Rightarrow> 'h node" where
  "freshNode pr \<equiv> Node [] [] [] None [] pr NodeStatic False"

lemma incPriority_empty: "incPriority emptyNode = freshNode 1"
  by (simp add: emptyNode_def)

text \<open>\<open>inserted n ts h r\<close>: the call on \<open>n\<close> succeeded with a well-formed node for the one route.\<close>

definition inserted :: "'h node \<Rightarrow> tok list \<Rightarrow> 'h \<Rightarrow> gopanic + 'h node \<Rightarrow> bool" where
  "inserted n ts h r \<longleftrightarrow>
     (\<exists>m. r = Inr m \<and> wfNode m \<and> routes m = {(ts, h)} \<and> nType m = nType n \<and> slashChild m)"

lemma insertChild_par:
  assumes "parsePar path ts pre nm rest us"
    and rest: "rest \<noteq> [] \<Longrightarrow> inserted (freshNode 1) us h (insertChild (freshNode 1) rest fp h)"
  shows "\<exists>q. insertChild n path fp h =
             Inr (set_nwildChild True (set_nchildren [q] (if pre \<noteq> [] then set_npath pre n else n))) \<and>
           wfNode q \<and> nType q = NodeParam \<and> routes q = {(Par nm # us, h)}"
proof -
  have p: "path = pre @ CHR '':'' # nm @ rest" "noWild pre" "goodName nm"
    "rest = [] \<or> hd rest = CHR ''/''" "toks rest = Some us"
    using assms(1) by (auto simp: parsePar_def)
  have fw: "findWildcard path = (CHR '':'' # nm, int (length pre), True)"
    using p findWildcard_first by simp
  have nm: "nm \<noteq> []" using p(3) by (simp add: goodName_def)
  show ?thesis
  proof (cases "rest = []")
    case True
    with p(5) have "us = []" by simp
    with True show ?thesis
      using nm p(1,3) fw
      by (intro exI [of _ "Node (CHR '':'' # nm) [] [] (Some h) nm 1 NodeParam False"])
        (auto simp: insertChild.simps [of n] wf_param_leaf simp del: routes.simps wfNode.simps)
  next
    case False
    then obtain m where m: "insertChild (freshNode 1) rest fp h = Inr m" "wfNode m" "routes m = {(us, h)}"
      "nType m = NodeStatic" "slashChild m"
      using rest by (auto simp: inserted_def)
    have hd: "(nm @ rest) ! length nm = CHR ''/''"
      using False p(4) by (simp add: nth_append hd_conv_nth)
    have "firstIs CHR ''/'' us"
      using toks_firstIs [OF p(5) False] p(4) False by auto
    then have key: "keyOK CHR ''/'' m"
      using m by (simp add: keyOK_def)
    note inner = wf_param_inner [OF p(3) m(2,4) key m(5), of None 1]
    have "routes (Node (CHR '':'' # nm) ''/'' [m] None nm 1 NodeParam False) = {(Par nm # us, h)}"
      unfolding inner(2) by (simp add: m(3) route_simps)
    with inner(1) show ?thesis
      using nm p(1) fw False m(1) hd
      by (intro exI [of _ "Node (CHR '':'' # nm) ''/'' [m] None nm 1 NodeParam False"])
        (auto simp: insertChild.simps [of n] Let_def simp del: routes.simps wfNode.simps)
  qed
qed

text \<open>The boundary and leaf nodes of a catch-all.\<close>

lemma wf_catch_nodes:
  assumes "goodName nm"
  shows "wfNode (Node [] [] [Node (CHR ''/'' # CHR ''*'' # nm) [] [] (Some h) nm pr NodeCatchAll False]
                   None [] pr' NodeCatchAll True)"
    and "routes (Node [] [] [Node (CHR ''/'' # CHR ''*'' # nm) [] [] (Some h) nm pr NodeCatchAll False]
                   None [] pr' NodeCatchAll True) = {([Catch nm], h)}"
  using assms by (simp_all add: nodeShape_def catchShape_def route_simps)

lemma insertChild_catch:
  assumes "parseCatch path ts pre nm" "npath n = []"
  shows "insertChild n path fp h =
    Inr (set_nchildren [Node [] [] [Node (CHR ''/'' # CHR ''*'' # nm) [] [] (Some h) nm 1 NodeCatchAll False]
                          None [] 0 NodeCatchAll True]
          (set_nindices ''/'' (set_npath pre n)))"
proof -
  have p: "path = (pre @ ''/'') @ CHR ''*'' # nm @ []" "noWild pre" "goodName nm"
    using assms(1) by (auto simp: parseCatch_def)
  have fw: "findWildcard path = (CHR ''*'' # nm, int (length (pre @ ''/'')), True)"
    unfolding p(1) using p(2,3) by (intro findWildcard_first) auto
  have "nm \<noteq> []" using p(3) by (simp add: goodName_def)
  then show ?thesis
    using fw assms(2) by (simp add: insertChild.simps [of n] p(1) Let_def nat_diff_distrib)
qed

lemma insertChild_fresh_catch:
  assumes c: "parseCatch path ts pre nm" and ty: "ty = NodeStatic \<or> ty = NodeRoot" and asc: "ascii path"
  shows "inserted (Node [] [] [] None [] pr ty False) ts h
    (insertChild (Node [] [] [] None [] pr ty False) path fp h)"
proof -
  have p: "noWild pre" "goodName nm" "ts = map Lit pre @ [Catch nm]" "ascii pre"
    using asc c by (auto simp: parseCatch_def)
  let ?b = "Node [] [] [Node (CHR ''/'' # CHR ''*'' # nm) [] [] (Some h) nm 1 NodeCatchAll False]
              None [] 0 NodeCatchAll True"
  let ?n = "Node pre ''/'' [?b] None [] pr ty False"
  have ins: "insertChild (Node [] [] [] None [] pr ty False) path fp h = Inr ?n"
    using insertChild_catch [OF c, of "Node [] [] [] None [] pr ty False" fp h] by simp
  have b: "wfNode ?b" "routes ?b = {([Catch nm], h)}"
    by (rule wf_catch_nodes [OF p(2)])+
  then have "keyOK CHR ''/'' ?b" by (simp add: keyOK_def firstIs_def)
  then have "wfNode ?n"
    using p b(1) ty by (auto simp: nodeShape_def staticShape_def simp del: routes.simps)
  moreover have "routes ?n = {(ts, h)}"
    using b(2) p(3) ty by (auto simp: route_simps)
  ultimately show ?thesis using ins by (simp add: inserted_def slashChild_def)
qed

lemma insertChild_fresh:
  "toks path = Some ts \<Longrightarrow> ascii path \<Longrightarrow> path \<noteq> [] \<Longrightarrow> hd path \<noteq> CHR '':'' \<Longrightarrow>
     n = Node [] [] [] None [] pr ty False \<Longrightarrow> ty = NodeStatic \<or> ty = NodeRoot \<Longrightarrow>
     inserted n ts h (insertChild n path fp h)"
proof (induction path arbitrary: n ts pr ty rule: measure_induct_rule [where f = length])
  case (less path)
  note prems = less.prems
  have st: "isStatic n" using prems by auto
  from prems(1) show ?case
  proof (cases rule: toks_cases)
    case lits
    then have "insertChild n path fp h = Inr (Node path [] [] (Some h) [] pr ty False)"
      using prems by (simp add: insertChild.simps [of "Node [] [] [] None [] pr ty False"])
    moreover have "wfNode (Node path [] [] (Some h) [] pr ty False)"
      using prems lits by (auto simp: nodeShape_def staticShape_def)
    moreover have "routes (Node path [] [] (Some h) [] pr ty False) = {(ts, h)}"
      using prems(6) lits by (auto simp: route_simps)
    ultimately show ?thesis using prems by (simp add: inserted_def slashChild_def)
  next
    case (par pre nm rest us)
    then have p: "path = pre @ CHR '':'' # nm @ rest" "noWild pre" "goodName nm"
      "rest = [] \<or> hd rest = CHR ''/''" "toks rest = Some us" "ts = map Lit pre @ Par nm # us"
      by (auto simp: parsePar_def)
    then have pre: "pre \<noteq> []" "ascii pre" using prems by auto
    have "inserted (freshNode 1) us h (insertChild (freshNode 1) rest fp h)" if r: "rest \<noteq> []"
    proof (rule less.IH [OF _ p(5) _ r _ refl])
      show "length rest < length path" "ascii rest" "hd rest \<noteq> CHR '':''"
        using p(1,4) r prems(2) by auto
    qed simp
    then obtain q where q: "insertChild n path fp h =
        Inr (set_nwildChild True (set_nchildren [q] (set_npath pre n)))"
        "wfNode q" "nType q = NodeParam" "routes q = {(Par nm # us, h)}"
      using insertChild_par [OF par, of h fp n] pre(1) by auto
    let ?n = "set_nwildChild True (set_nchildren [q] (set_npath pre n))"
    have "wfNode ?n" and b: "below ?n = {(Par nm # us, h)}"
      using wf_wild_node [of "set_npath pre n" q] q prems p(2) pre st by (auto simp: route_simps)
    moreover have "routes ?n = {(ts, h)}"
      using routes_static [of ?n] st b p(6) by (auto simp: route_simps)
    ultimately show ?thesis using q(1) pre(1) by (simp add: inserted_def slashChild_def)
  next
    case (catchall pre nm)
    then show ?thesis unfolding prems(5) by (rule insertChild_fresh_catch [OF _ prems(6,2)])
  qed
qed

end
