(* ===== verification/TreeWalk.thy ===== *)
theory TreeWalk
  imports TreeInsert
begin

text \<open>
  The loop of \<^verbatim>\<open>addRoute\<close> on well-formed trees: the equation of each branch, and the theorem that a
  compatible pattern is added.
\<close>

section \<open>The branches of the loop\<close>

lemma walk_split:
  assumes "longestCommonPrefix path (npath n) < length (npath n)"
  shows "walk fp h n path = walk fp h (splitNode (longestCommonPrefix path (npath n)) path n) path"
proof -
  let ?i = "longestCommonPrefix path (npath n)"
  have "?i \<le> length path" by (rule lcp_bounds)
  then have "longestCommonPrefix path (take ?i path) = ?i"
    using lcp_prefix [of "take ?i path" "drop ?i path"] by simp
  with assms \<open>?i \<le> length path\<close> show ?thesis
    by (simp add: walk.simps [of fp h n] walk.simps [of fp h "splitNode ?i path n"])
qed

lemma walk_full:
  "nhandlers n = None \<Longrightarrow> walk fp h n (npath n) = Some (Inr (set_nhandlers (Some h) n))"
  using lcp_prefix [of "npath n" "[]"] by (simp add: walk.simps [of fp h n])

lemma walk_registered:
  "nhandlers n \<noteq> None \<Longrightarrow> walk fp h n (npath n) =
     Some (Inl (PanicMsg (''handlers are already registered for path '' @ quoted fp)))"
  using lcp_prefix [of "npath n" "[]"] by (simp add: walk.simps [of fp h n])

lemma walk_param_child:
  assumes "s \<noteq> []" "hd s = CHR ''/''" "nType n = NodeParam" "nchildren n = [m]"
  shows "walk fp h n (npath n @ s) =
    Option.bind (walk fp h (incPriority m) s) (\<lambda>r. Some (map_sum id (replaceChild n 0) r))"
  using assms by (simp add: walk.simps [of fp h n] Let_def hd_conv_nth)

lemma walk_index:
  assumes "s \<noteq> []" "nType n \<noteq> NodeParam" "indexOf (hd s) (nindices n) = Some idx"
    and "incrementChildPriority n idx = Inr (np, n2)"
  shows "walk fp h n (npath n @ s) =
    Option.bind (walk fp h (nchildren n2 ! np) s) (\<lambda>r. Some (map_sum id (replaceChild n2 np) r))"
  using assms by (simp add: walk.simps [of fp h n] Let_def hd_conv_nth)

lemma walk_grow:
  assumes "s \<noteq> []" "\<not> isWild (hd s)" "nType n \<noteq> NodeCatchAll"
    and "nType n = NodeParam \<and> nchildren n = [] \<or> nType n \<noteq> NodeParam \<and> indexOf (hd s) (nindices n) = None"
  shows "walk fp h n (npath n @ s) = Some (growChild n (hd s) s fp h)"
  using assms by (auto simp: walk.simps [of fp h n] Let_def hd_conv_nth isWild_def)

lemma walk_wild:
  assumes "s \<noteq> []" "isWild (hd s)" "isStatic n" "indexOf (hd s) (nindices n) = None"
    and "nwildChild n" "nchildren n = [q]"
  shows "walk fp h n (npath n @ s) =
    (if continuesWild s (incPriority q) then
       Option.bind (walk fp h (incPriority q) s) (\<lambda>r. Some (map_sum id (replaceChild n 0) r))
     else Some (Inl (PanicMsg (''wildcard conflict: '' @ quoted s @
            '' conflicts with existing route in path '' @ quoted fp))))"
  using assms by (auto simp: walk.simps [of fp h n] Let_def hd_conv_nth isWild_def)

lemma walk_insert:
  assumes "s \<noteq> []" "isWild (hd s)" "isStatic n" "indexOf (hd s) (nindices n) = None" "\<not> nwildChild n"
  shows "walk fp h n (npath n @ s) = Some (insertChild n s fp h)"
  using assms by (auto simp: walk.simps [of fp h n] Let_def hd_conv_nth isWild_def)

section \<open>Compatibility along the tree\<close>

definition fits :: "tok list \<Rightarrow> (tok list \<times> 'h) set \<Rightarrow> bool" where
  "fits ts R \<longleftrightarrow> (\<forall>r\<in>R. compat ts (fst r))"

lemma fits_prep: "fits (ls @ us) (prep ls R) \<longleftrightarrow> fits us R"
  by (auto simp: fits_def prep_def)

lemma fits_subset: "fits ts R \<Longrightarrow> S \<subseteq> R \<Longrightarrow> fits ts S"
  by (auto simp: fits_def)

lemma fits_child: "fits ts (below n) \<Longrightarrow> c \<in> set (nchildren n) \<Longrightarrow> fits ts (routes c)"
  by (auto simp: fits_def below_def)

lemma fits_own: "fits [] (below n) \<Longrightarrow> nhandlers n = None"
  by (cases "nhandlers n") (auto simp: fits_def below_def own_def)

lemma prep_insert_Pair: "prep ls (insert (ts, x) R) = insert (ls @ ts, x) (prep ls R)"
  by (simp add: prep_def)

text \<open>What is left of a fitting pattern after the bytes of a static node.\<close>

lemma fits_strip:
  assumes wf: "wfNode n" "isStatic n" and ts: "toks (npath n @ s) = Some ts" "fits ts (routes n)"
  obtains us where "toks s = Some us" "ts = map Lit (npath n) @ us" "fits us (below n)"
proof -
  have nw: "noWild (npath n)"
    using wf wf_static_iff [of n] by (auto simp: staticShape_def)
  have "\<not> (npath n \<noteq> [] \<and> last (npath n) = CHR ''/'' \<and> s \<noteq> [] \<and> hd s = CHR ''*'')"
  proof
    assume a: "npath n \<noteq> [] \<and> last (npath n) = CHR ''/'' \<and> s \<noteq> [] \<and> hd s = CHR ''*''"
    then obtain P nm where P: "npath n = P @ ''/''" and s: "s = CHR ''*'' # nm"
      by (metis append_butlast_last_id list.exhaust_sel)
    have "toks (P @ CHR ''/'' # s) = map_option ((@) (map Lit P)) (toks (CHR ''/'' # s))"
      using nw P by (intro toks_append_lits) auto
    then obtain nm' where t: "ts = map Lit P @ [Catch nm']"
      using ts(1) P s by (auto simp: toks.simps(2) split: if_splits)
    obtain us x where "(us, x) \<in> routes n"
      using routes_nonempty [OF wf(1)] by auto
    then obtain vs where "us = map Lit (npath n) @ vs" "(us, x) \<in> routes n"
      using routes_static [OF wf(2)] by (auto simp: in_prep)
    with ts(2) have "compat (map Lit P @ [Catch nm']) (map Lit P @ Lit (CHR ''/'') # vs)"
      by (auto simp: fits_def t P)
    then show False by simp
  qed
  then have "toks (npath n @ s) = map_option ((@) (map Lit (npath n))) (toks s)"
    using nw by (intro toks_append_lits) auto
  then obtain us where "toks s = Some us" "ts = map Lit (npath n) @ us"
    using ts(1) by (cases "toks s") auto
  with that ts(2) show thesis
    using routes_static [OF wf(2)] fits_prep by metis
qed

lemma compat_firstIs: "compat us vs \<Longrightarrow> firstIs k vs \<Longrightarrow> us = Par nm # us' \<Longrightarrow> False"
  by (cases vs) (auto simp: firstIs_def split: tok.splits)

lemma compat_Par: "compat us (Par nm # vs) \<Longrightarrow> us \<noteq> [] \<Longrightarrow> \<exists>us'. us = Par nm # us'"
  by (cases us) (auto split: if_splits tok.splits)

lemma toks_Catch_last: "toks s = Some (Catch nm # us) \<Longrightarrow> us = []"
  by (cases s) (auto simp: toks.simps(2) split: if_splits)

lemma compat_Catch:
  "toks s = Some us \<Longrightarrow> compat us [Catch nm] \<Longrightarrow> firstIs CHR ''/'' us \<Longrightarrow> False"
  by (cases us) (auto simp: firstIs_def split: tok.splits if_splits dest: toks_Catch_last)

text \<open>A pattern that fits below a node with a parameter child goes through that child.\<close>

lemma fits_param:
  assumes "nType q = NodeParam" "wfNode q" "fits us (routes q)" "toks s = Some us" "s \<noteq> []"
  obtains rest us' where "s = CHR '':'' # nparamName q @ rest" "rest = [] \<or> hd rest = CHR ''/''"
    "toks rest = Some us'" "us = Par (nparamName q) # us'" "fits us' (below q)"
proof -
  have rq: "routes q = prep [Par (nparamName q)] (below q)"
    using assms(1) by (rule routes_param)
  obtain vs x where "(vs, x) \<in> routes q"
    using routes_nonempty [OF assms(2)] by auto
  then obtain ws where "vs = Par (nparamName q) # ws" "(vs, x) \<in> routes q"
    by (auto simp: rq in_prep)
  then have c: "compat us (Par (nparamName q) # ws)"
    using assms(3) by (auto simp: fits_def)
  have "us \<noteq> []"
    using assms(4,5) by (cases s) (auto simp: toks.simps(2) split: if_splits)
  then obtain us' where us: "us = Par (nparamName q) # us'"
    using compat_Par [OF c] by blast
  have f: "fits us' (below q)"
    using assms(3) fits_prep [of "[Par (nparamName q)]" us' "below q"] by (simp add: rq us)
  from assms(4) show thesis
  proof (cases rule: toks_cases)
    case lits
    with us show ?thesis by (cases s) auto
  next
    case (par pre nm rest vs)
    then have "pre = []" "nm = nparamName q" "vs = us'"
      using us by (cases pre; simp add: parsePar_def)+
    with par us f show ?thesis
      by (auto simp: parsePar_def intro: that)
  next
    case (catchall pre nm)
    with us show ?thesis by (cases pre) (auto simp: parseCatch_def)
  qed
qed

section \<open>Adding a compatible pattern\<close>

definition extends :: "'h node \<Rightarrow> tok list \<Rightarrow> 'h \<Rightarrow> 'h node \<Rightarrow> bool" where
  "extends n ts h n' \<longleftrightarrow> wfNode n' \<and> nType n' = nType n \<and> routes n' = insert (ts, h) (routes n)"

definition adds :: "'h node \<Rightarrow> tok list \<Rightarrow> 'h \<Rightarrow> (gopanic + 'h node) option \<Rightarrow> bool" where
  "adds n ts h r \<longleftrightarrow> (\<exists>n'. r = Some (Inr n') \<and> extends n ts h n')"

text \<open>For a static or parameter node it is enough that the route is added below it.\<close>

lemma extends_below:
  assumes "nType n \<noteq> NodeCatchAll" "nType n' = nType n" "npath n' = npath n" "nparamName n' = nparamName n"
    and "wfNode n'" "below n' = insert (us, h) (below n)"
  shows "extends n (labelOf (npath n) (nparamName n) (nType n) (nwildChild n) @ us) h n'"
  using assms unfolding extends_def routes_below [of n] routes_below [of n']
  by (cases "nType n") (simp_all add: prep_insert_Pair labelOf_def)

lemma extends_static:
  assumes "isStatic n" "nType n' = nType n" "npath n' = npath n" "nparamName n' = nparamName n"
    and "wfNode n'" "below n' = insert (us, h) (below n)"
  shows "extends n (map Lit (npath n) @ us) h n'"
  using extends_below [of n n' us h] assms by (auto simp: labelOf_def)

lemma extends_param:
  assumes "nType n = NodeParam" "nType n' = nType n" "npath n' = npath n" "nparamName n' = nparamName n"
    and "wfNode n'" "below n' = insert (us, h) (below n)"
  shows "extends n (Par (nparamName n) # us) h n'"
  using extends_below [of n n' us h] assms by (auto simp: labelOf_def)

lemma extends_incPriority [simp]: "extends (incPriority n) ts h = extends n ts h"
  by (simp add: extends_def fun_eq_iff)

lemma keyOK_extends: "keyOK k c \<Longrightarrow> wfNode c \<Longrightarrow> nType c = NodeStatic \<Longrightarrow> extends c ts h c' \<Longrightarrow> firstIs k ts \<Longrightarrow> keyOK k c'"
  by (auto simp: keyOK_def extends_def)

lemma wf_set_handler:
  assumes "wfNode n" "nType n \<noteq> NodeCatchAll" "nhandlers n = None"
  shows "wfNode (set_nhandlers (Some h) n)"
    and "below (set_nhandlers (Some h) n) = insert ([], h) (below n)"
proof -
  show "wfNode (set_nhandlers (Some h) n)"
    using assms unfolding wfNode_shape [of n] wfNode_shape [of "set_nhandlers (Some h) n"]
    by (cases "nType n") (auto simp: nodeShape_def staticShape_def paramShape_def)
qed (use assms in \<open>simp add: below_def own_def\<close>)

text \<open>A new static child, for a static node or a parameter node without children.\<close>

lemma growChild_ok:
  assumes "length (nindices n) = length (nchildren n)" "(of_char c :: nat) < 128"
    and "insertChild (freshNode 1) s fp h = Inr m"
  shows "\<exists>np\<le>length (nchildren n). growChild n c s fp h =
     Inr (reorder np (length (nchildren n)) (nindices n @ [c]) (nchildren n @ [m]) n)"
proof -
  let ?n = "set_nchildren (nchildren n @ [emptyNode]) (set_nindices (nindices n @ [c]) n)"
  let ?l = "length (nchildren n)"
  have "\<exists>np\<le>?l. incrementChildPriority ?n ?l =
      Inr (np, reorder np ?l (nindices ?n) ((nchildren ?n)[?l := incPriority (nchildren ?n ! ?l)]) ?n)"
    by (rule incrementChildPriority_ok) (use assms(1) in simp_all)
  then obtain np where np: "np \<le> ?l" and inc: "incrementChildPriority ?n ?l =
      Inr (np, reorder np ?l (nindices n @ [c]) (nchildren n @ [freshNode 1]) n)"
    by (cases n) (auto simp: reorder_def incPriority_empty)
  have "growChild n c s fp h =
      Inr (replaceChild (reorder np ?l (nindices n @ [c]) (nchildren n @ [freshNode 1]) n) np m)"
    using assms inc np by (simp add: growChild_def)
  then show ?thesis
    using np by (auto simp: replaceChild_reorder)
qed

text \<open>The path of a node that shares its first byte with the pattern stays non-empty.\<close>

lemma map_sum_Inr: "map_sum id f r = Inr y \<Longrightarrow> \<exists>x. r = Inr x \<and> y = f x"
  by (cases r) auto

lemma npath_replaceChild [simp]: "npath (replaceChild n i m) = npath n"
  by (simp add: replaceChild_def)

lemma npath_incrementChild: "incrementChildPriority n i = Inr (np, n2) \<Longrightarrow> npath n2 = npath n"
  by (auto simp: incrementChildPriority_def Let_def split: if_splits prod.splits)

lemma npath_growChild: "growChild n c path fp h = Inr n' \<Longrightarrow> npath n' = npath n"
  by (auto simp: growChild_def Let_def split: sum.splits dest!: map_sum_Inr npath_incrementChild)

lemma npath_insertChild:
  assumes "insertChild n s fp h = Inr n'" "s \<noteq> []" "isWild (hd s)"
  shows "npath n' = npath n"
proof -
  obtain seg v where "findWildcard s = (hd s # seg, 0, v)"
    using assms(2,3) by (cases s; cases "wildcardSegment (tl s) True") (auto simp: findWildcard_def)
  then show ?thesis
    using assms(1) by (subst (asm) insertChild.simps) (auto simp: Let_def split: if_splits dest!: map_sum_Inr)
qed

lemma npath_bind:
  "Option.bind w (\<lambda>r. Some (map_sum id (replaceChild n i) r)) = Some (Inr n') \<Longrightarrow> npath n' = npath n"
  by (cases w) (auto dest!: map_sum_Inr)

lemma npath_walk_prefix:
  assumes "walk fp h n (npath n @ s) = Some (Inr n')" "nType n \<noteq> NodeCatchAll"
  shows "npath n' = npath n"
  using assms unfolding walk.simps [of fp h n] Let_def
  by (auto simp del: if_split simp: hd_conv_nth isWild_def lcp_prefix [of _ "[]", simplified]
      split: if_split_asm option.split_asm sum.split_asm
      dest!: npath_bind npath_growChild npath_insertChild dest: npath_incrementChild)

lemma npath_walk:
  assumes "walk fp h n path = Some (Inr n')" "nType n \<noteq> NodeCatchAll"
    and "path \<noteq> []" "npath n \<noteq> []" "hd path = hd (npath n)"
  shows "npath n' \<noteq> []"
proof -
  let ?i = "longestCommonPrefix path (npath n)"
  let ?n = "if ?i < length (npath n) then splitNode ?i path n else n"
  have i: "0 < ?i" using assms(3-5) by (cases path; cases "npath n") auto
  have n: "npath ?n = take ?i path" using lcp_take [of path "npath n"] lcp_bounds [of path "npath n"] by auto
  have "walk fp h ?n (npath ?n @ drop ?i path) = Some (Inr n')"
    using assms(1) walk_split [of path n fp h] unfolding n by auto
  moreover have "nType ?n \<noteq> NodeCatchAll" using assms(2) by simp
  ultimately have "npath n' = take ?i path" using npath_walk_prefix n by metis
  with i assms(3) show ?thesis by simp
qed

lemma slashChild_walk:
  assumes m: "wfNode m" "nType m = NodeStatic" "keyOK CHR ''/'' m" "slashChild m"
    and us: "toks s = Some us" "s \<noteq> []" "hd s = CHR ''/''" "fits us (routes m)"
    and w: "walk fp h (incPriority m) s = Some (Inr m')"
  shows "slashChild m'"
proof (cases "npath m = []")
  case False
  obtain ts x where t: "(ts, x) \<in> routes m" using routes_nonempty [OF m(1)] by auto
  then have "hd (npath m) = CHR ''/''"
    using keyOK_firstIs [OF m(3) t] False m(2) by (cases "npath m") (auto simp: routes_static in_prep firstIs_def)
  then show ?thesis
    using npath_walk [OF w] m(2) us(2,3) False by (simp add: slashChild_path)
next
  case True
  have f: "firstIs CHR ''/'' us" using toks_firstIs [OF us(1,2)] us(3) by simp
  have "nhandlers m = None"
    using m(2,3) True by (auto simp: keyOK_def routes_static below_def own_def route_simps firstIs_def split: option.splits)
  then have "nchildren m \<noteq> []"
    using m(1,2) wf_static_iff [of m] by (simp add: staticShape_def)
  moreover from True m(4) have "list_all (\<lambda>c. nType c = NodeCatchAll) (nchildren m)"
    by (simp add: slashChild_def)
  ultimately have i: "0 < length (nchildren m)" "nType (nchildren m ! 0) = NodeCatchAll"
    by (simp_all add: list_all_length)
  let ?c = "nchildren m ! 0"
  have "\<not> nwildChild m"
  proof
    assume "nwildChild m"
    with m(1,2) obtain q where "nchildren m = [q]" "nType q = NodeParam" by (metis wf_wild)
    with i(2) show False by simp
  qed
  then have c: "wfNode ?c" "nwildChild ?c"
    using wf_branching(4) [OF m(1) _ _ i(1)] i(2) m(2) by (auto simp: keyOK_def)
  then obtain nm x where "routes ?c = {([Catch nm], x)}"
    using wf_boundary [OF c(1) i(2) c(2)] by metis
  moreover have "routes ?c \<subseteq> routes m"
    using i(1) True m(2) by (auto simp: routes_static below_def route_simps)
  ultimately have "compat us [Catch nm]" using us(4) by (auto simp: fits_def)
  then show ?thesis using compat_Catch [OF us(1) _ f] by blast
qed

text \<open>The parameter child: its handler, its only child, or a new one.\<close>

lemma walk_param_leaf_adds:
  assumes q: "nhandlers q = Some x" "nchildren q = []" "nindices q = []" "npath q = CHR '':'' # nparamName q"
      "goodName (nparamName q)" "\<not> nwildChild q"
    and ty: "nType q = NodeParam"
    and rest: "rest \<noteq> []" "hd rest = CHR ''/''" and us: "toks rest = Some us" "ascii rest"
  shows "adds q (Par (nparamName q) # us) h (walk fp h q (npath q @ rest))"
proof -
  have f: "firstIs CHR ''/'' us" using toks_firstIs [OF us(1) rest(1)] rest(2) by simp
  have "inserted (freshNode 1) us h (insertChild (freshNode 1) rest fp h)"
    by (rule insertChild_fresh [OF us rest(1) _ refl]) (simp_all add: rest(2))
  then obtain m where m: "insertChild (freshNode 1) rest fp h = Inr m" "wfNode m" "routes m = {(us, h)}"
    "nType m = NodeStatic" "slashChild m" by (auto simp: inserted_def)
  have grow: "growChild q CHR ''/'' rest fp h = Inr (reorder 0 0 ''/'' [m] q)"
    using growChild_ok [of q "CHR ''/''" rest fp h m] m(1) q by simp
  let ?q = "reorder 0 0 ''/'' [m] q"
  have key: "keyOK CHR ''/'' m" using m f by (simp add: keyOK_def)
  have "wfNode ?q"
    using q key m ty by (subst wf_param_iff) (simp_all add: paramShape_def)
  moreover have "below ?q = insert (us, h) (below q)"
    using q m by (simp add: below_def own_def insert_commute)
  ultimately have "extends q (Par (nparamName q) # us) h ?q"
    using extends_param [of q ?q us h] ty by simp
  with grow show ?thesis
    using walk_grow [OF rest(1), of q fp h] rest(2) ty q(1,2) by (simp add: adds_def)
qed

lemma walk_param_adds:
  assumes q: "wfNode q" "nType q = NodeParam" and rest: "rest = [] \<or> hd rest = CHR ''/''"
    and us: "toks rest = Some us" "fits us (below q)" "ascii rest"
    and IH: "\<And>m. nchildren q = [m] \<Longrightarrow> wfNode m \<Longrightarrow> nType m = NodeStatic \<Longrightarrow> fits us (routes m) \<Longrightarrow>
        adds m us h (walk fp h (incPriority m) rest)"
  shows "adds q (Par (nparamName q) # us) h (walk fp h q (npath q @ rest))"
proof (cases "rest = []")
  case True
  then have h: "us = []" "nhandlers q = None" using us fits_own by auto
  have "extends q (Par (nparamName q) # us) h (set_nhandlers (Some h) q)"
    using extends_param [of q "set_nhandlers (Some h) q" "[]" h] wf_set_handler [OF q(1) _ h(2), of h] q(2) h(1)
    by simp
  with True walk_full [OF h(2), of fp h] show ?thesis by (simp add: adds_def)
next
  case False
  then have hd: "hd rest = CHR ''/''" using rest by simp
  have f: "firstIs CHR ''/'' us" using toks_firstIs [OF us(1) False] hd by simp
  from q show ?thesis
  proof (cases rule: wf_paramE)
    case (leaf x)
    then show ?thesis by (intro walk_param_leaf_adds [OF _ _ _ _ _ _ q(2) False hd us(1,3)])
  next
    case (inner m)
    have "fits us (routes m)" using fits_child [OF us(2), of m] inner(1) by simp
    then obtain m' where m': "walk fp h (incPriority m) rest = Some (Inr m')" "extends m us h m'"
      using IH [OF inner(1,4,3)] by (auto simp: adds_def)
    then have key: "keyOK CHR ''/'' m'" "wfNode m'" "nType m' = NodeStatic" "routes m' = insert (us, h) (routes m)"
      using keyOK_extends [OF inner(5,4,3) m'(2) f] inner(3) by (auto simp: extends_def)
    have sl: "slashChild m'"
      using slashChild_walk [OF inner(4,3,5,9) us(1) False hd _ m'(1)] fits_child [OF us(2), of m] inner(1) by simp
    let ?q = "replaceChild q 0 m'"
    have rc: "?q = set_nchildren [m'] q" using inner(1) by (simp add: replaceChild_def)
    have "wfNode ?q"
      unfolding rc using inner key sl q(2) by (subst wf_param_iff) (simp_all add: paramShape_def)
    moreover have "below ?q = insert (us, h) (below q)"
      unfolding rc using inner(1) key by (simp add: below_def)
    ultimately have "extends q (Par (nparamName q) # us) h ?q"
      using extends_param [of q ?q us h] q(2) rc by simp
    then show ?thesis
      using walk_param_child [OF False hd q(2) inner(1), of fp h] m'(1) by (simp add: adds_def)
  qed
qed

text \<open>A parameter where the node has no child yet.\<close>

lemma parse_colon:
  assumes "toks s = Some us" "s \<noteq> []" "hd s = CHR '':''"
  obtains nm rest vs where "parsePar s us [] nm rest vs"
  using assms(1)
proof (cases rule: toks_cases)
  case lits
  with assms(2,3) show ?thesis by (cases s) auto
next
  case (par pre nm rest vs)
  with assms(3) have "pre = []" by (cases pre) (auto simp: parsePar_def)
  with par that show ?thesis by blast
next
  case (catchall pre nm)
  with assms(3) show ?thesis by (cases pre) (auto simp: parseCatch_def)
qed

lemma walk_insert_adds:
  assumes wf: "wfNode n" "isStatic n" "\<not> nwildChild n"
    and us: "toks s = Some us" "fits us (below n)" "ascii s" "s \<noteq> []" "hd s = CHR '':''"
  shows "adds n (map Lit (npath n) @ us) h (walk fp h n (npath n @ s))"
proof -
  obtain nm rest vs where p: "parsePar s us [] nm rest vs" using parse_colon [OF us(1,4,5)] .
  have r: "inserted (freshNode 1) vs h (insertChild (freshNode 1) rest fp h)" if "rest \<noteq> []"
    by (rule insertChild_fresh [OF _ _ that _ refl]) (use p us(3) that in \<open>auto simp: parsePar_def\<close>)
  obtain q where q: "insertChild n s fp h = Inr (set_nwildChild True (set_nchildren [q] n))"
    "wfNode q" "nType q = NodeParam" "routes q = {(us, h)}"
    using insertChild_par [OF p r, of n] p by (auto simp: parsePar_def)
  have "nchildren n = []"
  proof (rule ccontr)
    assume "nchildren n \<noteq> []"
    then have k: "keyOK (nindices n ! 0) (nchildren n ! 0)" "wfNode (nchildren n ! 0)" "nchildren n ! 0 \<in> set (nchildren n)"
      using wf_branching(4) [OF wf, of 0] by auto
    obtain ts x where t: "(ts, x) \<in> routes (nchildren n ! 0)"
      using routes_nonempty [OF k(2)] by auto
    then have "compat us ts" using fits_child [OF us(2) k(3)] by (auto simp: fits_def)
    then show False
      using compat_firstIs keyOK_firstIs [OF k(1) t] p by (auto simp: parsePar_def)
  qed
  then have ch: "nchildren n = []" "nindices n = []" using wf_branching(1) [OF wf] by auto
  let ?n = "set_nwildChild True (set_nchildren [q] n)"
  have s: "nparamName n = []" "ascii (npath n)" "noWild (npath n)"
    using wf wf_static_iff [of n] by (auto simp: staticShape_def)
  note W = wf_wild_node [OF wf(2) s(1) ch(2) s(2,3) q(2,3)]
  have "below ?n = insert (us, h) (below n)"
    using W(2) q(4) ch by (simp add: below_def insert_commute Un_commute)
  then have "extends n (map Lit (npath n) @ us) h ?n"
    using extends_static [of n ?n us h] wf(2) W(1) by simp
  moreover have "walk fp h n (npath n @ s) = Some (insertChild n s fp h)"
    using walk_insert [OF us(4) _ wf(2) _ wf(3)] us(5) ch by simp
  ultimately show ?thesis using q(1) by (simp add: adds_def)
qed

text \<open>A literal byte without a child yet.\<close>

lemma walk_grow_adds:
  assumes wf: "wfNode n" "isStatic n" "\<not> nwildChild n"
    and us: "toks s = Some us" "ascii s" "s \<noteq> []" "\<not> isWild (hd s)" "indexOf (hd s) (nindices n) = None"
  shows "adds n (map Lit (npath n) @ us) h (walk fp h n (npath n @ s))"
proof -
  have "inserted (freshNode 1) us h (insertChild (freshNode 1) s fp h)"
    by (rule insertChild_fresh [OF us(1-3) _ refl]) (use us(4) in auto)
  then obtain m where m: "insertChild (freshNode 1) s fp h = Inr m" "wfNode m" "routes m = {(us, h)}"
    "nType m = NodeStatic" by (auto simp: inserted_def)
  have key: "keyOK (hd s) m"
    using m toks_firstIs [OF us(1,3,4)] by (simp add: keyOK_def)
  have "(of_char (hd s) :: nat) < 128" using us(2,3) by (cases s) auto
  then obtain np where np: "np \<le> length (nchildren n)" and g: "growChild n (hd s) s fp h =
      Inr (reorder np (length (nchildren n)) (nindices n @ [hd s]) (nchildren n @ [m]) n)"
    using growChild_ok [of n "hd s" s fp h m] wf_branching(1) [OF wf] m(1) by auto
  let ?n = "reorder np (length (nchildren n)) (nindices n @ [hd s]) (nchildren n @ [m]) n"
  have "hd s \<notin> set (nindices n)" using us(5) by (simp add: indexOf_None)
  note A = wf_add_child [OF wf this us(4) np m(2) key]
  have "extends n (map Lit (npath n) @ us) h ?n"
    using extends_static [of n ?n us h] wf(2) A m(3) by simp
  then show ?thesis
    using walk_grow [OF us(3,4), of n fp h] wf(2) us(5) g by (auto simp: adds_def)
qed

lemma boundary_routes:
  assumes "wfNode n" "nType n = NodeCatchAll" "nwildChild n"
  shows "\<exists>nm x. routes n = {([Catch nm], x)}"
proof (rule wf_boundary [OF assms])
  fix m x
  assume "routes n = {([Catch (nparamName m)], x)}"
  then show ?thesis by blast
qed

text \<open>A literal byte with a child: the loop goes on in it, whatever place the reordering gives it.\<close>

lemma walk_index_adds:
  assumes wf: "wfNode n" "isStatic n" "\<not> nwildChild n"
    and us: "toks s = Some us" "fits us (below n)" "s \<noteq> []" "\<not> isWild (hd s)"
    and idx: "indexOf (hd s) (nindices n) = Some i"
    and IH: "\<And>m. size m < size n \<Longrightarrow> wfNode m \<Longrightarrow> nType m = NodeStatic \<Longrightarrow> fits us (routes m) \<Longrightarrow>
        adds m us h (walk fp h (incPriority m) s)"
  shows "adds n (map Lit (npath n) @ us) h (walk fp h n (npath n @ s))"
proof -
  have i: "i < length (nchildren n)" "nindices n ! i = hd s"
    using indexOf_Some [OF idx] wf_branching(1) [OF wf] by auto
  let ?c = "nchildren n ! i"
  have c: "wfNode ?c" "keyOK (hd s) ?c" "size ?c < size n"
    using wf_branching(4) [OF wf i(1)] i(2) size_child [OF refl i(1)] by auto
  have f: "fits us (routes ?c)" using fits_child [OF us(2)] i(1) by simp
  have first: "firstIs (hd s) us" using toks_firstIs [OF us(1,3,4)] .
  have st: "nType ?c = NodeStatic"
  proof (rule ccontr)
    assume "nType ?c \<noteq> NodeStatic"
    then have b: "nType ?c = NodeCatchAll" "nwildChild ?c" using c(2) by (auto simp: keyOK_def)
    obtain nm x where "routes ?c = {([Catch nm], x)}"
      using boundary_routes [OF c(1) b] by blast
    then have "compat us [Catch nm]" using f by (simp add: fits_def)
    then show False
      using compat_Catch [OF us(1)] first boundary_key [OF c(1) b c(2)] by simp
  qed
  obtain c' where w: "walk fp h (incPriority ?c) s = Some (Inr c')" and e: "extends ?c us h c'"
    using IH [OF c(3,1) st f] by (auto simp: adds_def)
  obtain np where np: "np \<le> i" and inc: "incrementChildPriority n i =
      Inr (np, reorder np i (nindices n) ((nchildren n)[i := incPriority ?c]) n)"
    using incrementChildPriority_ok [of n i] wf_branching(1) [OF wf] i(1) by blast
  let ?n = "reorder np i (nindices n) ((nchildren n)[i := c']) n"
  have "keyOK (nindices n ! i) c'" "wfNode c'" "routes c' = insert (us, h) (routes ?c)"
    using keyOK_extends [OF c(2,1) st e first] e i(2) by (auto simp: extends_def)
  note U = wf_update_child [OF wf np i(1) this(2,1,3)]
  have "extends n (map Lit (npath n) @ us) h ?n"
    using extends_static [of n ?n us h] wf(2) U by simp
  moreover have "walk fp h n (npath n @ s) = Some (Inr ?n)"
    using walk_index [OF us(3) _ idx inc, of fp h] wf(2) w np i(1)
    by (auto simp: replaceChild_reorder)
  ultimately show ?thesis by (simp add: adds_def)
qed

text \<open>The node has a parameter child: the pattern goes through it.\<close>

lemma walk_wild_adds:
  assumes wf: "wfNode n" "isStatic n" "nwildChild n"
    and us: "toks s = Some us" "fits us (below n)" "s \<noteq> []" "ascii s"
    and IH: "\<And>m rest vs. size m < size n \<Longrightarrow> wfNode m \<Longrightarrow> nType m = NodeStatic \<Longrightarrow>
        toks rest = Some vs \<Longrightarrow> ascii rest \<Longrightarrow> fits vs (routes m) \<Longrightarrow>
        adds m vs h (walk fp h (incPriority m) rest)"
  shows "adds n (map Lit (npath n) @ us) h (walk fp h n (npath n @ s))"
proof -
  obtain q where q: "nchildren n = [q]" "nType q = NodeParam" "wfNode q" "nindices n = []"
    using wf_wild [OF wf] by metis
  have "fits us (routes q)" using fits_child [OF us(2)] q(1) by simp
  then obtain rest vs where r: "s = CHR '':'' # nparamName q @ rest" "rest = [] \<or> hd rest = CHR ''/''"
    "toks rest = Some vs" "us = Par (nparamName q) # vs" "fits vs (below q)"
    using fits_param [OF q(2,3) _ us(1,3)] by metis
  have np: "npath q = CHR '':'' # nparamName q"
    using q(3,2) by (cases rule: wf_paramE) auto
  have "adds (incPriority q) (Par (nparamName (incPriority q)) # vs) h (walk fp h (incPriority q) (npath (incPriority q) @ rest))"
  proof (rule walk_param_adds)
    show "wfNode (incPriority q)" "nType (incPriority q) = NodeParam" "rest = [] \<or> hd rest = CHR ''/''"
      "toks rest = Some vs" "fits vs (below (incPriority q))" "ascii rest"
      using q r us(4) by auto
    fix m
    assume m: "nchildren (incPriority q) = [m]" "wfNode m" "nType m = NodeStatic" "fits vs (routes m)"
    have "size m < size n"
      using m(1) size_child [of q "[m]" 0] size_child [of n "[q]" 0] q(1) by simp
    then show "adds m vs h (walk fp h (incPriority m) rest)"
      using IH m r(3) us(4) by (simp add: r(1))
  qed
  then obtain q' where w: "walk fp h (incPriority q) s = Some (Inr q')" and e: "extends q us h q'"
    using np by (auto simp: adds_def r(1,4))
  have cw: "continuesWild s (incPriority q)"
    using r(1,2) np q(2) by (cases rest) (auto simp: continuesWild_def nth_append)
  let ?n = "replaceChild n 0 q'"
  have rc: "?n = set_nchildren [q'] n" using q(1) by (simp add: replaceChild_def)
  have q': "wfNode q'" "nType q' = NodeParam" "routes q' = insert (us, h) (routes q)"
    using e q(2) by (auto simp: extends_def)
  have "wfNode ?n"
    unfolding rc using wf wf_static_iff [of n] wf_static_iff [of "set_nchildren [q'] n"] q'
    by (auto simp: staticShape_def)
  moreover have "below ?n = insert (us, h) (below n)"
    unfolding rc using q(1) q'(3) by (simp add: below_def)
  ultimately have "extends n (map Lit (npath n) @ us) h ?n"
    using extends_static [of n ?n us h] wf(2) rc by simp
  moreover have "walk fp h n (npath n @ s) = Some (Inr ?n)"
    using walk_wild [OF us(3) _ wf(2) _ wf(3) q(1), of fp h] w cw q(4) by (simp add: r(1))
  ultimately show ?thesis by (simp add: adds_def)
qed

lemma walk_full_adds:
  assumes "wfNode n" "isStatic n" "fits [] (below n)"
  shows "adds n (map Lit (npath n)) h (walk fp h n (npath n))"
proof -
  have h: "nhandlers n = None" using assms(3) by (rule fits_own)
  have "nType n \<noteq> NodeCatchAll" using assms(2) by auto
  then have "extends n (map Lit (npath n)) h (set_nhandlers (Some h) n)"
    using extends_static [of n "set_nhandlers (Some h) n" "[]" h] wf_set_handler [OF assms(1) _ h, of h] assms(2)
    by simp
  with walk_full [OF h, of fp h] show ?thesis by (simp add: adds_def)
qed

text \<open>The loop on a node whose bytes are a prefix of the path, and then on any static node.\<close>

lemma walk_adds_prefix:
  assumes wf: "wfNode n" "isStatic n" and ts: "toks (npath n @ s) = Some ts" "fits ts (routes n)" "ascii s"
    and IH: "\<And>m rest vs. size m < size n \<Longrightarrow> wfNode m \<Longrightarrow> nType m = NodeStatic \<Longrightarrow>
        toks rest = Some vs \<Longrightarrow> ascii rest \<Longrightarrow> fits vs (routes m) \<Longrightarrow>
        adds m vs h (walk fp h (incPriority m) rest)"
  shows "adds n ts h (walk fp h n (npath n @ s))"
proof -
  obtain us where us: "toks s = Some us" "ts = map Lit (npath n) @ us" "fits us (below n)"
    using fits_strip [OF wf ts(1,2)] .
  have star: "s \<noteq> [] \<Longrightarrow> hd s \<noteq> CHR ''*''"
    using us(1) by (cases s) (auto simp: toks_star)
  consider (full) "s = []" | (wild) "s \<noteq> []" "nwildChild n"
    | (par) "s \<noteq> []" "\<not> nwildChild n" "hd s = CHR '':''"
    | (lit) "s \<noteq> []" "\<not> nwildChild n" "\<not> isWild (hd s)"
    using star by (auto simp: isWild_def)
  then show ?thesis
  proof cases
    case full
    with us have "us = []" by simp
    with full us walk_full_adds [OF wf] show ?thesis by simp
  next
    case wild
    show ?thesis
      unfolding us(2) by (rule walk_wild_adds [OF wf wild(2) us(1,3) wild(1) ts(3)]) (rule IH)
  next
    case par
    then show ?thesis using walk_insert_adds [OF wf par(2) us(1,3) ts(3)] us(2) by simp
  next
    case lit
    show ?thesis
    proof (cases "indexOf (hd s) (nindices n)")
      case None
      then show ?thesis using walk_grow_adds [OF wf lit(2) us(1) ts(3) lit(1,3)] us(2) by simp
    next
      case (Some i)
      show ?thesis
        unfolding us(2)
        by (rule walk_index_adds [OF wf lit(2) us(1,3) lit(1,3) Some]) (rule IH [OF _ _ _ us(1) ts(3)])
    qed
  qed
qed

lemma size_incPriority [simp]: "size (incPriority n) = size n"
  by (cases n) simp

text \<open>The pattern leaves the node's path: the node is split where it does.\<close>

lemma walk_rest_adds:
  assumes wf: "wfNode n" "isStatic n" and f: "fits ts (routes n)"
    and s: "toks (npath n @ c # s) = Some ts" "ascii (c # s)" and none: "indexOf c (nindices n) = None" "\<not> nwildChild n"
  shows "adds n ts h (walk fp h n (npath n @ c # s))"
proof -
  obtain us where us: "toks (c # s) = Some us" "ts = map Lit (npath n) @ us" "fits us (below n)"
    using fits_strip [OF wf s(1) f] by metis
  show ?thesis
  proof (cases "isWild c")
    case True
    then have "c = CHR '':''" using us(1) toks_star by (auto simp: isWild_def)
    then show ?thesis
      using walk_insert_adds [OF wf _ us(1,3) s(2)] us(2) none(2) by simp
  next
    case False
    then show ?thesis
      using walk_grow_adds [OF wf _ us(1) s(2)] none us(2) by simp
  qed
qed

lemma walk_split_adds:
  assumes wf: "wfNode n" "isStatic n" and ts: "toks path = Some ts" "ascii path" "fits ts (routes n)"
    and i: "i = longestCommonPrefix path (npath n)" "i < length (npath n)"
  shows "adds n ts h (walk fp h n path)"
proof -
  let ?n = "splitNode i path n"
  have tk: "take i path = take i (npath n)" unfolding i(1) by (rule lcp_take)
  note S = splitNode_ok [OF wf i(2) tk]
  have "take i path @ drop i path = npath ?n @ drop i path" by simp
  then have path: "path = npath ?n @ drop i path" by simp
  have st: "isStatic ?n" using wf(2) by simp
  have f: "fits ts (routes ?n)" using ts(3) S(2) by simp
  have "adds ?n ts h (walk fp h ?n (npath ?n @ drop i path))"
  proof (cases "drop i path")
    case Nil
    show ?thesis
      using fits_strip [OF S(1) st, of "[]" ts] walk_full_adds [OF S(1) st] ts(1) f path Nil
      by (metis append_Nil2 option.inject toks.simps(1))
  next
    case (Cons c s)
    have lt: "i < length path" using Cons by (metis drop_all linorder_not_le list.distinct(1))
    then have "c \<noteq> npath n ! i"
      using lcp_differs [of path "npath n"] i Cons by (metis Cons_nth_drop_Suc list.inject)
    then have none: "indexOf c (nindices ?n) = None" using S(3) by simp
    have "toks (npath ?n @ c # s) = Some ts" "ascii (c # s)"
      using path ts(1,2) ascii_drop [of path i] Cons by simp_all
    then show ?thesis
      unfolding Cons by (rule walk_rest_adds [OF S(1) st f _ _ none]) simp
  qed
  moreover have "walk fp h n path = walk fp h ?n path" unfolding i(1) by (rule walk_split [OF i(2) [unfolded i(1)]])
  ultimately show ?thesis
    using path S(2) by (simp add: adds_def extends_def)
qed

theorem walk_adds:
  "wfNode n \<Longrightarrow> isStatic n \<Longrightarrow> toks path = Some ts \<Longrightarrow> ascii path \<Longrightarrow> fits ts (routes n) \<Longrightarrow>
     adds n ts h (walk fp h n path)"
proof (induction n arbitrary: path ts rule: measure_induct_rule [where f = size])
  case (less n)
  have IH: "adds m vs h (walk fp h (incPriority m) rest)"
    if "size m < size n" "wfNode m" "nType m = NodeStatic" "toks rest = Some vs" "ascii rest" "fits vs (routes m)"
    for m rest vs
    using less.IH [of "incPriority m" rest vs] that by (simp add: adds_def)
  let ?i = "longestCommonPrefix path (npath n)"
  show ?case
  proof (cases "?i < length (npath n)")
    case False
    then have "npath n = take ?i path"
      using lcp_take [of path "npath n"] lcp_bounds(2) [of path "npath n"] by simp
    then obtain s where s: "path = npath n @ s" by (metis append_take_drop_id)
    show ?thesis
      unfolding s by (rule walk_adds_prefix) (use less.prems IH s in auto)
  next
    case True
    show ?thesis by (rule walk_split_adds [OF less.prems refl True])
  qed
qed

section \<open>A pattern that is already registered\<close>

definition refuses :: "(gopanic + 'h node) option \<Rightarrow> bool" where
  "refuses r \<longleftrightarrow> (\<exists>msg. r = Some (Inl (PanicMsg msg)))"

lemma refuses_bind [simp]:
  "refuses r \<Longrightarrow> refuses (Option.bind r (\<lambda>x. Some (map_sum id f x)))"
  by (auto simp: refuses_def)

lemma toks_Lit_inv:
  assumes "toks path = Some (Lit c # us)"
  shows "\<exists>s. path = c # s \<and> toks s = Some us \<and> \<not> isWild c"
  using assms by (cases path) (auto simp: toks.simps(2) isWild_def split: if_splits)

lemma toks_lits_inv:
  "toks path = Some (map Lit p @ us) \<Longrightarrow> \<exists>s. path = p @ s \<and> toks s = Some us"
proof (induction p arbitrary: path)
  case (Cons c p)
  then obtain s where "path = c # s" "toks s = Some (map Lit p @ us)"
    using toks_Lit_inv by fastforce
  with Cons.IH show ?case by auto
qed simp

lemma toks_Nil_inv: "toks s = Some [] \<Longrightarrow> s = []"
  by (cases s) (auto simp: toks.simps(2) split: if_splits)

lemma toks_Par_inv:
  assumes "toks s = Some (Par nm # us)"
  shows "\<exists>rest. s = CHR '':'' # nm @ rest \<and> (rest = [] \<or> hd rest = CHR ''/'') \<and> toks rest = Some us"
  using assms
proof (cases rule: toks_cases)
  case lits
  then show ?thesis by (cases s) auto
next
  case (par pre nm' rest vs)
  then show ?thesis by (cases pre) (auto simp: parsePar_def)
next
  case (catchall pre nm')
  then show ?thesis by (cases pre) (auto simp: parseCatch_def)
qed

lemma toks_Catch_inv:
  "toks s = Some (Catch nm # us) \<Longrightarrow> s = CHR ''/'' # CHR ''*'' # nm \<and> us = []"
  by (cases s) (auto simp: toks.simps(2) neq_Nil_conv split: if_splits)

lemma firstIs_toks: "toks s = Some us \<Longrightarrow> firstIs k us \<Longrightarrow> s \<noteq> [] \<and> hd s = k"
proof (cases us)
  case (Cons t vs)
  then show "toks s = Some us \<Longrightarrow> firstIs k us \<Longrightarrow> s \<noteq> [] \<and> hd s = k"
    by (cases t) (auto simp: firstIs_def dest: toks_Lit_inv toks_Catch_inv)
qed (simp add: firstIs_def)

text \<open>Inside a boundary node every path is a conflict.\<close>

lemma walk_boundary:
  assumes "wfNode n" "nType n = NodeCatchAll" "nwildChild n" "s \<noteq> []"
  shows "refuses (walk fp h n s)"
proof (rule wf_boundary [OF assms(1-3)])
  fix m x
  assume m: "nchildren n = [m]" "nType m = NodeCatchAll" "npath n = []" "nindices n = []"
  have "longestCommonPrefix s [] = 0" using lcp_bounds(2) [of s "[]"] by simp
  then show ?thesis
    using assms m by (simp add: walk.simps [of fp h n] refuses_def continuesWild_def Let_def)
qed

lemma walk_dup_param:
  assumes q: "wfNode q" "nType q = NodeParam" and us: "toks rest = Some us" "(us, x) \<in> below q"
    and rest: "rest = [] \<or> hd rest = CHR ''/''"
    and IH: "\<And>m. size m < size q \<Longrightarrow> wfNode m \<Longrightarrow> nType m = NodeStatic \<Longrightarrow> (us, x) \<in> routes m \<Longrightarrow>
        refuses (walk fp h (incPriority m) rest)"
  shows "refuses (walk fp h (incPriority q) (npath (incPriority q) @ rest))"
  using us(2)
proof (cases rule: below_cases)
  case own
  then have "rest = []" using us(1) toks_Nil_inv by simp
  with own show ?thesis using walk_registered [of "incPriority q" fp h] by (simp add: refuses_def)
next
  case (child i)
  from q obtain m where m: "nchildren q = [m]" "nType m = NodeStatic" "wfNode m" "keyOK CHR ''/'' m"
    by (cases rule: wf_paramE) (use child in auto)
  then have r: "(us, x) \<in> routes m" "size m < size q"
    using child size_child [OF m(1), of 0] by auto
  then have "rest \<noteq> []" "hd rest = CHR ''/''"
    using firstIs_toks [OF us(1) keyOK_firstIs [OF m(4)]] by auto
  then show ?thesis
    using walk_param_child [of rest "incPriority q" m fp h] IH [OF r(2) m(3,2) r(1)] m(1) q(2) by simp
qed

lemma walk_dup_branch:
  fixes n :: "'h node"
  assumes wf: "wfNode n" "isStatic n" "\<not> nwildChild n" and us: "toks s = Some us"
    and child: "i < length (nchildren n)" "(us, x) \<in> routes (nchildren n ! i)"
    and IH: "\<And>m :: 'h node. size m < size n \<Longrightarrow> wfNode m \<Longrightarrow> nType m = NodeStatic \<Longrightarrow>
        (us, x) \<in> routes m \<Longrightarrow> refuses (walk fp h (incPriority m) s)"
  shows "refuses (walk fp h n (npath n @ s))"
proof -
  let ?c = "nchildren n ! i"
  note B = wf_branching [OF wf]
  have c: "keyOK (nindices n ! i) ?c" "wfNode ?c" using B(4) [OF child(1)] by auto
  have "firstIs (nindices n ! i) us" using keyOK_firstIs [OF c(1) child(2)] .
  then have s: "s \<noteq> []" "hd s = nindices n ! i" using firstIs_toks [OF us] by auto
  then have idx: "indexOf (hd s) (nindices n) = Some i"
    using indexOf_distinct [OF B(2)] B(1) child(1) by auto
  obtain np where np: "np \<le> i" and inc: "incrementChildPriority n i =
      Inr (np, reorder np i (nindices n) ((nchildren n)[i := incPriority ?c]) n)"
    using incrementChildPriority_ok [of n i] B(1) child(1) by blast
  have "refuses (walk fp h (incPriority ?c) s)"
  proof (cases "nType ?c = NodeStatic")
    case True
    then show ?thesis using IH [OF size_child [OF refl child(1)] c(2) True child(2)] by simp
  next
    case False
    then have "nType ?c = NodeCatchAll" "nwildChild ?c" using c(1) by (auto simp: keyOK_def)
    then show ?thesis using walk_boundary [of "incPriority ?c" s fp h] c(2) s(1) by simp
  qed
  then show ?thesis
    using walk_index [OF s(1) _ idx inc, of fp h] wf(2,3) np child(1) by auto
qed

lemma walk_dup_wild:
  fixes n :: "'h node"
  assumes wf: "wfNode n" "isStatic n" "nwildChild n" and us: "toks s = Some us" "(us, x) \<in> below n"
    and own: "\<not> (us = [] \<and> nhandlers n = Some x)"
    and IH: "\<And>(m :: 'h node) rest vs. size m < size n \<Longrightarrow> wfNode m \<Longrightarrow> nType m = NodeStatic \<Longrightarrow>
        toks rest = Some vs \<Longrightarrow> (vs, x) \<in> routes m \<Longrightarrow> refuses (walk fp h (incPriority m) rest)"
  shows "refuses (walk fp h n (npath n @ s))"
proof -
  obtain q where q: "nchildren n = [q]" "nType q = NodeParam" "wfNode q" "nindices n = []"
    using wf_wild [OF wf] by metis
  have "(us, x) \<in> routes q"
    using us(2) own by (cases rule: below_cases) (use q(1) in auto)
  then obtain vs where vs: "us = Par (nparamName q) # vs" "(vs, x) \<in> below q"
    using routes_param [OF q(2)] by (auto simp: in_prep)
  obtain rest where r: "s = CHR '':'' # nparamName q @ rest" "rest = [] \<or> hd rest = CHR ''/''" "toks rest = Some vs"
    using toks_Par_inv us(1) vs(1) by blast
  have np: "npath q = CHR '':'' # nparamName q"
    using q(3,2) by (cases rule: wf_paramE) auto
  have cw: "continuesWild s (incPriority q)"
    using r(1,2) np q(2) by (cases rest) (auto simp: continuesWild_def nth_append)
  have sz: "size q < size n" using size_child [of n "nchildren n" 0] q(1) by simp
  have "refuses (walk fp h (incPriority q) (npath (incPriority q) @ rest))"
    by (rule walk_dup_param [OF q(3,2) r(3) vs(2) r(2)]) (rule IH [OF less_trans [OF _ sz] _ _ r(3)])
  then show ?thesis
    using walk_wild [of s n, OF _ _ wf(2) _ wf(3) q(1), of fp h] cw q(4) np by (simp add: r(1))
qed

lemma walk_dup_prefix:
  fixes n :: "'h node"
  assumes wf: "wfNode n" "isStatic n" and us: "toks s = Some us" "(us, x) \<in> below n"
    and IH: "\<And>(m :: 'h node) rest vs. size m < size n \<Longrightarrow> wfNode m \<Longrightarrow> nType m = NodeStatic \<Longrightarrow>
        toks rest = Some vs \<Longrightarrow> (vs, x) \<in> routes m \<Longrightarrow> refuses (walk fp h (incPriority m) rest)"
  shows "refuses (walk fp h n (npath n @ s))"
proof (cases "us = [] \<and> nhandlers n = Some x")
  case True
  then have "s = []" using us(1) toks_Nil_inv by simp
  with True show ?thesis using walk_registered [of n fp h] by (simp add: refuses_def)
next
  case own: False
  show ?thesis
  proof (cases "nwildChild n")
    case True
    show ?thesis by (rule walk_dup_wild [OF wf True us own IH])
  next
    case False
    from us(2) show ?thesis
    proof (cases rule: below_cases)
      case (child i)
      then show ?thesis by (rule walk_dup_branch [OF wf False us(1)]) (rule IH [OF _ _ _ us(1)])
    qed (use own in simp)
  qed
qed

theorem walk_dup:
  "wfNode n \<Longrightarrow> isStatic n \<Longrightarrow> toks path = Some ts \<Longrightarrow> (ts, x) \<in> routes n \<Longrightarrow> refuses (walk fp h n path)"
proof (induction n arbitrary: path ts rule: measure_induct_rule [where f = size])
  case (less n)
  obtain us where us: "ts = map Lit (npath n) @ us" "(us, x) \<in> below n"
    using less.prems(4) routes_static [OF less.prems(2)] by (auto simp: in_prep)
  obtain s where s: "path = npath n @ s" "toks s = Some us"
    using toks_lits_inv less.prems(3) us(1) by blast
  show ?case
    unfolding s(1)
  proof (rule walk_dup_prefix [OF less.prems(1,2) s(2) us(2)])
    fix m rest vs
    assume "size m < size n" "wfNode m" "nType m = NodeStatic" "toks rest = Some vs" "(vs, x) \<in> routes m"
    then show "refuses (walk fp h (incPriority m) rest)"
      by (intro less.IH [of "incPriority m" rest vs]) simp_all
  qed
qed

section \<open>\<open>addRoute\<close>\<close>

text \<open>A root is well-formed when it is an empty node or a well-formed node with a route.\<close>

definition isEmptyRoot :: "'h node \<Rightarrow> bool" where
  "isEmptyRoot n \<longleftrightarrow> (\<exists>pr. n = freshNode pr)"

definition rootOK :: "'h node \<Rightarrow> bool" where
  "rootOK n \<longleftrightarrow> isEmptyRoot n \<or> nType n = NodeRoot \<and> wfNode n \<and> npath n \<noteq> [] \<or>
     nType n = NodeRoot \<and> wfNode n \<and> nchildren n \<noteq> []"

definition rootRoutes :: "'h node \<Rightarrow> (tok list \<times> 'h) set" where
  "rootRoutes n = (if isEmptyRoot n then {} else routes n)"

lemma rootOK_empty: "rootOK emptyNode" "rootRoutes emptyNode = {}"
  by (auto simp: rootOK_def rootRoutes_def isEmptyRoot_def emptyNode_def)

lemma isEmptyRoot_type: "isEmptyRoot n \<Longrightarrow> nType n = NodeStatic"
  by (auto simp: isEmptyRoot_def)

lemma wf_set_nType:
  "wfNode n \<Longrightarrow> isStatic n \<Longrightarrow> wfNode (set_nType NodeRoot n) \<and> routes (set_nType NodeRoot n) = routes n"
  using wf_static_iff [of n] wf_static_iff [of "set_nType NodeRoot n"] routes_static [of n]
    routes_static [of "set_nType NodeRoot n"]
  by (simp add: below_def)

lemma routes_rootless:
  assumes "npath n = []" "nchildren n = []" "isStatic n" "(ts, x) \<in> routes n"
  shows "ts = []"
  using assms by (auto simp: routes_static below_def own_def prep_def split: option.splits)

lemma rootOK_intro:
  assumes "nType n = NodeRoot" "wfNode n" "(ts, x) \<in> routes n" "ts \<noteq> []"
  shows "rootOK n"
  using assms routes_rootless [of n ts x] by (auto simp: rootOK_def)

lemma addRoute_walk:
  "\<not> (npath n = [] \<and> nchildren n = []) \<Longrightarrow> addRoute n path h = walk path h (incPriority n) path"
  by (auto simp: addRoute_def)

theorem addRoute_adds:
  assumes n: "rootOK n" and path: "toks path = Some ts" "ascii path" "path \<noteq> []" "hd path \<noteq> CHR '':''"
    and fits: "fits ts (rootRoutes n)"
  shows "\<exists>n'. addRoute n path h = Some (Inr n') \<and> rootOK n' \<and> nType n' = NodeRoot \<and>
     rootRoutes n' = insert (ts, h) (rootRoutes n)"
proof -
  have ts: "ts \<noteq> []" using path(1,3) toks_Nil_inv by auto
  have ne: "\<not> isEmptyRoot m" if "nType m = NodeRoot" for m :: "'a node"
    using isEmptyRoot_type [of m] that by auto
  show ?thesis
  proof (cases "isEmptyRoot n")
    case True
    then obtain pr where pr: "n = freshNode pr" by (auto simp: isEmptyRoot_def)
    have "inserted (freshNode (pr + 1)) ts h (insertChild (freshNode (pr + 1)) path path h)"
      by (rule insertChild_fresh [OF path refl]) simp
    then obtain m where m: "insertChild (freshNode (pr + 1)) path path h = Inr m" "wfNode m"
      "routes m = {(ts, h)}" "nType m = NodeStatic"
      by (auto simp: inserted_def)
    have "wfNode (set_nType NodeRoot m)" "routes (set_nType NodeRoot m) = {(ts, h)}"
      using wf_set_nType [of m] m by auto
    then show ?thesis
      using rootOK_intro [of "set_nType NodeRoot m" ts h] ne [of "set_nType NodeRoot m"] ts True m(1)
      by (simp add: addRoute_def pr rootRoutes_def)
  next
    case False
    then have r: "nType n = NodeRoot" "wfNode n" "\<not> (npath n = [] \<and> nchildren n = [])"
      using n by (auto simp: rootOK_def)
    have "adds (incPriority n) ts h (walk path h (incPriority n) path)"
      using r path fits False by (intro walk_adds) (simp_all add: rootRoutes_def)
    then obtain n' where n': "walk path h (incPriority n) path = Some (Inr n')" "wfNode n'"
      "nType n' = NodeRoot" "routes n' = insert (ts, h) (routes n)"
      using r by (auto simp: adds_def extends_def)
    then show ?thesis
      using rootOK_intro [of n' ts h] ne [of n'] ts False addRoute_walk [OF r(3)] by (auto simp: rootRoutes_def)
  qed
qed

theorem addRoute_dup:
  assumes "rootOK n" "toks path = Some ts" "(ts, x) \<in> rootRoutes n"
  shows "\<exists>msg. addRoute n path h = Some (Inl (PanicMsg msg))"
proof -
  have r: "nType n = NodeRoot" "wfNode n" "\<not> (npath n = [] \<and> nchildren n = [])" "(ts, x) \<in> routes n"
    using assms by (auto simp: rootOK_def rootRoutes_def split: if_splits)
  have "refuses (walk path h (incPriority n) path)"
    using r assms(2) by (intro walk_dup) simp_all
  then show ?thesis using addRoute_walk [OF r(3)] by (simp add: refuses_def)
qed

section \<open>Priorities count registrations\<close>

lemma npriority_simps [simp]:
  "npriority (set_nchildren v n) = npriority n" "npriority (set_nindices u n) = npriority n"
  "npriority (set_npath u n) = npriority n" "npriority (set_nhandlers g n) = npriority n"
  "npriority (set_nwildChild b n) = npriority n" "npriority (set_nType t n) = npriority n"
  by (cases n; simp)+

lemma npriority_replaceChild [simp]: "npriority (replaceChild n i m) = npriority n"
  by (simp add: replaceChild_def)

lemma npriority_incrementChild: "incrementChildPriority n i = Inr (np, n2) \<Longrightarrow> npriority n2 = npriority n"
  by (auto simp: incrementChildPriority_def Let_def split: if_splits prod.splits)

lemma npriority_insertChild: "insertChild n path fp h = Inr n' \<Longrightarrow> npriority n' = npriority n"
  by (subst (asm) insertChild.simps)
    (auto simp: Let_def split: if_splits prod.splits dest!: map_sum_Inr)

lemma npriority_growChild: "growChild n c path fp h = Inr n' \<Longrightarrow> npriority n' = npriority n"
  by (auto simp: growChild_def Let_def split: sum.splits dest!: map_sum_Inr npriority_incrementChild)

lemma npriority_splitNode [simp]: "npriority (splitNode i path n) = npriority n"
  by (simp add: splitNode_def)

lemma bind_replaceChild:
  "Option.bind w (\<lambda>r. Some (map_sum id (replaceChild n i) r)) = Some (Inr n') \<Longrightarrow> npriority n' = npriority n"
  by (cases w) (auto dest!: map_sum_Inr)

lemma npriority_walk:
  assumes "walk fp h n path = Some (Inr n')"
  shows "npriority n' = npriority n"
proof -
  let ?i = "longestCommonPrefix path (npath n)"
  let ?n = "if ?i < length (npath n) then splitNode ?i path n else n"
  have "npriority n' = npriority ?n"
    using assms unfolding walk.simps [of fp h n path] Let_def
    by (auto simp del: if_split split: if_split_asm option.split_asm sum.split_asm
        dest!: bind_replaceChild npriority_growChild npriority_insertChild
        dest: npriority_incrementChild)
  then show ?thesis by simp
qed

text \<open>Every registration that returns raises the priority of the root by one.\<close>

lemma npriority_addRoute: "addRoute n path h = Some (Inr n') \<Longrightarrow> npriority n' = npriority n + 1"
  by (auto simp: addRoute_def Let_def split: if_splits
      dest!: npriority_walk map_sum_Inr npriority_insertChild)

end
