(* ===== verification/TreeTable.thy ===== *)
theory TreeTable
  imports TreeWalk "HOL-Library.Multiset"
begin

text \<open>
  The routing table as its client sees it.  \<open>route_table\<close> is the interface: registering a compatible
  pattern succeeds and adds it to what the table denotes, registering a pattern twice panics, a
  lookup returns what the denotation says.  The interface's consequences for whole tables (a
  conflict-free table registers in any order, and lookup is a linear scan for a matching pattern)
  are proved once in it; the interpretation on \<^verbatim>\<open>addRoute\<close> and \<^verbatim>\<open>getValue\<close> discharges its laws with
  the invariant of the radix tree.  The last section holds what the tree does outside of these laws.
\<close>

section \<open>Tables and their specification\<close>

definition readable :: "string \<Rightarrow> bool" where
  "readable p \<longleftrightarrow> p \<noteq> [] \<and> hd p = CHR ''/'' \<and> ascii p \<and> toks p \<noteq> None"

definition pat :: "string \<Rightarrow> tok list" where
  "pat p = (case toks p of Some ts \<Rightarrow> ts | None \<Rightarrow> [])"

text \<open>A table whose patterns are readable and pairwise compatible.\<close>

definition conflictFree :: "(string \<times> 'h) list \<Rightarrow> bool" where
  "conflictFree tab \<longleftrightarrow>
     (\<forall>r\<in>set tab. readable (fst r)) \<and> sorted_wrt (\<lambda>r q. compat (pat (fst r)) (pat (fst q))) tab"

text \<open>The reference lookup: a linear scan for the first pattern that matches.\<close>

fun scan :: "(string \<times> 'h) list \<Rightarrow> string \<Rightarrow> ('h \<times> params) option" where
  "scan [] s = None"
| "scan (r # tab) s =
     (case matches (pat (fst r)) s of
        Some ps \<Rightarrow> Some (snd r, ps)
      | None \<Rightarrow> scan tab s)"

definition denotes :: "(string \<times> 'h) list \<Rightarrow> (tok list \<times> 'h) set" where
  "denotes tab = (\<lambda>r. (pat (fst r), snd r)) ` set tab"

text \<open>Registering the entries of a table one after the other.\<close>

fun registerAll ::
    "('t \<Rightarrow> string \<Rightarrow> 'h \<Rightarrow> (gopanic + 't) option) \<Rightarrow> 't \<Rightarrow> (string \<times> 'h) list \<Rightarrow> (gopanic + 't) option" where
  "registerAll reg t [] = Some (Inr t)"
| "registerAll reg t (r # tab) =
     (case reg t (fst r) (snd r) of
        None \<Rightarrow> None
      | Some (Inl e) \<Rightarrow> Some (Inl e)
      | Some (Inr t') \<Rightarrow> registerAll reg t' tab)"

lemma readable_toks: "readable p \<Longrightarrow> toks p = Some (pat p)"
  by (auto simp: readable_def pat_def)

lemma conflictFree_Cons [simp]:
  "conflictFree (r # tab) \<longleftrightarrow>
     readable (fst r) \<and> (\<forall>q\<in>set tab. compat (pat (fst r)) (pat (fst q))) \<and> conflictFree tab"
  by (auto simp: conflictFree_def)

lemma conflictFree_Nil [simp]: "conflictFree []"
  by (simp add: conflictFree_def)

lemma denotes_simps [simp]:
  "denotes [] = {}"
  "denotes (r # tab) = insert (pat (fst r), snd r) (denotes tab)"
  by (simp_all add: denotes_def)

lemma sorted_wrt_sym_irrefl:
  assumes "\<And>x y. P x y = P y x" "\<And>x. \<not> P x x"
  shows "sorted_wrt P xs \<longleftrightarrow> distinct xs \<and> (\<forall>x\<in>set xs. \<forall>y\<in>set xs. x \<noteq> y \<longrightarrow> P x y)"
proof (induction xs)
  case (Cons a xs)
  then show ?case using assms(2) by (auto simp: assms(1) [of _ a])
qed simp

lemma conflictFree_iff:
  "conflictFree tab \<longleftrightarrow>
     (\<forall>r\<in>set tab. readable (fst r)) \<and> distinct tab \<and>
     (\<forall>r\<in>set tab. \<forall>q\<in>set tab. r \<noteq> q \<longrightarrow> compat (pat (fst r)) (pat (fst q)))"
  unfolding conflictFree_def
  by (subst sorted_wrt_sym_irrefl) (rule compat_sym compat_irrefl refl)+

lemma conflictFree_cong: "mset tab = mset tab' \<Longrightarrow> conflictFree tab \<Longrightarrow> conflictFree tab'"
  unfolding conflictFree_iff by (metis mset_eq_imp_distinct_iff set_mset_mset)

lemma denotes_cong: "mset tab = mset tab' \<Longrightarrow> denotes tab = denotes tab'"
  by (metis denotes_def set_mset_mset)

text \<open>The scan agrees with the set of routes.\<close>

lemma scan_Some: "scan tab s = Some (x, qs) \<Longrightarrow> \<exists>ts. (ts, x) \<in> denotes tab \<and> matches ts s = Some qs"
  by (induction tab) (auto split: option.splits)

lemma scan_None: "scan tab s = None \<Longrightarrow> (ts, x) \<in> denotes tab \<Longrightarrow> matches ts s = None"
  by (induction tab) (auto split: option.split_asm)

lemma agrees_scan:
  assumes "agrees (denotes tab) s [] res"
  shows "rhandlers res = map_option fst (scan tab s) \<and> (\<forall>x qs. scan tab s = Some (x, qs) \<longrightarrow> rparams res = qs)"
proof (cases "scan tab s")
  case None
  have "rhandlers res \<noteq> Some x" for x
    using assms scan_None [OF None] unfolding agrees_def by (metis option.distinct(1))
  then have "rhandlers res = None" by (cases "rhandlers res") auto
  with None show ?thesis by simp
next
  case (Some a)
  then obtain x qs where a: "scan tab s = Some (x, qs)" by (cases a) auto
  obtain ts where "(ts, x) \<in> denotes tab" "matches ts s = Some qs"
    using scan_Some [OF a] by blast
  then have "rhandlers res = Some x \<and> rparams res = [] @ qs"
    using assms unfolding agrees_def by blast
  with a show ?thesis by simp
qed

section \<open>The interface\<close>

locale route_table =
  fixes empty :: 't
    and reg :: "'t \<Rightarrow> string \<Rightarrow> 'h \<Rightarrow> (gopanic + 't) option"
    and look :: "'t \<Rightarrow> string \<Rightarrow> gopanic + 'h routeResult"
    and inv :: "'t \<Rightarrow> bool"
    and den :: "'t \<Rightarrow> (tok list \<times> 'h) set"
  assumes inv_empty: "inv empty" "den empty = {}"
    and reg_fits: "inv t \<Longrightarrow> readable p \<Longrightarrow> fits (pat p) (den t) \<Longrightarrow>
       \<exists>t'. reg t p h = Some (Inr t') \<and> inv t' \<and> den t' = insert (pat p, h) (den t)"
    and reg_dup: "inv t \<Longrightarrow> readable p \<Longrightarrow> (pat p, x) \<in> den t \<Longrightarrow> \<exists>msg. reg t p h = Some (Inl (PanicMsg msg))"
    and look_agrees: "inv t \<Longrightarrow> \<exists>res. look t s = Inr res \<and> agrees (den t) s [] res"
begin

lemma registerAll_from:
  "inv t \<Longrightarrow> conflictFree tab \<Longrightarrow> \<forall>r\<in>set tab. fits (pat (fst r)) (den t) \<Longrightarrow>
     \<exists>t'. registerAll reg t tab = Some (Inr t') \<and> inv t' \<and> den t' = denotes tab \<union> den t"
proof (induction tab arbitrary: t)
  case (Cons r tab)
  have r: "readable (fst r)" "fits (pat (fst r)) (den t)" "conflictFree tab"
    using Cons.prems(2,3) by simp_all
  have q: "compat (pat (fst q)) (pat (fst r))" "fits (pat (fst q)) (den t)" if "q \<in> set tab" for q
    using Cons.prems(2,3) compat_sym that by auto
  obtain t1 where t1: "reg t (fst r) (snd r) = Some (Inr t1)" "inv t1"
    "den t1 = insert (pat (fst r), snd r) (den t)"
    using reg_fits [OF Cons.prems(1) r(1,2), of "snd r"] by blast
  have "\<forall>q\<in>set tab. fits (pat (fst q)) (den t1)"
    using q by (simp add: t1(3) fits_def)
  from Cons.IH [OF t1(2) r(3) this] show ?case
    by (simp add: t1(1,3))
qed simp

lemma registers:
  "conflictFree tab \<Longrightarrow> \<exists>t. registerAll reg empty tab = Some (Inr t) \<and> inv t \<and> den t = denotes tab"
  using registerAll_from [of empty tab] inv_empty by (simp add: fits_def)

lemma look_scan:
  assumes "conflictFree tab" "registerAll reg empty tab = Some (Inr t)"
  shows "\<exists>res. look t s = Inr res \<and> rhandlers res = map_option fst (scan tab s) \<and>
     (\<forall>x qs. scan tab s = Some (x, qs) \<longrightarrow> rparams res = qs)"
proof -
  have t: "inv t" "den t = denotes tab" using registers [OF assms(1)] assms(2) by auto
  obtain res where "look t s = Inr res" "agrees (den t) s [] res"
    using look_agrees [OF t(1)] by blast
  then show ?thesis using agrees_scan [of tab s res] t(2) by auto
qed

lemma look_order:
  assumes "conflictFree tab" "mset tab = mset tab'"
    and "registerAll reg empty tab = Some (Inr t)" "registerAll reg empty tab' = Some (Inr t')"
  shows "\<exists>r r'. look t s = Inr r \<and> look t' s = Inr r' \<and> rhandlers r = rhandlers r' \<and>
     (rhandlers r \<noteq> None \<longrightarrow> rparams r = rparams r')"
proof -
  have "den t = denotes tab" "inv t" "den t' = denotes tab" "inv t'"
    using registers [OF assms(1)] registers [OF conflictFree_cong [OF assms(2,1)]] assms(3,4)
      denotes_cong [OF assms(2)] by auto
  moreover from this obtain r r' where "look t s = Inr r" "look t' s = Inr r'"
    "agrees (den t) s [] r" "agrees (den t') s [] r'"
    using look_agrees [of t s] look_agrees [of t' s] by blast
  ultimately show ?thesis
    using agrees_scan [of tab s r] agrees_scan [of tab s r'] by (cases "scan tab s") auto
qed

lemma registerAll_append:
  "registerAll reg t (tab @ tab') =
     (case registerAll reg t tab of
        Some (Inr t1) \<Rightarrow> registerAll reg t1 tab'
      | r \<Rightarrow> r)"
  by (induction tab arbitrary: t) (auto split: option.splits sum.splits)

lemma register_twice:
  assumes "conflictFree tab" "r \<in> set tab"
  shows "\<exists>msg. registerAll reg empty (tab @ [(fst r, h)]) = Some (Inl (PanicMsg msg))"
proof -
  obtain t where t: "registerAll reg empty tab = Some (Inr t)" "inv t" "den t = denotes tab"
    using registers [OF assms(1)] by blast
  have "readable (fst r)" "(pat (fst r), snd r) \<in> denotes tab"
    using assms by (auto simp: conflictFree_def denotes_def)
  then show ?thesis
    using reg_dup [OF t(2), of "fst r" "snd r" h] t by (auto simp: registerAll_append)
qed

end

lemma lookup_root:
  assumes "rootOK n"
  shows "\<exists>res. getValue n s [] = Inr res \<and> agrees (rootRoutes n) s [] res"
proof (cases "isEmptyRoot n")
  case True
  then obtain pr where n: "n = freshNode pr" by (auto simp: isEmptyRoot_def)
  have "\<exists>res. getValue n s [] = Inr res \<and> rhandlers res = None"
    by (cases s) (simp_all add: n getValue.simps [of "freshNode pr"] exactMatch_def Let_def)
  then obtain res where "getValue n s [] = Inr res" "rhandlers res = None" by blast
  moreover from this(2) have "agrees (rootRoutes n) s [] res"
    using True by (intro agrees_miss) (simp_all add: rootRoutes_def)
  ultimately show ?thesis by blast
next
  case False
  with assms have "wfNode n" "isStatic n" by (auto simp: rootOK_def)
  with False getValue_agrees [of n s "[]"] show ?thesis
    by (simp add: rootRoutes_def)
qed

interpretation tree: route_table emptyNode addRoute "\<lambda>n s. getValue n s []" rootOK rootRoutes
proof (unfold_locales, goal_cases)
  case 1
  show ?case by (rule rootOK_empty)
next
  case 2
  show ?case by (rule rootOK_empty)
next
  case (3 n p h)
  have "p \<noteq> []" "ascii p" "hd p \<noteq> CHR '':''" using 3(2) by (auto simp: readable_def)
  then show ?case
    using addRoute_adds [OF 3(1) readable_toks [OF 3(2)] _ _ _ 3(3), of h] by blast
next
  case (4 n p x h)
  then show ?case by (intro addRoute_dup [OF _ readable_toks])
next
  case (5 n s)
  then show ?case by (rule lookup_root)
qed

section \<open>Routing tables of the program\<close>

text \<open>C2. Registering a conflict-free table, from the empty node and in the order of the table, ends
  without a panic: no pattern of it is taken for malformed or for a conflict and the registration
  loop ends.\<close>

theorem registration_total:
  assumes "conflictFree tab"
  shows "\<exists>n. registerAll addRoute emptyNode tab = Some (Inr n)"
  using tree.registers [OF assms] by blast

text \<open>C1. Lookup in the tree of a conflict-free table is a linear scan of the table: on every request
  path \<open>getValue\<close> returns (no index goes out of range), it has a handler exactly when a pattern of
  the table matches, and then that entry's handler and the parameters of the match, in order.\<close>

theorem lookup_is_scan:
  assumes "conflictFree tab" "registerAll addRoute emptyNode tab = Some (Inr n)"
  shows "\<exists>res. getValue n path [] = Inr res \<and> rhandlers res = map_option fst (scan tab path) \<and>
    (\<forall>x ps. scan tab path = Some (x, ps) \<longrightarrow> rparams res = ps)"
  using tree.look_scan [OF assms] .

text \<open>The order of registration, and with it every split and every reordering by priority, does
  not change which handler a request gets, nor its parameters.\<close>

theorem registration_order_irrelevant:
  assumes "conflictFree tab" "mset tab = mset tab'"
    and "registerAll addRoute emptyNode tab = Some (Inr n)"
    and "registerAll addRoute emptyNode tab' = Some (Inr n')"
  shows "\<exists>r r'. getValue n path [] = Inr r \<and> getValue n' path [] = Inr r' \<and>
    rhandlers r = rhandlers r' \<and> (rhandlers r \<noteq> None \<longrightarrow> rparams r = rparams r')"
  using tree.look_order [OF assms] .

text \<open>A pattern that is in the table already is refused with a panic, whatever else is registered.\<close>

theorem registration_twice_panics:
  assumes "conflictFree tab" "(p, x) \<in> set tab"
  shows "\<exists>msg. registerAll addRoute emptyNode (tab @ [(p, h)]) = Some (Inl (PanicMsg msg))"
  using tree.register_twice [OF assms, of h] by simp

lemma registerAll_priority:
  "registerAll addRoute n tab = Some (Inr n') \<Longrightarrow> npriority n' = npriority n + of_nat (length tab)"
  by (induction tab arbitrary: n)
    (auto simp: add_ac split: option.split_asm sum.split_asm dest!: npriority_addRoute)

text \<open>The priority of the root, which the start-up banner reports as the number of routes, is that
  number for every table that registers (modulo \<open>2 ^ 32\<close>).\<close>

theorem root_priority_counts:
  assumes "registerAll addRoute emptyNode tab = Some (Inr n)"
  shows "npriority n = of_nat (length tab)"
  using registerAll_priority [OF assms] by (simp add: emptyNode_def)

end
