(* ===== verification/TreeFaults.thy ===== *)
theory TreeFaults
  imports TreeTable
begin

text \<open>
  Concrete tables: one on which the theorems of \<open>TreeTable\<close> are applied, and those outside the
  conflict-free ones on which the tree neither keeps all routes nor refuses the registration.
\<close>

definition sampleTable :: "(string \<times> nat) list" where
  "sampleTable =
     [(''/'', 0), (''/users'', 1), (''/users/:id'', 2), (''/users/:id/posts'', 3), (''/files/*path'', 4)]"

lemma sampleTable_conflictFree: "conflictFree sampleTable"
  by code_simp

theorem registration_total_witness: "\<exists>n. registerAll addRoute emptyNode sampleTable = Some (Inr n)"
  by (rule registration_total [OF sampleTable_conflictFree])

lemma sampleTable_scan: "scan sampleTable ''/users/7/posts'' = Some (3, [\<lparr>Key = ''id'', Value = ''7''\<rparr>])"
  by code_simp

theorem lookup_is_scan_witness:
  "\<exists>n res. registerAll addRoute emptyNode sampleTable = Some (Inr n) \<and>
     getValue n ''/users/7/posts'' [] = Inr res \<and> rhandlers res = Some 3 \<and>
     rparams res = [\<lparr>Key = ''id'', Value = ''7''\<rparr>]"
proof -
  obtain n where n: "registerAll addRoute emptyNode sampleTable = Some (Inr n)"
    using tree.registers [OF sampleTable_conflictFree] by blast
  with lookup_is_scan [OF sampleTable_conflictFree n, of "''/users/7/posts''"] show ?thesis
    by (auto simp: sampleTable_scan)
qed

theorem registration_order_irrelevant_witness:
  "\<exists>n n' r r'. registerAll addRoute emptyNode sampleTable = Some (Inr n) \<and>
     registerAll addRoute emptyNode (rev sampleTable) = Some (Inr n') \<and>
     getValue n ''/files/a/b'' [] = Inr r \<and> getValue n' ''/files/a/b'' [] = Inr r' \<and>
     rhandlers r = rhandlers r'"
proof -
  have m: "mset sampleTable = mset (rev sampleTable)" by simp
  obtain n n' where n: "registerAll addRoute emptyNode sampleTable = Some (Inr n)"
    "registerAll addRoute emptyNode (rev sampleTable) = Some (Inr n')"
    using tree.registers [OF sampleTable_conflictFree]
      tree.registers [OF conflictFree_cong [OF m sampleTable_conflictFree]] by blast
  with registration_order_irrelevant [OF sampleTable_conflictFree m n, of "''/files/a/b''"] show ?thesis
    by blast
qed

theorem registration_twice_panics_witness:
  "\<exists>msg. registerAll addRoute emptyNode (sampleTable @ [(''/users/:id'', 9)]) = Some (Inl (PanicMsg msg))"
  by (rule registration_twice_panics [OF sampleTable_conflictFree]) (simp add: sampleTable_def)

theorem root_priority_counts_witness:
  "\<exists>n. registerAll addRoute emptyNode sampleTable = Some (Inr n) \<and> npriority n = 5"
proof -
  obtain n where n: "registerAll addRoute emptyNode sampleTable = Some (Inr n)"
    using tree.registers [OF sampleTable_conflictFree] by blast
  with root_priority_counts [OF n] show ?thesis by (simp add: sampleTable_def)
qed

section \<open>Tables that are not conflict-free\<close>

definition handlerFor :: "(string \<times> nat) list \<Rightarrow> string \<Rightarrow> (gopanic + nat option) option" where
  "handlerFor tab path =
     (case registerAll addRoute emptyNode tab of
        Some (Inr n) \<Rightarrow> Some (map_sum id rhandlers (getValue n path []))
      | Some (Inl e) \<Rightarrow> Some (Inl e)
      | None \<Rightarrow> None)"

lemma shadowed_tree:
  "registerAll addRoute emptyNode [(''/users/:id'', h1 :: nat), (''/users/new'', h2)] =
     Some (Inr (Node ''/users/'' ''n''
       [Node '':id'' [] [] (Some h1) ''id'' 2 NodeParam False, Node ''new'' [] [] (Some h2) [] 0 NodeStatic False]
       None [] 2 NodeRoot True))"
  by code_simp

text \<open>A literal segment registered after a parameter in the same place,
  which the code takes without a conflict, takes both routes out of service: the new node is appended
  behind the parameter's, lookup takes the last child for the wildcard, and no path below the common
  prefix has a handler any more.\<close>

theorem literal_after_parameter:
  assumes "registerAll addRoute emptyNode [(''/users/:id'', h1 :: nat), (''/users/new'', h2)] = Some (Inr n)"
    and "s \<noteq> []"
  shows "\<exists>res. getValue n (''/users/'' @ s) [] = Inr res \<and> rhandlers res = None"
proof -
  have n: "n = Node ''/users/'' ''n''
       [Node '':id'' [] [] (Some h1) ''id'' 2 NodeParam False, Node ''new'' [] [] (Some h2) [] 0 NodeStatic False]
       None [] 2 NodeRoot True"
    using assms(1) unfolding shadowed_tree by simp
  show ?thesis
    using assms(2) unfolding n by (subst getValue.simps) (simp add: Let_def)
qed

theorem literal_after_parameter_witness:
  "\<exists>n res. registerAll addRoute emptyNode [(''/users/:id'', 1 :: nat), (''/users/new'', 2)] = Some (Inr n) \<and>
     getValue n (''/users/'' @ ''new'') [] = Inr res \<and> rhandlers res = None"
  using literal_after_parameter [OF shadowed_tree [of 1 2], of "''new''"] shadowed_tree [of 1 2] by blast

text \<open>The other order: the parameter's node replaces the literal one.\<close>

lemma parameter_after_literal:
  "handlerFor [(''/users/new'', 2), (''/users/:id'', 1)] ''/users/new'' = Some (Inr (Some 1))"
  by code_simp

text \<open>The indices of the replaced children stay: a later registration, or a request, runs past the end
  of the children.\<close>

lemma stale_indices:
  "handlerFor [(''/users/a'', 1), (''/users/b'', 2), (''/users/:id'', 3), (''/users/b'', 4)] ''/'' = Some (Inl IndexOutOfRange)"
  "handlerFor [(''/ab'', 1), (''/a/c'', 2), (''/a:x'', 3)] ''/a'' = Some (Inl IndexOutOfRange)"
  by code_simp+

text \<open>A catch-all without a slash before it, after a sibling: the index before the path is read in the
  place of the intended message.\<close>

lemma catchall_without_slash:
  "handlerFor [(''/a'', 1), (''/a*x'', 2)] ''/a'' = Some (Inl IndexOutOfRange)"
  by code_simp

text \<open>Bytes from 128 on are indexed by their two-byte encoding, and the indices no longer fit the
  children: \<open>/\<close>\<^emph>\<open>e-acute\<close> splits, and a request for the second byte of the encoding runs past the end.\<close>

lemma non_ascii_request:
  "handlerFor [([CHR ''/'', CHR 0xC3, CHR 0xA9], 1), (''/'', 2)] [CHR ''/'', CHR 0x83] = Some (Inl IndexOutOfRange)"
  by code_simp

lemma non_ascii_registration:
  "handlerFor [([CHR ''/'', CHR 0xC3, CHR 0xA9], 1), ([CHR ''/'', CHR 0xC3, CHR 0xA8], 2)] ''/'' = Some (Inl IndexOutOfRange)"
  by code_simp

text \<open>A trailing-slash recommendation for a path that has no handler with the slash removed, and one
  that depends on the order of registration.\<close>

definition recommends :: "(string \<times> nat) list \<Rightarrow> string \<Rightarrow> bool option" where
  "recommends tab path =
     (case registerAll addRoute emptyNode tab of
        Some (Inr n) \<Rightarrow> (case getValue n path [] of Inr res \<Rightarrow> Some (rtsr res) | Inl _ \<Rightarrow> None)
      | _ \<Rightarrow> None)"

lemma recommends_unregistered:
  "recommends [(''/users/list'', 1), (''/usersx'', 2)] ''/users/'' = Some True"
  "handlerFor [(''/users/list'', 1), (''/usersx'', 2)] ''/users'' = Some (Inr None)"
  by code_simp+

lemma recommends_depends_on_order:
  "recommends [(''/a/*x'', 1), (''/ab'', 2)] ''/a'' = Some True"
  "recommends [(''/ab'', 2), (''/a/*x'', 1)] ''/a'' = Some False"
  by code_simp+

section \<open>Divergence\<close>

text \<open>The byte \<open>E4\<close> (the first of many three-byte characters) is indexed by the two bytes \<open>C3 A4\<close> of its
  encoding.  A pattern that goes on with \<open>C3\<close> is sent down to a node that starts with \<open>E4\<close>; it splits
  that node at length 0, finds \<open>C3\<close> among the new indices again, and goes down to the same node.\<close>

lemma byteString_E4: "byteString CHR 0xE4 = [CHR 0xC3, CHR 0xA4]"
  by code_simp

definition stuck :: "'h node \<Rightarrow> string \<Rightarrow> bool" where
  "stuck n path \<longleftrightarrow>
     (\<exists>p ind cs h pn pr w s. n = Node (CHR 0xE4 # p) ind cs h pn pr NodeStatic w \<and> path = CHR 0xC3 # s)"

lemma walk_stuck:
  assumes "walk fp h n path = Some r"
  shows "\<not> stuck n path"
proof (rule walk.raw_induct [where P = "\<lambda>fp h n path r. \<not> stuck n path", OF _ assms], goal_cases)
  case (1 walk fp h n path r)
  show ?case
  proof
    assume "stuck n path"
    then obtain p ind cs g pn pr w s where n: "n = Node (CHR 0xE4 # p) ind cs g pn pr NodeStatic w"
      and path: "path = CHR 0xC3 # s"
      by (auto simp: stuck_def)
    let ?m = "Node (CHR 0xE4 # p) ind cs g pn (pr - 1 + 1) NodeStatic w"
    have "\<exists>r'. walk fp h ?m path = Some r'"
      using 1(2)
      by (auto simp: n path splitNode_def byteString_E4 incrementChildPriority_def bind_eq_Some_conv Let_def)
    then obtain r' where "walk fp h ?m path = Some r'" by blast
    then have "\<not> stuck ?m path" by (rule 1(1))
    then show False by (auto simp: stuck_def path)
  qed
qed

text \<open>Two patterns whose registration never returns: the second one, a slash
  and the two bytes of an accented letter, loops in \<^verbatim>\<open>addRoute\<close> behind a three-byte character.\<close>

theorem registration_diverges:
  "registerAll addRoute emptyNode
     [([CHR ''/'', CHR 0xE4, CHR 0xB8, CHR 0xAD], h1 :: nat), ([CHR ''/'', CHR 0xC3, CHR 0xA9], h2)] = None"
proof -
  let ?p1 = "[CHR ''/'', CHR 0xE4, CHR 0xB8, CHR 0xAD]" and ?p2 = "[CHR ''/'', CHR 0xC3, CHR 0xA9]"
  let ?n = "Node ?p1 [] [] (Some h1) [] 1 NodeRoot False"
  let ?m = "Node [CHR 0xE4, CHR 0xB8, CHR 0xAD] [] [] (Some h1) [] 2 NodeStatic False"
  have first: "addRoute emptyNode ?p1 h1 = Some (Inr ?n)"
    by code_simp
  have "walk ?p2 h2 ?m [CHR 0xC3, CHR 0xA9] = None"
    using walk_stuck [of ?p2 h2 ?m "[CHR 0xC3, CHR 0xA9]"]
    by (cases "walk ?p2 h2 ?m [CHR 0xC3, CHR 0xA9]") (auto simp: stuck_def)
  then have "addRoute ?n ?p2 h2 = None"
    by (simp add: addRoute_def walk.simps [of ?p2 h2 _ ?p2] splitNode_def byteString_E4
        incrementChildPriority_def Let_def)
  with first show ?thesis by simp
qed

end
