(* ===== verification/Errors.thy ===== *)
theory Errors
  imports Prelude
begin

text \<open>
  Error values (\<^verbatim>\<open>errors.go\<close>).  A Go \<^verbatim>\<open>error\<close> is an interface value; the program tells apart its own
  \<^verbatim>\<open>*HTTPError\<close> and \<^verbatim>\<open>*PanicError\<close>, and every other error is one of the message it prints.  The
  recovered value of a panic is \<^verbatim>\<open>http.ErrAbortHandler\<close>, which is handled apart, an error, or any
  other value by its printed form.
\<close>

datatype pval = ErrAbortHandler | PError string | PValue string

datatype goerr =
    HTTPError (Code: int) (Message: string) (Internal: "goerr option")
  | PanicError (PanicVal: pval) (Stack: string)
  | PlainError string

section \<open>Status texts\<close>

text \<open>\<^verbatim>\<open>http.StatusText\<close>: the standard library's table, and the empty string for other codes.\<close>

definition statusTable :: "(int \<times> string) list" where
  "statusTable =
     [(100, ''Continue''), (101, ''Switching Protocols''), (102, ''Processing''),
      (103, ''Early Hints''), (200, ''OK''), (201, ''Created''), (202, ''Accepted''),
      (203, ''Non-Authoritative Information''), (204, ''No Content''), (205, ''Reset Content''),
      (206, ''Partial Content''), (207, ''Multi-Status''), (208, ''Already Reported''),
      (226, ''IM Used''), (300, ''Multiple Choices''), (301, ''Moved Permanently''),
      (302, ''Found''), (303, ''See Other''), (304, ''Not Modified''), (305, ''Use Proxy''),
      (307, ''Temporary Redirect''), (308, ''Permanent Redirect''), (400, ''Bad Request''),
      (401, ''Unauthorized''), (402, ''Payment Required''), (403, ''Forbidden''),
      (404, ''Not Found''), (405, ''Method Not Allowed''), (406, ''Not Acceptable''),
      (407, ''Proxy Authentication Required''), (408, ''Request Timeout''), (409, ''Conflict''),
      (410, ''Gone''), (411, ''Length Required''), (412, ''Precondition Failed''),
      (413, ''Request Entity Too Large''), (414, ''Request URI Too Long''),
      (415, ''Unsupported Media Type''), (416, ''Requested Range Not Satisfiable''),
      (417, ''Expectation Failed''), (418, ''I'' @ [CHR 0x27] @ ''m a teapot''),
      (421, ''Misdirected Request''), (422, ''Unprocessable Entity''), (423, ''Locked''),
      (424, ''Failed Dependency''), (425, ''Too Early''), (426, ''Upgrade Required''),
      (428, ''Precondition Required''), (429, ''Too Many Requests''),
      (431, ''Request Header Fields Too Large''), (451, ''Unavailable For Legal Reasons''),
      (500, ''Internal Server Error''), (501, ''Not Implemented''), (502, ''Bad Gateway''),
      (503, ''Service Unavailable''), (504, ''Gateway Timeout''),
      (505, ''HTTP Version Not Supported''), (506, ''Variant Also Negotiates''),
      (507, ''Insufficient Storage''), (508, ''Loop Detected''), (510, ''Not Extended''),
      (511, ''Network Authentication Required'')]"

definition StatusText :: "int \<Rightarrow> string" where
  "StatusText code = (case map_of statusTable code of Some s \<Rightarrow> s | None \<Rightarrow> [])"

section \<open>\<open>HTTPError\<close>\<close>

definition NewHTTPError :: "int \<Rightarrow> string list \<Rightarrow> goerr" where
  "NewHTTPError code message =
     (let e = HTTPError code (StatusText code) None
      in if 0 < length message then HTTPError code (message ! 0) (Internal e) else e)"

definition WithInternal :: "goerr \<Rightarrow> goerr option \<Rightarrow> goerr" where
  "WithInternal e err =
     (case e of HTTPError c m i \<Rightarrow> HTTPError c m err | _ \<Rightarrow> e)"

fun Unwrap :: "goerr \<Rightarrow> goerr option" where
  "Unwrap (HTTPError c m i) = i"
| "Unwrap _ = None"

text \<open>Decimal numerals, as \<^verbatim>\<open>fmt\<close>'s \<^verbatim>\<open>%d\<close> and \<^verbatim>\<open>strconv.Itoa\<close> print them.\<close>

fun natDigits :: "nat \<Rightarrow> string" where
  "natDigits n = (if n < 10 then [char_of (48 + n)] else natDigits (n div 10) @ [char_of (48 + n mod 10)])"

declare natDigits.simps [simp del]

definition itoa :: "int \<Rightarrow> string" where
  "itoa i = (if i < 0 then CHR ''-'' # natDigits (nat (- i)) else natDigits (nat i))"

fun showPanic :: "pval \<Rightarrow> string" where
  "showPanic ErrAbortHandler = ''net/http: abort Handler''"
| "showPanic (PError s) = s"
| "showPanic (PValue s) = s"

text \<open>The method \<^verbatim>\<open>Error\<close> of the two types; an internal error is printed after the message.\<close>

fun Error :: "goerr \<Rightarrow> string" where
  "Error (HTTPError c m (Some i)) = ''goxpress: '' @ itoa c @ '' '' @ m @ '': '' @ Error i"
| "Error (HTTPError c m None) = ''goxpress: '' @ itoa c @ '' '' @ m"
| "Error (PanicError v st) = ''goxpress: recovered from panic: '' @ showPanic v"
| "Error (PlainError s) = s"

section \<open>Lemmas\<close>

lemma NewHTTPError_simps [simp]:
  "NewHTTPError code [] = HTTPError code (StatusText code) None"
  "NewHTTPError code (m # ms) = HTTPError code m None"
  by (simp_all add: NewHTTPError_def Let_def)

lemma WithInternal_simps [simp]:
  "WithInternal (HTTPError c m i) e = HTTPError c m e"
  by (simp add: WithInternal_def)

text \<open>The chain of causes, as \<^verbatim>\<open>errors.Is\<close> and \<^verbatim>\<open>errors.As\<close> walk it with \<open>Unwrap\<close>: the walk ends,
  and the annotated error is found in it.\<close>

fun causes :: "goerr \<Rightarrow> goerr list" where
  "causes (HTTPError c m (Some i)) = HTTPError c m (Some i) # causes i"
| "causes e = [e]"

lemma causes_Unwrap: "causes e = e # (case Unwrap e of None \<Rightarrow> [] | Some i \<Rightarrow> causes i)"
  by (cases e rule: causes.cases) auto

lemma WithInternal_cause: "e = HTTPError c m i \<Longrightarrow> x \<in> set (causes (WithInternal e (Some x)))"
  by (cases x rule: causes.cases) auto

lemma natDigits_nonempty: "natDigits n \<noteq> []"
  by (simp add: natDigits.simps [of n])

text \<open>The numeral read back gives the number.\<close>

definition readNat :: "string \<Rightarrow> nat" where
  "readNat s = foldl (\<lambda>n c. 10 * n + (of_char c - 48)) 0 s"

lemma readNat_natDigits [simp]: "readNat (natDigits n) = n"
proof (induction n rule: natDigits.induct)
  case (1 n)
  then show ?case
    by (cases "n < 10") (simp_all add: natDigits.simps [of n] readNat_def)
qed

lemma natDigits_inject: "natDigits m = natDigits n \<longleftrightarrow> m = n"
  by (metis readNat_natDigits)

end
