(* ===== verification/Http.thy ===== *)
theory Http
  imports Errors
begin

text \<open>
  What the program uses of \<^verbatim>\<open>net/http\<close>: header maps with canonical keys, the fields of a request,
  and the server's \<^verbatim>\<open>ResponseWriter\<close>, whose documented behaviour the rest of the model relies on
  (the first status code wins, a body write without one sends 200, 1xx codes are informational, a
  code without a body refuses one, a write may fail part of the way).  Status codes are taken to be
  between 100 and 999, the range outside of which \<^verbatim>\<open>net/http\<close> panics.
\<close>

section \<open>Headers\<close>

type_synonym header = "string \<Rightarrow> string list option"

definition isLower :: "char \<Rightarrow> bool" where
  "isLower c \<longleftrightarrow> 97 \<le> (of_char c :: nat) \<and> (of_char c :: nat) \<le> 122"

definition isUpper :: "char \<Rightarrow> bool" where
  "isUpper c \<longleftrightarrow> 65 \<le> (of_char c :: nat) \<and> (of_char c :: nat) \<le> 90"

definition upperChar :: "char \<Rightarrow> char" where
  "upperChar c = (if isLower c then char_of ((of_char c :: nat) - 32) else c)"

definition lowerChar :: "char \<Rightarrow> char" where
  "lowerChar c = (if isUpper c then char_of ((of_char c :: nat) + 32) else c)"

definition toLower :: "string \<Rightarrow> string" where
  "toLower s = map lowerChar s"

definition isDigit :: "char \<Rightarrow> bool" where
  "isDigit c \<longleftrightarrow> 48 \<le> (of_char c :: nat) \<and> (of_char c :: nat) \<le> 57"

lemma natDigits_isDigit: "list_all isDigit (natDigits n)"
proof (induction n rule: natDigits.induct)
  case (1 n)
  then show ?case by (cases "n < 10") (simp_all add: natDigits.simps [of n] isDigit_def)
qed

definition tokenChar :: "char \<Rightarrow> bool" where
  "tokenChar c \<longleftrightarrow> isLower c \<or> isUpper c \<or> isDigit c \<or> c = CHR 0x27 \<or> c = CHR 0x60 \<or> c \<in> set ''!#$%&*+-.^_|~''"

fun canonFrom :: "bool \<Rightarrow> string \<Rightarrow> string" where
  "canonFrom up [] = []"
| "canonFrom up (c # s) = (if up then upperChar c else lowerChar c) # canonFrom (c = CHR ''-'') s"

text \<open>\<^verbatim>\<open>textproto.CanonicalMIMEHeaderKey\<close>.\<close>

definition canonicalKey :: "string \<Rightarrow> string" where
  "canonicalKey s = (if list_all tokenChar s then canonFrom True s else s)"

definition hGet :: "header \<Rightarrow> string \<Rightarrow> string" where
  "hGet h k = (case h (canonicalKey k) of Some (v # vs) \<Rightarrow> v | _ \<Rightarrow> [])"

definition hValues :: "header \<Rightarrow> string \<Rightarrow> string list" where
  "hValues h k = (case h (canonicalKey k) of Some vs \<Rightarrow> vs | None \<Rightarrow> [])"

definition hSet :: "string \<Rightarrow> string \<Rightarrow> header \<Rightarrow> header" where
  "hSet k v h = h(canonicalKey k \<mapsto> [v])"

definition hAdd :: "string \<Rightarrow> string \<Rightarrow> header \<Rightarrow> header" where
  "hAdd k v h = h(canonicalKey k \<mapsto> hValues h k @ [v])"

definition hDel :: "string \<Rightarrow> header \<Rightarrow> header" where
  "hDel k h = h(canonicalKey k := None)"

lemma hGet_hSet [http_simps]: "hGet (hSet k v h) k' = (if canonicalKey k' = canonicalKey k then v else hGet h k')"
  by (simp add: hGet_def hSet_def)

lemma hGet_hDel [http_simps]: "hGet (hDel k h) k' = (if canonicalKey k' = canonicalKey k then [] else hGet h k')"
  by (simp add: hGet_def hDel_def)

lemma hValues_hAdd [http_simps]:
  "hValues (hAdd k v h) k' = (if canonicalKey k' = canonicalKey k then hValues h k' @ [v] else hValues h k')"
  by (simp add: hValues_def hAdd_def)

lemma hValues_hSet [http_simps]:
  "hValues (hSet k v h) k' = (if canonicalKey k' = canonicalKey k then [v] else hValues h k')"
  by (simp add: hValues_def hSet_def)

section \<open>Network addresses\<close>

text \<open>\<^verbatim>\<open>net.SplitHostPort\<close>, its host part; \<open>None\<close> is its error.\<close>

definition lastIndexOf :: "char \<Rightarrow> string \<Rightarrow> nat option" where
  "lastIndexOf c s = map_option (\<lambda>i. length s - Suc i) (indexOf c (rev s))"

definition splitHost :: "string \<Rightarrow> string option" where
  "splitHost s =
     (case lastIndexOf (CHR '':'') s of
        None \<Rightarrow> None
      | Some i \<Rightarrow>
          if hd s = CHR ''['' then
            (case indexOf (CHR '']'') s of
               None \<Rightarrow> None
             | Some e \<Rightarrow>
                 if e + 1 = i \<and> CHR ''['' \<notin> set (drop 1 s) \<and> CHR '']'' \<notin> set (drop (e + 1) s)
                 then Some (drop 1 (take e s)) else None)
          else if CHR '':'' \<in> set (take i s) \<or> CHR ''['' \<in> set s \<or> CHR '']'' \<in> set s then None
          else Some (take i s))"

section \<open>The server's response writer\<close>

text \<open>\<open>wRoom\<close> is the number of bytes the connection still takes, if it is going to break.\<close>

record stdWriter =
  wHeader :: header
  wInformed :: "int list"
  wSent :: "(int \<times> header) option"
  wBody :: string
  wRoom :: "nat option"

definition freshWriter :: stdWriter where
  "freshWriter = \<lparr>wHeader = (\<lambda>k. None), wInformed = [], wSent = None, wBody = [], wRoom = None\<rparr>"

definition informational :: "int \<Rightarrow> bool" where
  "informational code \<longleftrightarrow> 100 \<le> code \<and> code \<le> 199 \<and> code \<noteq> 101"

definition bodyAllowed :: "int \<Rightarrow> bool" where
  "bodyAllowed code \<longleftrightarrow> \<not> (100 \<le> code \<and> code \<le> 199) \<and> code \<noteq> 204 \<and> code \<noteq> 304"

definition std_WriteHeader :: "int \<Rightarrow> stdWriter \<Rightarrow> stdWriter" where
  "std_WriteHeader code w =
     (if wSent w \<noteq> None then w
      else if informational code then w\<lparr>wInformed := wInformed w @ [code]\<rparr>
      else w\<lparr>wSent := Some (code, wHeader w)\<rparr>)"

definition errBodyNotAllowed :: goerr where
  "errBodyNotAllowed = PlainError ''http: request method or response status code does not allow body''"

definition std_Write :: "string \<Rightarrow> stdWriter \<Rightarrow> (nat \<times> goerr option) \<times> stdWriter" where
  "std_Write b w =
     (let w1 = (if wSent w = None then std_WriteHeader 200 w else w)
      in if b = [] then ((0, None), w1)
         else if \<not> bodyAllowed (fst (the (wSent w1))) then ((0, Some errBodyNotAllowed), w1)
         else
           let n = (case wRoom w1 of None \<Rightarrow> length b | Some r \<Rightarrow> min r (length b))
           in ((n, if n < length b then Some (PlainError ''write: connection reset'') else None),
               w1\<lparr>wBody := wBody w1 @ take n b, wRoom := map_option (\<lambda>r. r - n) (wRoom w1)\<rparr>))"

lemma std_WriteHeader_simps [http_simps]:
  "wBody (std_WriteHeader code w) = wBody w" "wHeader (std_WriteHeader code w) = wHeader w"
  "wRoom (std_WriteHeader code w) = wRoom w"
  by (simp_all add: std_WriteHeader_def)

lemma std_WriteHeader_sent:
  "wSent (std_WriteHeader code w) =
     (if wSent w = None \<and> \<not> informational code then Some (code, wHeader w) else wSent w)"
  by (simp add: std_WriteHeader_def)

lemma std_Write_sent [http_simps]: "wSent (snd (std_Write b w)) =
    (if wSent w = None then Some (200, wHeader w) else wSent w)"
  by (auto simp: std_Write_def Let_def std_WriteHeader_sent informational_def)

lemma std_Write_header [http_simps]: "wHeader (snd (std_Write b w)) = wHeader w"
  by (auto simp: std_Write_def Let_def http_simps)

section \<open>Requests\<close>

text \<open>A parsed URL query or form: every key's values in order.  Parsing it is the standard library's.\<close>

type_synonym urlValues = "string \<Rightarrow> string list option"

definition valuesGet :: "urlValues \<Rightarrow> string \<Rightarrow> string" where
  "valuesGet q k = (case q k of Some (v # vs) \<Rightarrow> v | _ \<Rightarrow> [])"

text \<open>A body is the bytes the client sent, behind the readers that middleware puts around it.
  \<^verbatim>\<open>http.MaxBytesReader\<close> delivers at most its limit and then fails; a gzip reader is an argument.\<close>

datatype bodyReader = BodyBytes string | BodyMax int bodyReader | BodyGunzip bodyReader

definition errBodyTooLarge :: goerr where
  "errBodyTooLarge = PlainError ''http: request body too large''"

fun readAll :: "(string \<Rightarrow> string \<times> goerr option) \<Rightarrow> bodyReader \<Rightarrow> string \<times> goerr option" where
  "readAll gunzip (BodyBytes b) = (b, None)"
| "readAll gunzip (BodyMax n r) =
     (case readAll gunzip r of
        (b, err) \<Rightarrow> if int (length b) \<le> max 0 n then (b, err) else (take (nat n) b, Some errBodyTooLarge))"
| "readAll gunzip (BodyGunzip r) =
     (case readAll gunzip r of
        (b, err) \<Rightarrow> case gunzip b of (d, err') \<Rightarrow> (d, if err = None then err' else err))"

text \<open>The URL of a request in origin form: \<^verbatim>\<open>URL.Path\<close>, \<^verbatim>\<open>URL.RawPath\<close>, and the query as it was written, with
  its question mark (\<^verbatim>\<open>RawQuery\<close> and \<^verbatim>\<open>ForceQuery\<close>) and parsed.\<close>

record request =
  reqMethod :: string
  reqPath :: string
  reqRawPath :: string
  reqQueryText :: string
  reqHost :: string
  reqRemoteAddr :: string
  reqTLS :: bool
  reqQuery :: "urlValues option"
  reqForm :: "goerr + urlValues"
  reqHeader :: header
  reqCookies :: "(string \<times> string) list"
  reqContentLength :: int
  reqBody :: "bodyReader option"

end
