(* ===== verification/Url.thy ===== *)
theory Url
  imports Http
begin

text \<open>
  Paths and URLs, as the program uses them of \<^verbatim>\<open>path\<close>, \<^verbatim>\<open>net/url\<close> and \<^verbatim>\<open>net/http\<close>: \<^verbatim>\<open>path.Clean\<close>, the
  percent-encoding of a path, \<^verbatim>\<open>URL.String\<close> for the URL of a request in origin form (no scheme and no
  host), and the resolution of a location that \<^verbatim>\<open>http.Redirect\<close> makes before it sends it.
\<close>

section \<open>Cleaning\<close>

text \<open>\<^verbatim>\<open>path.Clean\<close> of a rooted path: the segments in order, without empty ones and dots, and each double
  dot taking one segment back; the stack is reversed.\<close>

fun cleanSegments :: "string list \<Rightarrow> string list \<Rightarrow> string list" where
  "cleanSegments st [] = rev st"
| "cleanSegments st (s # ss) =
     (if s = [] \<or> s = ''.'' then cleanSegments st ss
      else if s = ''..'' then cleanSegments (tl st) ss
      else cleanSegments (s # st) ss)"

definition cleanRooted :: "string \<Rightarrow> string" where
  "cleanRooted path = CHR ''/'' # joinStrings ''/'' (cleanSegments [] (splitOn (CHR ''/'') (tl path)))"

text \<open>\<^verbatim>\<open>path.Clean\<close>; a path that is not rooted keeps the double dots it begins with.\<close>

fun cleanRelative :: "string list \<Rightarrow> string list \<Rightarrow> string list" where
  "cleanRelative st [] = rev st"
| "cleanRelative st (s # ss) =
     (if s = [] \<or> s = ''.'' then cleanRelative st ss
      else if s = ''..'' \<and> st \<noteq> [] \<and> st ! 0 \<noteq> ''..'' then cleanRelative (tl st) ss
      else cleanRelative (s # st) ss)"

definition path_Clean :: "string \<Rightarrow> string" where
  "path_Clean p =
     (if p \<noteq> [] \<and> p ! 0 = CHR ''/'' then cleanRooted p
      else let q = joinStrings ''/'' (cleanRelative [] (splitOn (CHR ''/'') p)) in if q = [] then ''.'' else q)"

definition endsSlash :: "string \<Rightarrow> bool" where
  "endsSlash p \<longleftrightarrow> p \<noteq> [] \<and> last p = CHR ''/''"

text \<open>Cleaning that keeps a trailing slash.\<close>

definition tidyPath :: "string \<Rightarrow> string" where
  "tidyPath p = (let q = path_Clean p in if endsSlash p \<and> \<not> endsSlash q then q @ ''/'' else q)"

section \<open>Percent-encoding\<close>

text \<open>The bytes that \<^verbatim>\<open>net/url\<close> leaves alone in a path, and those it accepts in an encoded one.\<close>

definition pathByte :: "char \<Rightarrow> bool" where
  "pathByte c \<longleftrightarrow> isLower c \<or> isUpper c \<or> isDigit c \<or> c \<in> set ''-_.~$&+,/:;=@''"

definition encodedByte :: "char \<Rightarrow> bool" where
  "encodedByte c \<longleftrightarrow> pathByte c \<or> c = CHR 0x27 \<or> c \<in> set ''!()*[]%''"

definition hexDigit :: "nat \<Rightarrow> char" where
  "hexDigit n = (if n < 10 then char_of (48 + n) else char_of (87 + n))"

definition upperHexDigit :: "nat \<Rightarrow> char" where
  "upperHexDigit n = (if n < 10 then char_of (48 + n) else char_of (55 + n))"

definition escapeByte :: "char \<Rightarrow> string" where
  "escapeByte c =
     (if pathByte c then [c] else [CHR ''%'', upperHexDigit (of_char c div 16), upperHexDigit (of_char c mod 16)])"

definition escapePath :: "string \<Rightarrow> string" where
  "escapePath s = concat (map escapeByte s)"

definition unhex :: "char \<Rightarrow> nat option" where
  "unhex c =
     (let n = of_char c
      in if isDigit c then Some (n - 48)
         else if 97 \<le> n \<and> n \<le> 102 then Some (n - 87)
         else if 65 \<le> n \<and> n \<le> 70 then Some (n - 55) else None)"

fun unescapePath :: "string \<Rightarrow> string option" where
  "unescapePath [] = Some []"
| "unescapePath (c # s) =
     (if c = CHR ''%'' then
        (case s of
           a # b # t \<Rightarrow>
             (case (unhex a, unhex b) of
                (Some x, Some y) \<Rightarrow> map_option (Cons (char_of (16 * x + y))) (unescapePath t)
              | _ \<Rightarrow> None)
         | _ \<Rightarrow> None)
      else map_option (Cons c) (unescapePath s))"

section \<open>URLs\<close>

text \<open>\<^verbatim>\<open>EscapedPath\<close>: the path as the request spelled it, while that still is a spelling of it.\<close>

definition escapedPath :: "string \<Rightarrow> string \<Rightarrow> string" where
  "escapedPath raw path =
     (if raw \<noteq> [] \<and> list_all encodedByte raw \<and> unescapePath raw = Some path then raw
      else if path = ''*'' then ''*''
      else escapePath path)"

text \<open>\<open>query\<close> is the query with its question mark, or nothing.\<close>

definition URL_String :: "string \<Rightarrow> string \<Rightarrow> string \<Rightarrow> string" where
  "URL_String raw path query =
     (let p = escapedPath raw path
      in (if CHR '':'' \<in> set (takeWhile (\<lambda>c. c \<noteq> CHR ''/'') p) then ''./'' else []) @ p @ query)"

definition beforeQuery :: "string \<Rightarrow> string" where
  "beforeQuery u = takeWhile (\<lambda>c. c \<noteq> CHR ''?'') u"

definition fromQuery :: "string \<Rightarrow> string" where
  "fromQuery u = dropWhile (\<lambda>c. c \<noteq> CHR ''?'') u"

text \<open>What \<^verbatim>\<open>http.Redirect\<close> makes of a location without scheme and host: it is taken against the directory
  of the request's path, and its path is cleaned, a trailing slash apart.\<close>

definition resolveLocation :: "string \<Rightarrow> string \<Rightarrow> string" where
  "resolveLocation oldpath url =
     (let old = (if oldpath = [] then ''/'' else oldpath);
          url1 = (if url = [] \<or> url ! 0 \<noteq> CHR ''/'' then rev (dropWhile (\<lambda>c. c \<noteq> CHR ''/'') (rev old)) @ url else url)
      in tidyPath (beforeQuery url1) @ fromQuery url1)"

definition hexEscapeNonASCII :: "string \<Rightarrow> string" where
  "hexEscapeNonASCII s =
     concat (map (\<lambda>c. let n = of_char c
                       in if n < 128 then [c] else [CHR ''%'', hexDigit (n div 16), hexDigit (n mod 16)]) s)"

section \<open>Cleaned paths\<close>

definition plainSegment :: "string \<Rightarrow> bool" where
  "plainSegment s \<longleftrightarrow> s \<noteq> [] \<and> s \<noteq> ''.'' \<and> s \<noteq> ''..'' \<and> CHR ''/'' \<notin> set s"

lemma cleanSegments_plain:
  "list_all plainSegment st \<Longrightarrow> list_all (\<lambda>s. CHR ''/'' \<notin> set s) ss \<Longrightarrow> list_all plainSegment (cleanSegments st ss)"
proof (induction st ss rule: cleanSegments.induct)
  case (2 st s ss)
  then show ?case by (cases st) (auto simp: plainSegment_def)
qed (simp add: list_all_iff)

lemma cleanRooted_segments:
  "\<exists>ss. cleanRooted path = CHR ''/'' # joinStrings ''/'' ss \<and> list_all plainSegment ss"
proof -
  have "list_all (\<lambda>s. CHR ''/'' \<notin> set s) (splitOn (CHR ''/'') (tl path))"
    using splitOn_no_sep by (fastforce simp: list_all_iff)
  then show ?thesis using cleanSegments_plain [of "[]"] by (auto simp: cleanRooted_def)
qed

lemma cleanSegments_id: "list_all plainSegment ss \<Longrightarrow> cleanSegments st ss = rev st @ ss"
  by (induction ss arbitrary: st) (auto simp: plainSegment_def)


text \<open>The path of some plain segments, with or without a slash behind them.\<close>

definition plainPath :: "string list \<Rightarrow> bool \<Rightarrow> string" where
  "plainPath ss b = CHR ''/'' # joinStrings ''/'' ss @ (if b then ''/'' else [])"

lemma splitOn_append: "sep \<notin> set s \<Longrightarrow> splitOn sep (s @ sep # t) = s # splitOn sep t"
  by (induction s) auto

lemma splitOn_join_slash:
  "ss \<noteq> [] \<Longrightarrow> \<forall>s\<in>set ss. sep \<notin> set s \<Longrightarrow> splitOn sep (joinStrings [sep] ss @ [sep]) = ss @ [[]]"
proof (induction "[sep]" ss rule: joinStrings.induct)
  case (2 s)
  then show ?case using splitOn_append [of sep s "[]"] by simp
next
  case (3 s t ss)
  then show ?case using splitOn_append [of sep s "joinStrings [sep] (t # ss) @ [sep]"] by simp
qed simp

lemma join_plain_last:
  "ss \<noteq> [] \<Longrightarrow> list_all plainSegment ss \<Longrightarrow> joinStrings ''/'' ss \<noteq> [] \<and> last (joinStrings ''/'' ss) \<noteq> CHR ''/''"
proof (induction "''/''" ss rule: joinStrings.induct)
  case (2 s)
  then have "s \<noteq> []" "CHR ''/'' \<notin> set s" by (simp_all add: plainSegment_def)
  then show ?case using last_in_set [of s] by (metis joinStrings.simps(2))
qed auto

lemma join_plain_first:
  "ss \<noteq> [] \<Longrightarrow> list_all plainSegment ss \<Longrightarrow> joinStrings ''/'' ss ! 0 \<noteq> CHR ''/''"
  by (cases ss rule: remdups_adj.cases) (auto simp: plainSegment_def neq_Nil_conv)

lemma cleanSegments_snoc: "cleanSegments st (ss @ [[]]) = cleanSegments st ss"
  by (induction st ss rule: cleanSegments.induct) simp_all

lemma cleanRooted_plain:
  assumes "list_all plainSegment ss" "b \<longrightarrow> ss \<noteq> []"
  shows "cleanRooted (plainPath ss b) = plainPath ss False"
proof (cases "ss = []")
  case True
  then show ?thesis using assms(2) by (simp add: plainPath_def cleanRooted_def)
next
  case False
  have "\<forall>s\<in>set ss. CHR ''/'' \<notin> set s" using assms(1) by (auto simp: list_all_iff plainSegment_def)
  then have "splitOn (CHR ''/'') (joinStrings ''/'' ss @ (if b then ''/'' else [])) = ss @ (if b then [[]] else [])"
    using splitOn_join [OF False] splitOn_join_slash [OF False] by simp
  then show ?thesis
    using cleanSegments_id [OF assms(1), of "[]"] cleanSegments_snoc [of "[]" ss] by (simp add: plainPath_def cleanRooted_def)
qed

lemma endsSlash_plain:
  "list_all plainSegment ss \<Longrightarrow> endsSlash (plainPath ss b) \<longleftrightarrow> b \<or> ss = []"
  using join_plain_last [of ss] by (cases "ss = []") (auto simp: endsSlash_def plainPath_def)

lemma tidyPath_plain: "list_all plainSegment ss \<Longrightarrow> b \<longrightarrow> ss \<noteq> [] \<Longrightarrow> tidyPath (plainPath ss b) = plainPath ss b"
  using cleanRooted_plain [of ss b] endsSlash_plain [of ss b] endsSlash_plain [of ss False]
  by (auto simp: tidyPath_def path_Clean_def plainPath_def Let_def)

text \<open>What tidying makes of a rooted path.\<close>

lemma tidyPath_rooted:
  assumes "p \<noteq> []" "p ! 0 = CHR ''/''"
  obtains ss b where "list_all plainSegment ss" "b \<longrightarrow> ss \<noteq> []" "tidyPath p = plainPath ss b"
proof -
  obtain ss where ss: "cleanRooted p = CHR ''/'' # joinStrings ''/'' ss" "list_all plainSegment ss"
    using cleanRooted_segments by blast
  then have c: "path_Clean p = plainPath ss False" using assms by (simp add: path_Clean_def plainPath_def)
  let ?b = "endsSlash p \<and> ss \<noteq> []"
  have "tidyPath p = plainPath ss ?b"
    using endsSlash_plain [OF ss(2), of False] c by (auto simp: tidyPath_def plainPath_def)
  then show thesis using that [of ss ?b] ss(2) by simp
qed

section \<open>Encoded paths\<close>

lemma pathByte_plain:
  "pathByte c \<Longrightarrow> c \<noteq> CHR ''%'' \<and> c \<noteq> CHR ''?'' \<and> c \<noteq> CHR ''#'' \<and> (of_char c :: nat) < 128"
  by (auto simp: pathByte_def isLower_def isUpper_def isDigit_def)

lemma pathByte_slash [simp]: "pathByte (CHR ''/'')" "pathByte (CHR ''.'')"
  by (simp_all add: pathByte_def)

lemma upperHexDigit_code: "n < 16 \<Longrightarrow> (of_char (upperHexDigit n) :: nat) = (if n < 10 then 48 + n else 55 + n)"
  by (simp add: upperHexDigit_def)

lemma unhex_digit: "n < 16 \<Longrightarrow> unhex (upperHexDigit n) = Some n"
  by (simp add: unhex_def isDigit_def upperHexDigit_code)

lemma upperHexDigit_plain:
  assumes "n < 16"
  shows "upperHexDigit n \<noteq> CHR ''/''" "upperHexDigit n \<noteq> CHR ''?''" "upperHexDigit n \<noteq> CHR ''#''"
    "(of_char (upperHexDigit n) :: nat) < 128" "upperHexDigit n \<noteq> CHR '':''"
proof -
  have "upperHexDigit n \<noteq> c" if "\<not> ((of_char c :: nat) \<in> {48..57} \<union> {65..70})" for c
    using upperHexDigit_code [OF assms] that assms by (auto split: if_splits)
  from this [of "CHR ''/''"] this [of "CHR ''?''"] this [of "CHR ''#''"] this [of "CHR '':''"]
  show "upperHexDigit n \<noteq> CHR ''/''" "upperHexDigit n \<noteq> CHR ''?''" "upperHexDigit n \<noteq> CHR ''#''"
    "upperHexDigit n \<noteq> CHR '':''" by simp_all
  show "(of_char (upperHexDigit n) :: nat) < 128" using upperHexDigit_code [OF assms] assms by simp
qed

lemma nibbles: "(of_char c :: nat) div 16 < 16" "(of_char c :: nat) mod 16 < 16"
  using less_mult_imp_div_less [of "of_char c" 16 16] nat_of_char_less_256 [of c] by simp_all

lemma escapePath_simps [simp]: "escapePath [] = []" "escapePath (s @ t) = escapePath s @ escapePath t"
  "escapePath (c # s) = escapeByte c @ escapePath s"
  by (simp_all add: escapePath_def)

text \<open>Decoding gives the path back.\<close>

lemma unescape_escape: "unescapePath (escapePath s) = Some s"
proof (induction s)
  case (Cons c s)
  show ?case
  proof (cases "pathByte c")
    case True
    then show ?thesis using Cons pathByte_plain [of c] by (simp add: escapeByte_def)
  next
    case False
    then show ?thesis using Cons unhex_digit nibbles [of c] by (simp add: escapeByte_def)
  qed
qed simp

lemma escapeByte_chars:
  "d \<in> set (escapeByte c) \<Longrightarrow> d \<noteq> CHR ''?'' \<and> d \<noteq> CHR ''#'' \<and> (of_char d :: nat) < 128"
  "CHR ''/'' \<in> set (escapeByte c) \<longleftrightarrow> c = CHR ''/''"
  using pathByte_plain [of c] upperHexDigit_plain [OF nibbles(1) [of c]] upperHexDigit_plain [OF nibbles(2) [of c]]
    pathByte_slash(1)
  unfolding escapeByte_def by (cases "pathByte c"; force)+

lemma escapePath_chars: "d \<in> set (escapePath s) \<Longrightarrow> d \<noteq> CHR ''?'' \<and> d \<noteq> CHR ''#'' \<and> (of_char d :: nat) < 128"
  using escapeByte_chars(1) by (auto simp: escapePath_def)

lemma escapeByte_slash [simp]: "escapeByte (CHR ''/'') = ''/''"
  by (simp add: escapeByte_def)

lemma splitOn_escape: "splitOn (CHR ''/'') (escapePath s) = map escapePath (splitOn (CHR ''/'') s)"
proof (induction s)
  case (Cons c s)
  show ?case
  proof (cases "c = CHR ''/''")
    case False
    have "splitOn sep (u @ t) = (case splitOn sep t of l # ls \<Rightarrow> (u @ l) # ls | [] \<Rightarrow> [u])" if "sep \<notin> set u" for sep u t
      using that by (induction u) (auto split: list.splits)
    from this [of "CHR ''/''" "escapeByte c" "escapePath s"] show ?thesis
      using Cons False escapeByte_chars(2) [of c]
      by (cases "splitOn (CHR ''/'') s") simp_all
  qed (simp add: Cons)
qed simp

lemma escapePath_eq: "escapePath s = escapePath t \<longleftrightarrow> s = t"
  by (metis option.inject unescape_escape)

lemma escapePath_dots [simp]: "escapePath s = ''.'' \<longleftrightarrow> s = ''.''" "escapePath s = ''..'' \<longleftrightarrow> s = ''..''"
  "escapePath s = [] \<longleftrightarrow> s = []"
  using escapePath_eq [of s "''.''"] escapePath_eq [of s "''..''"] escapePath_eq [of s "[]"] by (simp_all add: escapeByte_def)

lemma cleanSegments_escape: "cleanSegments (map escapePath st) (map escapePath ss) = map escapePath (cleanSegments st ss)"
  by (induction st ss rule: cleanSegments.induct) (simp_all add: rev_map map_tl [symmetric])

lemma join_escape: "joinStrings ''/'' (map escapePath ss) = escapePath (joinStrings ''/'' ss)"
  by (induction "''/''" ss rule: joinStrings.induct) simp_all

lemma escape_first: "s \<noteq> [] \<and> s ! 0 = CHR ''/'' \<longleftrightarrow> escapePath s \<noteq> [] \<and> escapePath s ! 0 = CHR ''/''"
  by (cases s) (auto simp: escapeByte_def pathByte_def)

lemma escape_last: "endsSlash (escapePath s) \<longleftrightarrow> endsSlash s"
proof (cases s rule: rev_cases)
  case (snoc t c)
  have "escapeByte c \<noteq> []" by (simp add: escapeByte_def)
  moreover have "last (escapeByte c) = CHR ''/'' \<longleftrightarrow> c = CHR ''/''"
    using upperHexDigit_plain(1) [OF nibbles(2) [of c]] pathByte_slash(1) by (cases "pathByte c") (auto simp: escapeByte_def)
  ultimately show ?thesis using snoc by (simp add: endsSlash_def)
qed (simp add: endsSlash_def)

lemma tidyPath_escape:
  assumes "p \<noteq> []" "p ! 0 = CHR ''/''"
  shows "tidyPath (escapePath p) = escapePath (tidyPath p)"
proof -
  obtain t where p: "p = CHR ''/'' # t" using assms by (cases p) auto
  have "cleanRooted (escapePath p) = escapePath (cleanRooted p)"
    using cleanSegments_escape [of "[]"] by (simp add: p cleanRooted_def splitOn_escape join_escape)
  then have c: "path_Clean (escapePath p) = escapePath (path_Clean p)"
    using p by (simp add: path_Clean_def)
  show ?thesis using c escape_last by (simp add: tidyPath_def Let_def)
qed

text \<open>The path of a location is cleaned under its encoding; the query stays.  A query of a request has no
  fragment, no blanks and no control bytes.\<close>

definition queryText :: "string \<Rightarrow> bool" where
  "queryText q \<longleftrightarrow>
     (q = [] \<or> q ! 0 = CHR ''?'') \<and>
     list_all (\<lambda>c. c \<noteq> CHR ''#'' \<and> 32 < (of_char c :: nat) \<and> (of_char c :: nat) < 127) q"

text \<open>A path that begins with one slash, not with two.\<close>

definition oneSlash :: "string \<Rightarrow> bool" where
  "oneSlash p \<longleftrightarrow> take 1 p = ''/'' \<and> take 2 p \<noteq> ''//''"

lemma cut_query:
  assumes "queryText q"
  shows "beforeQuery (escapePath p @ q) = escapePath p" "fromQuery (escapePath p @ q) = q"
proof -
  have "\<And>c. c \<in> set (escapePath p) \<Longrightarrow> c \<noteq> CHR ''?''" using escapePath_chars by blast
  moreover have "takeWhile (\<lambda>c. c \<noteq> CHR ''?'') q = []" "dropWhile (\<lambda>c. c \<noteq> CHR ''?'') q = q"
    using assms by (cases q; simp add: queryText_def)+
  ultimately show "beforeQuery (escapePath p @ q) = escapePath p" "fromQuery (escapePath p @ q) = q"
    by (simp_all add: beforeQuery_def fromQuery_def takeWhile_append2 dropWhile_append2)
qed

lemma resolveLocation_escape:
  assumes "queryText q" "p \<noteq> []" "p ! 0 = CHR ''/''"
  shows "resolveLocation old (escapePath p @ q) = escapePath (tidyPath p) @ q"
proof -
  have "escapePath p \<noteq> []" "escapePath p ! 0 = CHR ''/''" using escape_first assms(2,3) by blast+
  then have "\<not> (escapePath p @ q = [] \<or> (escapePath p @ q) ! 0 \<noteq> CHR ''/'')" by (simp add: nth_append)
  then show ?thesis
    unfolding resolveLocation_def Let_def if_not_P [OF \<open>\<not> (escapePath p @ q = [] \<or> (escapePath p @ q) ! 0 \<noteq> CHR ''/'')\<close>]
    using cut_query [OF assms(1)] tidyPath_escape [OF assms(2,3)] by simp
qed

lemma hexEscape_ascii: "ascii s \<Longrightarrow> hexEscapeNonASCII s = s"
  by (induction s) (simp_all add: hexEscapeNonASCII_def Let_def)

lemma escapePath_ascii: "ascii (escapePath s)"
  using escapePath_chars by (auto simp: ascii_def list_all_iff)

lemma URL_String_rooted:
  assumes "p \<noteq> []" "p ! 0 = CHR ''/''" "raw = [] \<or> unescapePath raw \<noteq> Some p"
  shows "URL_String raw p q = escapePath p @ q"
proof -
  obtain t where "p = CHR ''/'' # t" using assms(1,2) by (cases p) auto
  then show ?thesis using assms(3) by (auto simp: URL_String_def escapedPath_def)
qed

text \<open>Paths with one slash in front.\<close>

lemma oneSlash_rooted: "oneSlash p \<Longrightarrow> p \<noteq> [] \<and> p ! 0 = CHR ''/''"
  by (cases p) (auto simp: oneSlash_def)

lemma oneSlash_plain: "list_all plainSegment ss \<Longrightarrow> b \<longrightarrow> ss \<noteq> [] \<Longrightarrow> oneSlash (plainPath ss b)"
  using join_plain_last [of ss] join_plain_first [of ss]
  by (cases "ss = []"; cases "joinStrings ''/'' ss") (auto simp: oneSlash_def plainPath_def)

lemma oneSlash_tidy:
  assumes "oneSlash p"
  shows "oneSlash (tidyPath p)"
proof -
  obtain ss b where "list_all plainSegment ss" "b \<longrightarrow> ss \<noteq> []" "tidyPath p = plainPath ss b"
    using tidyPath_rooted [of p] oneSlash_rooted [OF assms] by blast
  then show ?thesis using oneSlash_plain by simp
qed

lemma oneSlash_escape: "oneSlash (escapePath p) \<longleftrightarrow> oneSlash p"
proof (cases p)
  case (Cons c t)
  have "take 1 (escapePath p) = ''/'' \<longleftrightarrow> c = CHR ''/''"
    using Cons by (auto simp: escapeByte_def pathByte_def)
  moreover have "take 2 (CHR ''/'' # escapePath t) = ''//'' \<longleftrightarrow> take 1 t = ''/''"
    by (cases t) (auto simp: escapeByte_def pathByte_def)
  ultimately show ?thesis using Cons by (auto simp: oneSlash_def)
qed (simp add: oneSlash_def)

lemma queryText_ascii: "queryText q \<Longrightarrow> ascii q"
  unfolding queryText_def ascii_def by (elim conjE) (erule list.pred_mono_strong, simp)

lemma tidyPath_tidy: "oneSlash p \<Longrightarrow> tidyPath (tidyPath p) = tidyPath p"
  using tidyPath_rooted [of p] oneSlash_rooted [of p] tidyPath_plain by metis

end
