(* ===== verification/Response.thy ===== *)
theory Response
  imports Http
begin

text \<open>
  The response writer of the program (\<^verbatim>\<open>response.go\<close>), over any \<^verbatim>\<open>http.ResponseWriter\<close>: the embedded
  interface is the arguments \<open>wh\<close> (\<^verbatim>\<open>WriteHeader\<close>) and \<open>wr\<close> (\<^verbatim>\<open>Write\<close>) of the operations.  The locale
  \<open>http_writer\<close> is the contract of such a writer; the program's writer keeps it (\<open>sublocale\<close>), so
  that writers nest.
\<close>

section \<open>State and operations\<close>

definition noStatus :: int where
  "noStatus = 0"

record 'w responseWriter =
  rwUnder :: 'w
  rwStatus :: int
  rwSize :: int
  rwSuppress :: bool

definition rw_reset :: "'w \<Rightarrow> 'w responseWriter \<Rightarrow> 'w responseWriter" where
  "rw_reset rw w = w\<lparr>rwUnder := rw, rwStatus := noStatus, rwSize := 0, rwSuppress := False\<rparr>"

definition rw_WriteHeader :: "(int \<Rightarrow> 'w \<Rightarrow> 'w) \<Rightarrow> int \<Rightarrow> 'w responseWriter \<Rightarrow> 'w responseWriter" where
  "rw_WriteHeader wh code w =
     (if rwStatus w \<noteq> noStatus then w
      else w\<lparr>rwStatus := code, rwUnder := wh code (rwUnder w)\<rparr>)"

definition rw_Write ::
    "(int \<Rightarrow> 'w \<Rightarrow> 'w) \<Rightarrow> (string \<Rightarrow> 'w \<Rightarrow> (nat \<times> goerr option) \<times> 'w) \<Rightarrow>
     string \<Rightarrow> 'w responseWriter \<Rightarrow> (nat \<times> goerr option) \<times> 'w responseWriter" where
  "rw_Write wh wr b w =
     (let w1 = (if rwStatus w = noStatus then rw_WriteHeader wh 200 w else w)
      in if rwSuppress w1 then ((length b, None), w1\<lparr>rwSize := rwSize w1 + int (length b)\<rparr>)
         else case wr b (rwUnder w1) of
                ((n, err), u) \<Rightarrow> ((n, err), w1\<lparr>rwUnder := u, rwSize := rwSize w1 + int n\<rparr>))"

text \<open>\<^verbatim>\<open>WriteString\<close> hands the string to \<^verbatim>\<open>io.WriteString\<close>, which is a \<^verbatim>\<open>Write\<close> of its bytes.\<close>

definition rw_WriteString ::
    "(int \<Rightarrow> 'w \<Rightarrow> 'w) \<Rightarrow> (string \<Rightarrow> 'w \<Rightarrow> (nat \<times> goerr option) \<times> 'w) \<Rightarrow>
     string \<Rightarrow> 'w responseWriter \<Rightarrow> (nat \<times> goerr option) \<times> 'w responseWriter" where
  "rw_WriteString wh wr s w =
     (let w1 = (if rwStatus w = noStatus then rw_WriteHeader wh 200 w else w)
      in if rwSuppress w1 then ((length s, None), w1\<lparr>rwSize := rwSize w1 + int (length s)\<rparr>)
         else case wr s (rwUnder w1) of
                ((n, err), u) \<Rightarrow> ((n, err), w1\<lparr>rwUnder := u, rwSize := rwSize w1 + int n\<rparr>))"

definition rw_Status :: "'w responseWriter \<Rightarrow> int" where
  "rw_Status w = rwStatus w"

definition rw_Size :: "'w responseWriter \<Rightarrow> int" where
  "rw_Size w = rwSize w"

definition rw_Written :: "'w responseWriter \<Rightarrow> bool" where
  "rw_Written w \<longleftrightarrow> rwStatus w \<noteq> noStatus"

definition rw_Unwrap :: "'w responseWriter \<Rightarrow> 'w" where
  "rw_Unwrap w = rwUnder w"

text \<open>Sequences of calls, as handlers make them.\<close>

datatype rwOp = OpWriteHeader int | OpWrite string | OpWriteString string

fun runOp ::
    "(int \<Rightarrow> 'w \<Rightarrow> 'w) \<Rightarrow> (string \<Rightarrow> 'w \<Rightarrow> (nat \<times> goerr option) \<times> 'w) \<Rightarrow>
     rwOp \<Rightarrow> 'w responseWriter \<Rightarrow> 'w responseWriter" where
  "runOp wh wr (OpWriteHeader code) w = rw_WriteHeader wh code w"
| "runOp wh wr (OpWrite b) w = snd (rw_Write wh wr b w)"
| "runOp wh wr (OpWriteString b) w = snd (rw_WriteString wh wr b w)"

definition runOps ::
    "(int \<Rightarrow> 'w \<Rightarrow> 'w) \<Rightarrow> (string \<Rightarrow> 'w \<Rightarrow> (nat \<times> goerr option) \<times> 'w) \<Rightarrow>
     rwOp list \<Rightarrow> 'w responseWriter \<Rightarrow> 'w responseWriter" where
  "runOps wh wr = fold (runOp wh wr)"

section \<open>The contract\<close>

text \<open>A writer with its start (\<open>started\<close>: the status line is out) and the number of body bytes it took:
  a header call leaves the body alone, a write starts the response, takes at most the bytes it is
  given, all of them unless it reports an error, and counts them.\<close>

locale http_writer =
  fixes wh :: "int \<Rightarrow> 'w \<Rightarrow> 'w"
    and wr :: "string \<Rightarrow> 'w \<Rightarrow> (nat \<times> goerr option) \<times> 'w"
    and started :: "'w \<Rightarrow> bool"
    and taken :: "'w \<Rightarrow> int"
  assumes wh_taken: "taken (wh code w) = taken w"
    and wh_started: "started w \<Longrightarrow> started (wh code w)"
    and wr_started: "started (snd (wr b w))"
    and wr_bound: "wr b w = ((n, err), w') \<Longrightarrow> n \<le> length b"
    and wr_all: "wr b w = ((n, None), w') \<Longrightarrow> n = length b"
    and wr_taken: "wr b w = ((n, err), w') \<Longrightarrow> taken w' = taken w + int n"
begin

lemma rw_WriteString_eq: "rw_WriteString wh wr = rw_Write wh wr"
  by (intro ext) (simp add: rw_WriteString_def rw_Write_def)

lemma rw_Write_cases:
  obtains (suppressed) "rwSuppress w"
      "rw_Write wh wr b w = ((length b, None), (if rwStatus w = noStatus then rw_WriteHeader wh 200 w else w)
         \<lparr>rwSize := rwSize w + int (length b)\<rparr>)"
    | (sent) n err u where "\<not> rwSuppress w"
      "wr b (rwUnder (if rwStatus w = noStatus then rw_WriteHeader wh 200 w else w)) = ((n, err), u)"
      "rw_Write wh wr b w = ((n, err), (if rwStatus w = noStatus then rw_WriteHeader wh 200 w else w)
         \<lparr>rwUnder := u, rwSize := rwSize w + int n\<rparr>)"
proof (cases "rwSuppress w")
  case True
  then show ?thesis
    by (intro suppressed) (auto simp: rw_Write_def rw_WriteHeader_def Let_def)
next
  case False
  then show ?thesis
    by (cases "wr b (rwUnder (if rwStatus w = noStatus then rw_WriteHeader wh 200 w else w))")
      (auto simp: rw_Write_def rw_WriteHeader_def Let_def intro: sent)
qed

text \<open>The size counts what the writer below took, unless the body is suppressed.\<close>

lemma rw_size_op:
  assumes "\<not> rwSuppress w"
  shows "rwSize (runOp wh wr op w) - taken (rwUnder (runOp wh wr op w)) =
      rwSize w - taken (rwUnder w) \<and> \<not> rwSuppress (runOp wh wr op w)"
proof -
  have h: "rwSize (rw_WriteHeader wh c w) = rwSize w" "taken (rwUnder (rw_WriteHeader wh c w)) = taken (rwUnder w)"
    "rwSuppress (rw_WriteHeader wh c w) = rwSuppress w" for c
    by (simp_all add: rw_WriteHeader_def wh_taken)
  have wr: "rwSize (snd (rw_Write wh wr b w)) - taken (rwUnder (snd (rw_Write wh wr b w))) =
      rwSize w - taken (rwUnder w) \<and> \<not> rwSuppress (snd (rw_Write wh wr b w))" for b
    by (cases rule: rw_Write_cases [of w b]) (use assms h in \<open>auto dest!: wr_taken split: if_splits\<close>)
  show ?thesis
    using wr h assms by (cases op) (simp_all add: rw_WriteString_eq)
qed

lemma rw_size:
  "\<not> rwSuppress w \<Longrightarrow> rwSize (runOps wh wr ops w) - taken (rwUnder (runOps wh wr ops w)) =
     rwSize w - taken (rwUnder w)"
proof (induction ops arbitrary: w)
  case (Cons op ops)
  then show ?case using rw_size_op [OF Cons.prems, of op] by (simp add: runOps_def)
qed (simp add: runOps_def)

end

section \<open>Nesting and the server's writer\<close>

lemma nested_writer:
  assumes "http_writer wh wr started taken"
  shows "http_writer (rw_WriteHeader wh) (rw_Write wh wr) rw_Written rwSize"
proof -
  note B = http_writer.wr_bound [OF assms] and A = http_writer.wr_all [OF assms]
  show ?thesis
    by unfold_locales
      (auto simp: rw_Write_def rw_WriteHeader_def rw_Written_def noStatus_def Let_def
        split: if_splits prod.splits dest: A B)
qed

interpretation std: http_writer std_WriteHeader std_Write "\<lambda>w. wSent w \<noteq> None" "\<lambda>w. int (length (wBody w))"
  by unfold_locales
    (auto simp: http_simps std_WriteHeader_sent informational_def std_Write_def Let_def
      split: if_splits option.splits)

interpretation nested: http_writer "rw_WriteHeader std_WriteHeader" "rw_Write std_WriteHeader std_Write"
    rw_Written rwSize
  by (rule nested_writer) unfold_locales

abbreviation stdOps :: "rwOp list \<Rightarrow> stdWriter responseWriter \<Rightarrow> stdWriter responseWriter" where
  "stdOps \<equiv> runOps std_WriteHeader std_Write"

text \<open>The status the calls ask for first.\<close>

fun firstStatus :: "rwOp list \<Rightarrow> int" where
  "firstStatus [] = 0"
| "firstStatus (OpWriteHeader code # ops) = code"
| "firstStatus (op # ops) = 200"

fun finalCode :: "rwOp \<Rightarrow> bool" where
  "finalCode (OpWriteHeader code) \<longleftrightarrow> code = 101 \<or> 200 \<le> code \<and> code \<le> 999"
| "finalCode _ \<longleftrightarrow> True"

definition settled :: "int \<Rightarrow> header \<Rightarrow> stdWriter responseWriter \<Rightarrow> bool" where
  "settled code h w \<longleftrightarrow> rwStatus w = code \<and> code \<noteq> 0 \<and> wSent (rwUnder w) = Some (code, h)"

lemma settled_op: "settled code h w \<Longrightarrow> settled code h (runOp std_WriteHeader std_Write op w)"
  by (cases op)
    (auto simp: settled_def rw_WriteHeader_def rw_Write_def std.rw_WriteString_eq noStatus_def Let_def
      split: prod.splits dest!: arg_cong [where f = "\<lambda>r. wSent (snd r)"] simp: http_simps)

lemma settled_ops: "settled code h w \<Longrightarrow> settled code h (stdOps ops w)"
  by (induction ops arbitrary: w) (auto simp: runOps_def settled_op)

lemma settles:
  assumes "rwStatus w = 0" "wSent (rwUnder w) = None" "finalCode op"
  shows "settled (firstStatus [op]) (wHeader (rwUnder w)) (runOp std_WriteHeader std_Write op w)"
  using assms
  by (cases op)
    (auto simp: settled_def rw_WriteHeader_def rw_Write_def std.rw_WriteString_eq noStatus_def Let_def
      std_WriteHeader_sent informational_def http_simps split: prod.splits
      dest!: arg_cong [where f = "\<lambda>r. wSent (snd r)"])

lemma status_from:
  assumes "rwStatus w = 0" "wSent (rwUnder w) = None" "list_all finalCode ops" "ops \<noteq> []"
  shows "settled (firstStatus ops) (wHeader (rwUnder w)) (stdOps ops w)"
proof (cases ops)
  case (Cons op rest)
  then have "firstStatus ops = firstStatus [op]" by (cases op) auto
  then show ?thesis
    using settles [of w op] settled_ops [of "firstStatus [op]" _ _ rest] assms Cons by (simp add: runOps_def)
qed (use assms in simp)

text \<open>HEAD: the same calls on a writer that discards the body.\<close>

definition headSim :: "stdWriter responseWriter \<Rightarrow> stdWriter responseWriter \<Rightarrow> bool" where
  "headSim w h \<longleftrightarrow>
     rwStatus h = rwStatus w \<and> wSent (rwUnder h) = wSent (rwUnder w) \<and>
     wHeader (rwUnder h) = wHeader (rwUnder w) \<and> \<not> rwSuppress w \<and> rwSuppress h \<and>
     wBody (rwUnder h) = [] \<and> wRoom (rwUnder w) = None \<and>
     (if rwStatus w = 0 then wSent (rwUnder w) = None \<and> rwSize h = rwSize w
      else \<exists>hd. wSent (rwUnder w) = Some (rwStatus w, hd) \<and> (bodyAllowed (rwStatus w) \<longrightarrow> rwSize h = rwSize w))"

lemma headSim_header:
  assumes "headSim w h" "finalCode (OpWriteHeader code)"
  shows "headSim (rw_WriteHeader std_WriteHeader code w) (rw_WriteHeader std_WriteHeader code h) \<and>
    rwStatus (rw_WriteHeader std_WriteHeader code w) \<noteq> 0"
  using assms
  by (auto simp: headSim_def rw_WriteHeader_def noStatus_def std_WriteHeader_sent informational_def http_simps
      split: if_splits)

lemma headSim_write:
  assumes "headSim w h"
  shows "headSim (snd (rw_Write std_WriteHeader std_Write b w)) (snd (rw_Write std_WriteHeader std_Write b h))"
proof -
  let ?s = "\<lambda>w. if rwStatus w = noStatus then rw_WriteHeader std_WriteHeader 200 w else w"
  have s: "headSim (?s w) (?s h)" "rwStatus (?s w) \<noteq> 0"
    using headSim_header [OF assms, of 200] assms by (auto simp: headSim_def noStatus_def)
  have "headSim (snd (let w1 = v in if rwSuppress w1 then ((length b, None), w1\<lparr>rwSize := rwSize w1 + int (length b)\<rparr>)
         else case std_Write b (rwUnder w1) of ((n, err), u) \<Rightarrow> ((n, err), w1\<lparr>rwUnder := u, rwSize := rwSize w1 + int n\<rparr>)))
       (snd (let w1 = g in if rwSuppress w1 then ((length b, None), w1\<lparr>rwSize := rwSize w1 + int (length b)\<rparr>)
         else case std_Write b (rwUnder w1) of ((n, err), u) \<Rightarrow> ((n, err), w1\<lparr>rwUnder := u, rwSize := rwSize w1 + int n\<rparr>)))"
    if "headSim v g" "rwStatus v \<noteq> 0" for v g
    using that by (auto simp: headSim_def std_Write_def Let_def)
  from this [OF s] show ?thesis
    unfolding rw_Write_def by (simp add: Let_def)
qed

lemma headSim_ops:
  "headSim w h \<Longrightarrow> list_all finalCode ops \<Longrightarrow> headSim (stdOps ops w) (stdOps ops h)"
proof (induction ops arbitrary: w h)
  case (Cons op ops)
  then have "headSim (runOp std_WriteHeader std_Write op w) (runOp std_WriteHeader std_Write op h)"
    using headSim_header headSim_write by (cases op) (auto simp: std.rw_WriteString_eq)
  with Cons show ?case by (simp add: runOps_def)
qed (simp add: runOps_def)

section \<open>Properties\<close>

text \<open>A writer out of the pool, as its last request left it.\<close>

definition recycled :: "stdWriter responseWriter" where
  "recycled = \<lparr>rwUnder = freshWriter, rwStatus = 404, rwSize = 9, rwSuppress = True\<rparr>"

text \<open>The recorded size is the number of body bytes on the wire: after any calls on a fresh
  writer, short and failed writes included.\<close>

theorem size_counts_bytes:
  "rwSize (stdOps ops (rw_reset freshWriter w)) = int (length (wBody (rwUnder (stdOps ops (rw_reset freshWriter w)))))"
  using std.rw_size [of "rw_reset freshWriter w" ops] by (simp add: rw_reset_def freshWriter_def)

text \<open>The first call decides the status: whatever calls follow, the status line that was sent and
  the recorded status are the first code (200 where the first call is a write), with the headers set
  when it was sent.\<close>

theorem first_status_wins:
  assumes "wSent u = None" "list_all finalCode ops" "ops \<noteq> []"
  shows "rw_Status (stdOps ops (rw_reset u w)) = firstStatus ops \<and> rw_Written (stdOps ops (rw_reset u w)) \<and>
    wSent (rw_Unwrap (stdOps ops (rw_reset u w))) = Some (firstStatus ops, wHeader u)"
  using status_from [of "rw_reset u w" ops] assms
  by (simp add: settled_def rw_reset_def noStatus_def rw_Status_def rw_Written_def rw_Unwrap_def)

theorem first_status_wins_witness:
  "rw_Status (stdOps [OpWriteHeader 404, OpWrite ''x'', OpWriteHeader 200] (rw_reset freshWriter recycled)) = 404"
  using first_status_wins [of freshWriter "[OpWriteHeader 404, OpWrite ''x'', OpWriteHeader 200]" recycled]
  by (simp add: freshWriter_def)

text \<open>C36. Answering HEAD with the GET handler: the same calls, none of them with an informational status
  code, on a writer that suppresses the body send the same status line and headers and no body, and they
  record the same size if the status sent allows a body.\<close>

theorem head_is_get_without_body:
  assumes "list_all finalCode ops" "w = stdOps ops (rw_reset freshWriter v)"
    and "h = stdOps ops ((rw_reset freshWriter v)\<lparr>rwSuppress := True\<rparr>)"
  shows "rwStatus h = rwStatus w \<and> wSent (rwUnder h) = wSent (rwUnder w) \<and> wBody (rwUnder h) = [] \<and>
    (bodyAllowed (rwStatus w) \<longrightarrow> rwSize h = rwSize w)"
proof -
  have "headSim (rw_reset freshWriter v) ((rw_reset freshWriter v)\<lparr>rwSuppress := True\<rparr>)"
    by (simp add: headSim_def rw_reset_def freshWriter_def noStatus_def)
  from headSim_ops [OF this assms(1)] show ?thesis
    unfolding assms(2,3) headSim_def
    by (cases "rwStatus (stdOps ops (rw_reset freshWriter v)) = 0") auto
qed

theorem head_is_get_without_body_witness:
  "wBody (rwUnder (stdOps [OpWriteHeader 201, OpWrite ''made''] ((rw_reset freshWriter recycled)\<lparr>rwSuppress := True\<rparr>))) = []"
  using head_is_get_without_body [OF _ refl refl, of "[OpWriteHeader 201, OpWrite ''made'']" recycled] by simp

text \<open>An informational code counts as the first one: the final status of the handler is not sent, and
  the client gets 200.\<close>

lemma early_hints_swallow_status:
  "rwStatus (stdOps [OpWriteHeader 103, OpWriteHeader 404, OpWrite ''x''] (rw_reset freshWriter w)) = 103"
  "map_option fst (wSent (rwUnder (stdOps [OpWriteHeader 103, OpWriteHeader 404, OpWrite ''x''] (rw_reset freshWriter w)))) =
     Some 200"
  by (simp_all add: runOps_def rw_reset_def freshWriter_def rw_WriteHeader_def rw_Write_def noStatus_def
      std_WriteHeader_def std_Write_def informational_def Let_def split: prod.splits)

end
