(* ===== verification/Chain.thy ===== *)
theory Chain
  imports Errors
begin

text \<open>
  The handler chain: \<^verbatim>\<open>Context.Next\<close>, \<^verbatim>\<open>Abort\<close>, \<^verbatim>\<open>IsAborted\<close> (\<^verbatim>\<open>context.go\<close>).

  A handler is an arbitrary Go function on the context.  What the chain can see of one is a program
  (\<open>hprog\<close>): it returns an error or nil, panics, changes the context and goes on, aborts the chain,
  asks whether the chain is aborted, or calls \<^verbatim>\<open>Next\<close> and goes on with the outcome (a panic too, which
  a deferred function may recover).  The rest of the context is the type variable \<open>'c\<close>; the field
  \<^verbatim>\<open>index\<close>, which only these methods touch, is kept beside it.  A program is finite along every branch:
  a handler that loops on its own is not modelled.

  \<^verbatim>\<open>Next\<close> is a loop over an index that the handlers it runs move too, by nested calls and by \<^verbatim>\<open>Abort\<close>;
  it takes fuel, and \<open>Next_total\<close> shows that one unit for each remaining handler and one for the exit
  are enough.  Chains are shorter than \<open>abortIndex = 2 ^ 30\<close>.
\<close>

datatype 'c hprog =
    Return "goerr option"
  | Raise pval
  | Effect "'c \<Rightarrow> 'c" "'c \<Rightarrow> 'c hprog"
  | DoAbort "'c hprog"
  | AskAborted "bool \<Rightarrow> 'c hprog"
  | CallNext "pval + goerr option \<Rightarrow> 'c hprog"

record 'c cstate =
  cctx :: 'c
  cindex :: int

type_synonym 'c result = "(pval + goerr option) \<times> 'c cstate"

definition abortIndex :: int where
  "abortIndex = 2 ^ 30"

definition Abort :: "'c cstate \<Rightarrow> 'c cstate" where
  "Abort s = s\<lparr>cindex := abortIndex\<rparr>"

definition IsAborted :: "'c cstate \<Rightarrow> bool" where
  "IsAborted s \<longleftrightarrow> abortIndex \<le> cindex s"

text \<open>Running a program: \<open>nxt\<close> is what a call of \<^verbatim>\<open>Next\<close> does, \<open>None\<close> when it runs out of fuel.\<close>

primrec exec :: "('c cstate \<Rightarrow> 'c result option) \<Rightarrow> 'c hprog \<Rightarrow> 'c cstate \<Rightarrow> 'c result option" where
  "exec nxt (Return e) s = Some (Inr e, s)"
| "exec nxt (Raise v) s = Some (Inl v, s)"
| "exec nxt (Effect f k) s = exec nxt (k (cctx s)) (s\<lparr>cctx := f (cctx s)\<rparr>)"
| "exec nxt (DoAbort p) s = exec nxt p (Abort s)"
| "exec nxt (AskAborted k) s = exec nxt (k (IsAborted s)) s"
| "exec nxt (CallNext k) s =
     (case nxt s of None \<Rightarrow> None | Some (out, s') \<Rightarrow> exec nxt (k out) s')"

definition advance :: "'c cstate \<Rightarrow> 'c cstate" where
  "advance s = s\<lparr>cindex := cindex s + 1\<rparr>"

text \<open>The loop of \<^verbatim>\<open>Next\<close>, and \<^verbatim>\<open>Next\<close>: an increment, then the loop.  A panic of the handler passes
  through.\<close>

fun nextLoop :: "nat \<Rightarrow> 'c hprog list \<Rightarrow> 'c cstate \<Rightarrow> 'c result option" where
  "nextLoop 0 hs s = None"
| "nextLoop (Suc fuel) hs s =
     (if int (length hs) \<le> cindex s then Some (Inr None, s)
      else if cindex s < 0 then Some (Inl (PError ''index out of range''), s)
      else
        case exec (\<lambda>t. nextLoop fuel hs (advance t)) (hs ! nat (cindex s)) s of
          None \<Rightarrow> None
        | Some (Inl v, s') \<Rightarrow> Some (Inl v, s')
        | Some (Inr (Some err), s') \<Rightarrow> Some (Inr (Some err), s')
        | Some (Inr None, s') \<Rightarrow> nextLoop fuel hs (advance s'))"

definition NextFuel :: "nat \<Rightarrow> 'c hprog list \<Rightarrow> 'c cstate \<Rightarrow> 'c result option" where
  "NextFuel fuel hs s = nextLoop fuel hs (advance s)"

definition Next :: "'c hprog list \<Rightarrow> 'c cstate \<Rightarrow> 'c result option" where
  "Next hs s = NextFuel (nat (int (length hs) - cindex s) + 1) hs s"

section \<open>The index only grows\<close>

lemma advance_simps [simp]: "cindex (advance s) = cindex s + 1" "cctx (advance s) = cctx s"
  by (simp_all add: advance_def)

lemma Abort_simps [simp]: "cindex (Abort s) = abortIndex" "cctx (Abort s) = cctx s"
  by (simp_all add: Abort_def)

text \<open>An index at most \<open>abortIndex\<close> or past it: \<^verbatim>\<open>Abort\<close> itself may lower an index that is past it.\<close>

definition capped :: "int \<Rightarrow> int" where
  "capped i = min i abortIndex"

definition growsTo :: "('c cstate \<Rightarrow> 'c result option) \<Rightarrow> bool" where
  "growsTo nxt \<longleftrightarrow> (\<forall>s out s'. nxt s = Some (out, s') \<longrightarrow> capped (cindex s) \<le> capped (cindex s'))"

lemma exec_grows: "growsTo nxt \<Longrightarrow> exec nxt p s = Some (out, s') \<Longrightarrow> capped (cindex s) \<le> capped (cindex s')"
proof (induction p arbitrary: s)
  case (DoAbort p)
  then show ?case by (fastforce simp: capped_def)
next
  case (CallNext k)
  then obtain o1 s1 where n: "nxt s = Some (o1, s1)" "exec nxt (k o1) s1 = Some (out, s')"
    by (auto split: option.splits)
  then have "capped (cindex s) \<le> capped (cindex s1)"
    using CallNext.prems(1) by (auto simp: growsTo_def)
  moreover have "capped (cindex s1) \<le> capped (cindex s')"
    using CallNext.IH [OF _ CallNext.prems(1) n(2)] by simp
  ultimately show ?case by simp
qed fastforce+

lemma capped_advance: "capped (cindex s) \<le> capped (cindex (advance s))"
  by (simp add: capped_def)

lemma nextLoop_grows: "nextLoop fuel hs s = Some (out, s') \<Longrightarrow> capped (cindex s) \<le> capped (cindex s')"
proof (induction fuel arbitrary: s out s')
  case (Suc fuel)
  let ?nxt = "\<lambda>t. nextLoop fuel hs (advance t)"
  have g: "growsTo ?nxt"
    unfolding growsTo_def using Suc.IH capped_advance order_trans by blast
  show ?case
  proof (cases "0 \<le> cindex s \<and> cindex s < int (length hs)")
    case True
    then obtain o1 s1 where e: "exec ?nxt (hs ! nat (cindex s)) s = Some (o1, s1)"
      using Suc.prems by (auto split: option.splits)
    have s1: "capped (cindex s) \<le> capped (cindex s1)" by (rule exec_grows [OF g e])
    show ?thesis
    proof (cases "o1 = Inr None")
      case True
      then have "nextLoop fuel hs (advance s1) = Some (out, s')"
        using Suc.prems e \<open>0 \<le> cindex s \<and> cindex s < int (length hs)\<close> by simp
      then have "capped (cindex (advance s1)) \<le> capped (cindex s')" by (rule Suc.IH)
      then show ?thesis using s1 capped_advance [of s1] by linarith
    next
      case False
      then have "s' = s1"
        using Suc.prems e \<open>0 \<le> cindex s \<and> cindex s < int (length hs)\<close>
        by (auto split: sum.splits option.splits)
      then show ?thesis using s1 by simp
    qed
  qed (use Suc.prems in \<open>auto split: if_splits\<close>)
qed simp

section \<open>Fuel\<close>

lemma exec_mono:
  "(\<And>t r. nxt t = Some r \<Longrightarrow> nxt' t = Some r) \<Longrightarrow> exec nxt p s = Some r \<Longrightarrow> exec nxt' p s = Some r"
proof (induction p arbitrary: s)
  case (CallNext k)
  then obtain o1 s1 where "nxt s = Some (o1, s1)" "exec nxt (k o1) s1 = Some r"
    by (auto split: option.splits)
  with CallNext show ?case by fastforce
qed fastforce+

lemma nextLoop_Suc: "nextLoop fuel hs s = Some r \<Longrightarrow> nextLoop (Suc fuel) hs s = Some r"
proof (induction fuel arbitrary: s r)
  case (Suc fuel)
  show ?case
  proof (cases "0 \<le> cindex s \<and> cindex s < int (length hs)")
    case True
    then obtain o1 s1 where e: "exec (\<lambda>t. nextLoop fuel hs (advance t)) (hs ! nat (cindex s)) s = Some (o1, s1)"
      using Suc.prems by (auto split: option.splits)
    have "exec (\<lambda>t. nextLoop (Suc fuel) hs (advance t)) (hs ! nat (cindex s)) s = Some (o1, s1)"
      by (rule exec_mono [OF Suc.IH e])
    with e True show ?thesis
      using Suc.prems Suc.IH
      by (auto simp del: nextLoop.simps simp: nextLoop.simps(2) [of "Suc fuel"] nextLoop.simps(2) [of fuel hs s]
          split: sum.splits option.splits)
  qed (use Suc.prems in \<open>auto split: if_splits\<close>)
qed simp

lemma nextLoop_mono: "nextLoop fuel hs s = Some r \<Longrightarrow> fuel \<le> fuel' \<Longrightarrow> nextLoop fuel' hs s = Some r"
proof (induction fuel')
  case (Suc fuel')
  then show ?case using nextLoop_Suc le_Suc_eq by metis
qed simp

lemma nextLoop_unique:
  "nextLoop f hs s = Some r \<Longrightarrow> nextLoop g hs s = Some r' \<Longrightarrow> r = r'"
  using nextLoop_mono [of f hs s r "max f g"] nextLoop_mono [of g hs s r' "max f g"] by simp

text \<open>A program ends when the calls of \<^verbatim>\<open>Next\<close> it can make end.\<close>

lemma exec_total:
  assumes "growsTo nxt" "\<And>t. i \<le> capped (cindex t) \<Longrightarrow> nxt t \<noteq> None"
  shows "i \<le> capped (cindex s) \<Longrightarrow> exec nxt p s \<noteq> None"
proof (induction p arbitrary: s)
  case (DoAbort p)
  have "i \<le> capped (cindex (Abort s))" using DoAbort.prems by (simp add: capped_def)
  then show ?case using DoAbort.IH by simp
next
  case (CallNext k)
  then obtain o1 s1 where n: "nxt s = Some (o1, s1)" using assms(2) by fastforce
  then have "capped (cindex s) \<le> capped (cindex s1)" using assms(1) by (auto simp: growsTo_def)
  then show ?case using n CallNext by auto
qed simp_all

lemma growsTo_loop: "growsTo (\<lambda>t. nextLoop fuel hs (advance t))"
  unfolding growsTo_def using nextLoop_grows capped_advance order_trans by blast

lemma nextLoop_total:
  assumes "int (length hs) \<le> abortIndex"
  shows "int (length hs) - cindex s < int fuel \<Longrightarrow> 0 < fuel \<Longrightarrow> nextLoop fuel hs s \<noteq> None"
proof (induction fuel arbitrary: s)
  case (Suc fuel)
  show ?case
  proof (cases "0 \<le> cindex s \<and> cindex s < int (length hs)")
    case True
    then have c: "capped (cindex s) = cindex s" using assms by (simp add: capped_def)
    have n: "nextLoop fuel hs (advance t) \<noteq> None" if "cindex s \<le> capped (cindex t)" for t
      using that True Suc.prems Suc.IH [of "advance t"] by (simp add: capped_def)
    have "exec (\<lambda>t. nextLoop fuel hs (advance t)) (hs ! nat (cindex s)) s \<noteq> None"
      by (rule exec_total [where i = "cindex s", OF growsTo_loop n]) (simp_all add: c)
    then obtain o1 s1 where e: "exec (\<lambda>t. nextLoop fuel hs (advance t)) (hs ! nat (cindex s)) s = Some (o1, s1)"
      by auto
    have "nextLoop fuel hs (advance s1) \<noteq> None"
      using n exec_grows [OF growsTo_loop e] c by simp
    with e True show ?thesis by (auto split: sum.splits option.splits)
  qed auto
qed simp

lemma Next_total:
  assumes "int (length hs) \<le> abortIndex"
  shows "\<exists>out s'. Next hs s = Some (out, s')"
proof -
  have "nextLoop (nat (int (length hs) - cindex s) + 1) hs (advance s) \<noteq> None"
    by (rule nextLoop_total [OF assms]) simp_all
  then show ?thesis by (simp add: Next_def NextFuel_def)
qed

lemma Next_fuel:
  assumes "int (length hs) \<le> abortIndex" "NextFuel fuel hs s = Some r"
  shows "Next hs s = Some r"
proof -
  obtain q where q: "Next hs s = Some q" using Next_total [OF assms(1)] by force
  then have "q = r" using nextLoop_unique assms(2) unfolding Next_def NextFuel_def by blast
  with q show ?thesis by simp
qed

text \<open>The equation of \<^verbatim>\<open>Next\<close> without fuel.\<close>

lemma Next_unfold:
  assumes "int (length hs) \<le> abortIndex"
  shows "Next hs s =
     (if int (length hs) \<le> cindex s + 1 then Some (Inr None, advance s)
      else if cindex s + 1 < 0 then Some (Inl (PError ''index out of range''), advance s)
      else
        case exec (Next hs) (hs ! nat (cindex s + 1)) (advance s) of
          None \<Rightarrow> None
        | Some (Inr None, s') \<Rightarrow> Next hs s'
        | Some (out, s') \<Rightarrow> Some (out, s'))"
proof (cases "0 \<le> cindex s + 1 \<and> cindex s + 1 < int (length hs)")
  case True
  let ?f = "nat (int (length hs) - cindex s)"
  obtain r where r: "Next hs s = Some r" using Next_total [OF assms] by force
  then have u: "nextLoop (Suc ?f) hs (advance s) = Some r" by (simp add: Next_def NextFuel_def)
  then obtain o1 s1 where e: "exec (\<lambda>t. nextLoop ?f hs (advance t)) (hs ! nat (cindex s + 1)) (advance s) = Some (o1, s1)"
    using True by (auto split: option.splits)
  have x: "exec (Next hs) (hs ! nat (cindex s + 1)) (advance s) = Some (o1, s1)"
    by (rule exec_mono [OF _ e]) (rule Next_fuel [OF assms], simp add: NextFuel_def)
  show ?thesis
  proof (cases "o1 = Inr None")
    case True
    then have "nextLoop ?f hs (advance s1) = Some r"
      using u e \<open>0 \<le> cindex s + 1 \<and> cindex s + 1 < int (length hs)\<close> by simp
    then have "Next hs s1 = Some r" by (intro Next_fuel [OF assms]) (simp add: NextFuel_def)
    then show ?thesis using True x r \<open>0 \<le> cindex s + 1 \<and> cindex s + 1 < int (length hs)\<close> by simp
  next
    case False
    then have "r = (o1, s1)"
      using u e \<open>0 \<le> cindex s + 1 \<and> cindex s + 1 < int (length hs)\<close> by (auto split: sum.splits option.splits)
    then show ?thesis
      using False x r \<open>0 \<le> cindex s + 1 \<and> cindex s + 1 < int (length hs)\<close> by (auto split: sum.splits option.splits)
  qed
qed (auto simp: Next_def NextFuel_def)

section \<open>What a call of \<open>Next\<close> depends on\<close>

lemma growsTo_Next: "growsTo (Next hs)"
  unfolding growsTo_def Next_def NextFuel_def using nextLoop_grows capped_advance order_trans by blast

lemma exec_cong_from:
  assumes "growsTo nxt" "\<And>t. i \<le> capped (cindex t) \<Longrightarrow> nxt t = nxt' t"
  shows "i \<le> abortIndex \<Longrightarrow> i \<le> capped (cindex s) \<Longrightarrow> exec nxt p s = exec nxt' p s"
proof (induction p arbitrary: s)
  case (DoAbort p)
  then show ?case by (simp add: capped_def)
next
  case (CallNext k)
  have n: "nxt s = nxt' s" using assms(2) CallNext.prems by simp
  show ?case
  proof (cases "nxt s")
    case (Some r)
    obtain o1 s1 where r: "r = (o1, s1)" by force
    then have "i \<le> capped (cindex s1)"
      using assms(1) Some CallNext.prems by (fastforce simp: growsTo_def)
    then have "exec nxt (k o1) s1 = exec nxt' (k o1) s1"
      using CallNext.IH CallNext.prems(1) by simp
    then show ?thesis using Some r n [symmetric] by simp
  qed (use n [symmetric] in simp)
qed simp_all

lemma nextLoop_frame:
  assumes "int (length hs) \<le> abortIndex" "length hs' = length hs" "i \<le> length hs"
    and "\<And>j. i \<le> j \<Longrightarrow> j < length hs \<Longrightarrow> hs ! j = hs' ! j"
  shows "int i \<le> capped (cindex s) \<Longrightarrow> nextLoop fuel hs s = nextLoop fuel hs' s"
proof (induction fuel arbitrary: s)
  case (Suc fuel)
  let ?nxt = "\<lambda>hs t. nextLoop fuel hs (advance t)"
  have adv: "?nxt hs t = ?nxt hs' t" if "int i \<le> capped (cindex t)" for t
    using that capped_advance [of t] by (intro Suc.IH) simp
  show ?case
  proof (cases "0 \<le> cindex s \<and> cindex s < int (length hs)")
    case True
    then have j: "i \<le> nat (cindex s)" "nat (cindex s) < length hs"
      using Suc.prems by (auto simp: capped_def)
    have e: "exec (?nxt hs) (hs ! nat (cindex s)) s = exec (?nxt hs') (hs' ! nat (cindex s)) s"
      unfolding assms(4) [OF j]
      by (rule exec_cong_from [where i = "int i", OF growsTo_loop adv]) (use Suc.prems assms in auto)
    have "nextLoop fuel hs (advance s1) = nextLoop fuel hs' (advance s1)"
      if "exec (?nxt hs) (hs ! nat (cindex s)) s = Some (o1, s1)" for o1 s1
      using exec_grows [OF growsTo_loop that] Suc.prems by (intro adv) simp
    with e True assms(2) show ?thesis
      by (auto split: option.splits sum.splits simp del: nextLoop.simps simp: nextLoop.simps(2))
  qed (use assms(2) in auto)
qed simp

lemma Next_aborted:
  "int (length hs) \<le> abortIndex \<Longrightarrow> IsAborted s \<Longrightarrow> Next hs s = Some (Inr None, advance s)"
  by (simp add: Next_def NextFuel_def IsAborted_def)

lemma exec_aborted:
  assumes "int (length hs) \<le> abortIndex" "IsAborted s"
  shows "exec (Next hs) p s = exec (Next []) p s"
proof (rule exec_cong_from [where i = abortIndex, OF growsTo_Next])
  fix t :: "'a cstate"
  assume "abortIndex \<le> capped (cindex t)"
  then have "IsAborted t" by (simp add: capped_def IsAborted_def)
  moreover have "0 \<le> abortIndex" by (simp add: abortIndex_def)
  ultimately show "Next hs t = Next [] t" using assms(1) by (simp add: Next_aborted)
qed (use assms in \<open>simp_all add: capped_def IsAborted_def\<close>)

lemma IsAborted_exec: "IsAborted s \<Longrightarrow> exec (Next hs) p s = Some (out, s') \<Longrightarrow> IsAborted s'"
  using exec_grows [OF growsTo_Next] by (fastforce simp: IsAborted_def capped_def)

text \<open>Running out of handlers.\<close>

lemma Next_end: "int (length hs) \<le> cindex s + 1 \<Longrightarrow> Next hs s = Some (Inr None, advance s)"
  by (simp add: Next_def NextFuel_def)

section \<open>Middleware\<close>

text \<open>A middleware that works before and after the rest of the chain and returns its error.\<close>

definition around :: "('c \<Rightarrow> 'c) \<Rightarrow> ('c \<Rightarrow> 'c) \<Rightarrow> 'c hprog" where
  "around pre post =
     Effect pre (\<lambda>_. CallNext (\<lambda>out. case out of Inl v \<Rightarrow> Raise v | Inr err \<Rightarrow> Effect post (\<lambda>_. Return err)))"

definition leaf :: "('c \<Rightarrow> 'c) \<Rightarrow> goerr option \<Rightarrow> 'c hprog" where
  "leaf act err = Effect act (\<lambda>_. Return err)"

fun onion :: "(('c \<Rightarrow> 'c) \<times> ('c \<Rightarrow> 'c)) list \<Rightarrow> ('c \<Rightarrow> 'c) \<Rightarrow> 'c \<Rightarrow> 'c" where
  "onion [] act c = act c"
| "onion ((pre, post) # ms) act c = post (onion ms act (pre c))"

lemma Next_onion:
  assumes "hs = map (\<lambda>m. around (fst m) (snd m)) ms @ [leaf act err]" "int (length hs) \<le> abortIndex"
  shows "k \<le> length ms \<Longrightarrow> cindex s = int k - 1 \<Longrightarrow>
     \<exists>s'. Next hs s = Some (Inr err, s') \<and> cctx s' = onion (drop k ms) act (cctx s) \<and> int (length hs) \<le> cindex s' + 1"
proof (induction "length ms - k" arbitrary: k s)
  case 0
  then have h: "hs ! nat (cindex s + 1) = leaf act err" "cindex s + 1 = int (length ms)"
    using assms(1) by (simp_all add: nth_append)
  then show ?case
    using Next_unfold [OF assms(2), of s] 0 assms(1) by (cases err) (simp_all add: leaf_def Next_end)
next
  case (Suc d)
  then have k: "k < length ms" by simp
  let ?t = "advance s\<lparr>cctx := fst (ms ! k) (cctx s)\<rparr>"
  have "d = length ms - Suc k" using Suc.hyps(2) by simp
  from Suc.hyps(1) [OF this, of ?t] obtain s1 where s1: "Next hs ?t = Some (Inr err, s1)"
    "cctx s1 = onion (drop (Suc k) ms) act (fst (ms ! k) (cctx s))" "int (length hs) \<le> cindex s1 + 1"
    using k Suc.prems(2) by auto
  have h: "hs ! nat (cindex s + 1) = around (fst (ms ! k)) (snd (ms ! k))"
    using assms(1) k Suc.prems(2) by (simp add: nth_append)
  let ?s2 = "s1\<lparr>cctx := snd (ms ! k) (cctx s1)\<rparr>"
  have x: "exec (Next hs) (hs ! nat (cindex s + 1)) (advance s) = Some (Inr err, ?s2)"
    using s1(1) by (simp add: h around_def)
  have on: "onion (drop k ms) act (cctx s) = snd (ms ! k) (onion (drop (Suc k) ms) act (fst (ms ! k) (cctx s)))"
    using Cons_nth_drop_Suc [OF k] by (cases "ms ! k") (metis fst_conv onion.simps(2) snd_conv)
  have lt: "\<not> int (length hs) \<le> cindex s + 1" "\<not> cindex s + 1 < 0"
    using k Suc.prems(2) assms(1) by simp_all
  show ?case
    using Next_unfold [OF assms(2), of s] x lt s1(2,3) on
    by (cases err) (simp_all add: Next_end)
qed

section \<open>Which handlers run\<close>

text \<open>A chain that writes down which of its handlers start: the number of a handler is put at the end of
  a list beside the context, which the handlers do not see.\<close>

primrec beside :: "'c hprog \<Rightarrow> (nat list \<times> 'c) hprog" where
  "beside (Return e) = Return e"
| "beside (Raise v) = Raise v"
| "beside (Effect f k) = Effect (\<lambda>tc. (fst tc, f (snd tc))) (\<lambda>tc. beside (k (snd tc)))"
| "beside (DoAbort p) = DoAbort (beside p)"
| "beside (AskAborted k) = AskAborted (\<lambda>b. beside (k b))"
| "beside (CallNext k) = CallNext (\<lambda>out. beside (k out))"

definition traced :: "nat \<Rightarrow> 'c hprog \<Rightarrow> (nat list \<times> 'c) hprog" where
  "traced i p = Effect (\<lambda>tc. (fst tc @ [i], snd tc)) (\<lambda>_. beside p)"

definition tracedChain :: "'c hprog list \<Rightarrow> (nat list \<times> 'c) hprog list" where
  "tracedChain hs = map (\<lambda>i. traced i (hs ! i)) [0..<length hs]"

definition untraced :: "(nat list \<times> 'c) cstate \<Rightarrow> 'c cstate" where
  "untraced s = \<lparr>cctx = snd (cctx s), cindex = cindex s\<rparr>"

abbreviation untracedResult :: "(nat list \<times> 'c) result option \<Rightarrow> 'c result option" where
  "untracedResult r \<equiv> map_option (\<lambda>(out, s). (out, untraced s)) r"

lemma length_tracedChain [simp]: "length (tracedChain hs) = length hs"
  by (simp add: tracedChain_def)

lemma nth_tracedChain: "i < length hs \<Longrightarrow> tracedChain hs ! i = traced i (hs ! i)"
  by (simp add: tracedChain_def)

text \<open>Without the list the traced chain is the chain.\<close>

lemma untraced_simps [simp]:
  "untraced (Abort s) = Abort (untraced s)" "untraced (advance s) = advance (untraced s)"
  "IsAborted (untraced s) = IsAborted s" "cindex (untraced s) = cindex s" "cctx (untraced s) = snd (cctx s)"
  "untraced (s\<lparr>cctx := tc\<rparr>) = (untraced s)\<lparr>cctx := snd tc\<rparr>"
  by (simp_all add: untraced_def Abort_def advance_def IsAborted_def)

lemma untraced_back [simp]: "(untraced s)\<lparr>cctx := snd (cctx s)\<rparr> = untraced s"
  by (simp add: untraced_def)

lemma exec_beside:
  assumes "\<And>s. nxt' (untraced s) = untracedResult (nxt s)"
  shows "exec nxt' p (untraced s) = untracedResult (exec nxt (beside p) s)"
proof (induction p arbitrary: s)
  case (Effect f k)
  then show ?case
    using Effect.IH [OF rangeI, of "snd (cctx s)" "s\<lparr>cctx := (fst (cctx s), f (snd (cctx s)))\<rparr>"] by simp
next
  case (DoAbort p)
  show ?case using DoAbort.IH [of "Abort s"] by simp
next
  case (CallNext k)
  then show ?case by (cases "nxt s") (auto simp: assms split: prod.splits)
qed simp_all

lemma exec_traced:
  assumes "\<And>s. nxt' (untraced s) = untracedResult (nxt s)"
  shows "exec nxt' p (untraced s) = untracedResult (exec nxt (traced i p) s)"
  using exec_beside [where nxt = nxt and nxt' = nxt', OF assms, of p "s\<lparr>cctx := (fst (cctx s) @ [i], snd (cctx s))\<rparr>"]
  by (simp add: traced_def)

lemma nextLoop_traced:
  "nextLoop fuel hs (untraced s) = untracedResult (nextLoop fuel (tracedChain hs) s)"
proof (induction fuel arbitrary: s)
  case (Suc fuel)
  show ?case
  proof (cases "0 \<le> cindex s \<and> cindex s < int (length hs)")
    case True
    let ?i = "nat (cindex s)"
    have "exec (\<lambda>t. nextLoop fuel hs (advance t)) (hs ! ?i) (untraced s) =
        untracedResult (exec (\<lambda>t. nextLoop fuel (tracedChain hs) (advance t)) (traced ?i (hs ! ?i)) s)"
      by (rule exec_traced) (simp add: Suc.IH [symmetric])
    then show ?thesis
      using True by (auto simp: nth_tracedChain Suc.IH [symmetric] split: option.splits sum.splits)
  qed auto
qed simp

lemma Next_traced: "Next hs (untraced s) = untracedResult (Next (tracedChain hs) s)"
  using nextLoop_traced [of _ hs "advance s"]
  by (simp add: Next_def NextFuel_def del: nextLoop.simps)

text \<open>From \<open>s\<close> to \<open>s'\<close> only handlers from the index \<open>lo\<close> on start, in the order of the chain, and none
  behind the index reached.\<close>

definition startsFrom :: "nat \<Rightarrow> int \<Rightarrow> (nat list \<times> 'c) cstate \<Rightarrow> (nat list \<times> 'c) cstate \<Rightarrow> bool" where
  "startsFrom n lo s s' \<longleftrightarrow>
     capped (cindex s) \<le> capped (cindex s') \<and>
     (\<exists>runs. fst (cctx s') = fst (cctx s) @ runs \<and> sorted_wrt (<) runs \<and>
        (\<forall>i\<in>set runs. i < n \<and> lo \<le> int i \<and> int i \<le> capped (cindex s')))"

abbreviation startsBehind :: "nat \<Rightarrow> (nat list \<times> 'c) cstate \<Rightarrow> (nat list \<times> 'c) cstate \<Rightarrow> bool" where
  "startsBehind n s s' \<equiv> startsFrom n (capped (cindex s) + 1) s s'"

lemma startsFrom_none: "capped (cindex s) \<le> capped (cindex s') \<Longrightarrow> fst (cctx s') = fst (cctx s) \<Longrightarrow> startsFrom n lo s s'"
  by (auto simp: startsFrom_def)

lemma startsFrom_trans:
  assumes "startsFrom n lo s s1" "startsFrom n (capped (cindex s1) + 1) s1 s2" "lo \<le> capped (cindex s1) + 1"
  shows "startsFrom n lo s s2"
proof -
  obtain r1 where r1: "fst (cctx s1) = fst (cctx s) @ r1" "sorted_wrt (<) r1"
    "\<forall>i\<in>set r1. i < n \<and> lo \<le> int i \<and> int i \<le> capped (cindex s1)" "capped (cindex s) \<le> capped (cindex s1)"
    using assms(1) by (auto simp: startsFrom_def)
  obtain r2 where r2: "fst (cctx s2) = fst (cctx s1) @ r2" "sorted_wrt (<) r2"
    "\<forall>i\<in>set r2. i < n \<and> capped (cindex s1) + 1 \<le> int i \<and> int i \<le> capped (cindex s2)" "capped (cindex s1) \<le> capped (cindex s2)"
    using assms(2) by (auto simp: startsFrom_def)
  have "fst (cctx s2) = fst (cctx s) @ r1 @ r2" using r1(1) r2(1) by simp
  moreover have "sorted_wrt (<) (r1 @ r2)"
    using r1(2,3) r2(2,3) by (fastforce simp: sorted_wrt_append)
  moreover have "\<forall>i\<in>set (r1 @ r2). i < n \<and> lo \<le> int i \<and> int i \<le> capped (cindex s2)"
    using r1(3) r2(3,4) assms(3) by fastforce
  ultimately show ?thesis using r1(4) r2(4) unfolding startsFrom_def by (meson order_trans)
qed

lemma exec_starts:
  assumes "\<And>s out s'. nxt s = Some (out, s') \<Longrightarrow> startsBehind n s s'"
  shows "exec nxt (beside p) s = Some (out, s') \<Longrightarrow> startsBehind n s s'"
proof (induction p arbitrary: s)
  case (Effect f k)
  let ?t = "s\<lparr>cctx := (fst (cctx s), f (snd (cctx s)))\<rparr>"
  have "startsBehind n ?t s'" using Effect.IH [OF rangeI, of "snd (cctx s)" ?t] Effect.prems by simp
  then show ?case by (simp add: startsFrom_def)
next
  case (DoAbort p)
  have "startsBehind n (Abort s) s'" by (rule DoAbort.IH) (use DoAbort.prems in simp)
  then show ?case by (fastforce simp: startsFrom_def capped_def Abort_def)
next
  case (CallNext k)
  then obtain o1 s1 where n: "nxt s = Some (o1, s1)" "exec nxt (beside (k o1)) s1 = Some (out, s')"
    by (auto split: option.splits)
  have s1: "startsBehind n s s1" by (rule assms [OF n(1)])
  moreover have "startsBehind n s1 s'" using CallNext.IH n(2) by blast
  ultimately show ?case by (rule startsFrom_trans) (use s1 in \<open>simp add: startsFrom_def\<close>)
qed (auto intro: startsFrom_none)

lemma nextLoop_starts:
  assumes short: "int (length hs) \<le> abortIndex" and n: "n = length hs"
  shows "nextLoop fuel (tracedChain hs) s = Some (out, s') \<Longrightarrow> startsFrom n (capped (cindex s)) s s'"
proof (induction fuel arbitrary: s out s')
  case (Suc fuel)
  let ?nxt = "\<lambda>t. nextLoop fuel (tracedChain hs) (advance t)"
  have behind: "startsBehind n t t'" if "?nxt t = Some (o', t')" for t o' t'
  proof (cases "IsAborted t")
    case True
    then have "\<not> cindex (advance t) < int (length hs)" using short by (simp add: IsAborted_def)
    then have "t' = advance t" using that by (cases fuel) (auto split: if_splits)
    moreover have "capped (cindex t) \<le> capped (cindex (advance t))" by (rule capped_advance)
    moreover have "fst (cctx (advance t)) = fst (cctx t)" by (simp add: advance_def)
    ultimately show ?thesis by (simp only: startsFrom_none)
  next
    case False
    then have "capped (cindex (advance t)) = capped (cindex t) + 1" by (simp add: capped_def IsAborted_def)
    then show ?thesis using Suc.IH [OF that] by (simp add: startsFrom_def)
  qed
  show ?case
  proof (cases "0 \<le> cindex s \<and> cindex s < int (length hs)")
    case True
    let ?i = "nat (cindex s)"
    have c: "capped (cindex s) = int ?i" using True short by (simp add: capped_def)
    obtain o1 s1 where e: "exec ?nxt (tracedChain hs ! ?i) s = Some (o1, s1)"
      using Suc.prems True by (auto split: option.splits)
    let ?t = "s\<lparr>cctx := (fst (cctx s) @ [?i], snd (cctx s))\<rparr>"
    have "tracedChain hs ! ?i = traced ?i (hs ! ?i)" by (rule nth_tracedChain) (use True in linarith)
    then have "exec ?nxt (beside (hs ! ?i)) ?t = Some (o1, s1)"
      using e by (simp only: traced_def exec.simps)
    then have "startsBehind n ?t s1"
      by (rule exec_starts [where nxt = ?nxt and p = "hs ! ?i" and out = o1, rotated]) (rule behind)
    then obtain runs where r: "fst (cctx s1) = fst (cctx s) @ ?i # runs" "sorted_wrt (<) runs"
      "\<forall>i\<in>set runs. i < n \<and> int ?i + 1 \<le> int i \<and> int i \<le> capped (cindex s1)" "int ?i \<le> capped (cindex s1)"
      using c by (auto simp: startsFrom_def)
    have s1: "startsFrom n (capped (cindex s)) s s1"
      unfolding startsFrom_def c by (intro conjI exI [of _ "?i # runs"]) (use r n True in auto)
    show ?thesis
    proof (cases "o1 = Inr None")
      case True
      then have "?nxt s1 = Some (out, s')"
        using Suc.prems e \<open>0 \<le> cindex s \<and> cindex s < int (length hs)\<close> by simp
      then have "startsBehind n s1 s'" by (rule behind)
      moreover have "capped (cindex s) \<le> capped (cindex s1) + 1" using s1 by (simp add: startsFrom_def)
      ultimately show ?thesis by (rule startsFrom_trans [OF s1])
    next
      case False
      then have "s' = s1"
        using Suc.prems e \<open>0 \<le> cindex s \<and> cindex s < int (length hs)\<close>
        by (auto split: sum.splits option.splits)
      then show ?thesis using s1 by simp
    qed
  qed (use Suc.prems in \<open>auto split: if_splits intro: startsFrom_none\<close>)
qed simp

section \<open>Properties\<close>

text \<open>A chain that writes down what runs: a middleware around a handler.\<close>

definition sampleChain :: "nat list hprog list" where
  "sampleChain = map (\<lambda>m. around (fst m) (snd m)) [(\<lambda>l. l @ [1], \<lambda>l. l @ [9])] @ [leaf (\<lambda>l. l @ [5]) None]"

definition startState :: "nat list cstate" where
  "startState = \<lparr>cctx = [], cindex = - 1\<rparr>"

lemma sampleChain_short: "int (length sampleChain) \<le> abortIndex"
  by (simp add: sampleChain_def abortIndex_def)

text \<open>C9. A call of \<^verbatim>\<open>Next\<close> returns, whatever the handlers do with \<^verbatim>\<open>Next\<close> and \<^verbatim>\<open>Abort\<close>, for every
  chain no longer than the abort index.\<close>

theorem Next_returns:
  assumes "int (length hs) \<le> abortIndex"
  shows "\<exists>out s'. Next hs s = Some (out, s')"
  using Next_total [OF assms] .

theorem Next_returns_witness: "\<exists>out s'. Next sampleChain startState = Some (out, s')"
  by (rule Next_returns [OF sampleChain_short])

text \<open>What \<^verbatim>\<open>Next\<close> does depends only on the handlers behind the current one.\<close>

theorem Next_depends_on_rest:
  assumes "int (length hs) \<le> abortIndex" "length hs' = length hs" "- 1 \<le> cindex s"
    and "drop (nat (cindex s + 1)) hs = drop (nat (cindex s + 1)) hs'"
  shows "Next hs s = Next hs' s"
proof (cases "int (length hs) \<le> cindex s + 1")
  case True
  then show ?thesis using assms(2) by (simp add: Next_end)
next
  case False
  let ?i = "nat (cindex s + 1)"
  have "hs ! j = hs' ! j" if "?i \<le> j" "j < length hs" for j
    using arg_cong [OF assms(4), of "\<lambda>xs. xs ! (j - ?i)"] that assms(2) by simp
  then have "nextLoop fuel hs (advance s) = nextLoop fuel hs' (advance s)" for fuel
    by (intro nextLoop_frame [of hs hs' ?i]) (use assms False in \<open>auto simp: capped_def\<close>)
  then show ?thesis by (simp add: Next_def NextFuel_def assms(2))
qed

theorem Next_depends_on_rest_witness:
  "Next sampleChain (startState\<lparr>cindex := 0\<rparr>) = Next [Raise ErrAbortHandler, sampleChain ! 1] (startState\<lparr>cindex := 0\<rparr>)"
  by (rule Next_depends_on_rest [OF sampleChain_short]) (simp_all add: sampleChain_def startState_def)

text \<open>C7. No handler runs twice, and none out of order: whatever the handlers of a chain do with \<^verbatim>\<open>Next\<close>
  and \<^verbatim>\<open>Abort\<close>, and however often, those that a call of \<^verbatim>\<open>Next\<close> starts stand behind the current one, and
  each starts at most once, in the order of the chain.  The trace is written beside the context: without
  it the run is that of the chain itself.\<close>

theorem handlers_run_once:
  assumes "int (length hs) \<le> abortIndex" "- 1 \<le> cindex s"
  shows "\<exists>out s' runs. Next (tracedChain hs) s = Some (out, s') \<and> Next hs (untraced s) = Some (out, untraced s') \<and>
    fst (cctx s') = fst (cctx s) @ runs \<and> sorted_wrt (<) runs \<and>
    (\<forall>i\<in>set runs. cindex s < int i \<and> i < length hs)"
proof -
  obtain out s' where n: "Next (tracedChain hs) s = Some (out, s')"
    using Next_total [of "tracedChain hs" s] assms(1) by auto
  then have "startsFrom (length hs) (capped (cindex (advance s))) (advance s) s'"
    using nextLoop_starts [OF assms(1) refl] unfolding Next_def NextFuel_def by blast
  then obtain runs where r: "fst (cctx s') = fst (cctx s) @ runs" "sorted_wrt (<) runs"
    "\<forall>i\<in>set runs. i < length hs \<and> capped (cindex s + 1) \<le> int i"
    by (auto simp: startsFrom_def)
  have "\<forall>i\<in>set runs. cindex s < int i \<and> i < length hs"
  proof
    fix i
    assume "i \<in> set runs"
    with r(3) have "i < length hs" "capped (cindex s + 1) \<le> int i" by auto
    with assms(1) show "cindex s < int i \<and> i < length hs" by (simp add: capped_def split: if_splits)
  qed
  moreover have "Next hs (untraced s) = Some (out, untraced s')" by (simp add: Next_traced n)
  ultimately show ?thesis using n r(1,2) by blast
qed

text \<open>A middleware that calls \<^verbatim>\<open>Next\<close> twice, in front of two handlers.\<close>

definition twiceNext :: "unit hprog list" where
  "twiceNext = [CallNext (\<lambda>_. CallNext (\<lambda>_. Return None)), Return None, Return None]"

theorem handlers_run_once_witness:
  "\<exists>out s' runs. Next (tracedChain twiceNext) \<lparr>cctx = ([], ()), cindex = - 1\<rparr> = Some (out, s') \<and>
     fst (cctx s') = runs \<and> sorted_wrt (<) runs \<and> (\<forall>i\<in>set runs. i < 3)"
proof -
  have "int (length twiceNext) \<le> abortIndex" by (simp add: twiceNext_def abortIndex_def)
  from handlers_run_once [OF this, of "\<lparr>cctx = ([], ()), cindex = - 1\<rparr>"]
  show ?thesis by (force simp: twiceNext_def eval_nat_numeral)
qed

text \<open>C8. After \<^verbatim>\<open>Abort\<close> no further handler runs: a handler that begins with \<^verbatim>\<open>Abort\<close> goes on as with an
  empty rest of the chain, its own further calls of \<^verbatim>\<open>Next\<close> included, and the chain then ends.\<close>

theorem Abort_stops_chain:
  assumes "int (length hs) \<le> abortIndex" "- 1 \<le> cindex s" "cindex s + 1 < int (length hs)"
    and "hs ! nat (cindex s + 1) = DoAbort p"
  shows "Next hs s =
    (case exec (Next []) p (Abort (advance s)) of
       Some (Inr None, s') \<Rightarrow> Some (Inr None, advance s')
     | r \<Rightarrow> r)"
proof -
  have a: "IsAborted (Abort (advance s))" by (simp add: IsAborted_def)
  then have x: "exec (Next hs) (DoAbort p) (advance s) = exec (Next []) p (Abort (advance s))"
    using exec_aborted [OF assms(1) a] by simp
  show ?thesis
  proof (cases "exec (Next []) p (Abort (advance s))")
    case None
    then show ?thesis using Next_unfold [OF assms(1), of s] assms x by simp
  next
    case (Some r)
    obtain out s1 where r: "r = (out, s1)" by force
    have "IsAborted s1" using IsAborted_exec [OF a] Some r by blast
    then have "Next hs s1 = Some (Inr None, advance s1)" by (rule Next_aborted [OF assms(1)])
    then show ?thesis
      using Next_unfold [OF assms(1), of s] assms x Some r by (simp split: sum.splits option.splits)
  qed
qed

theorem Abort_stops_chain_witness:
  "Next [DoAbort (CallNext (\<lambda>out. Return None)), leaf (\<lambda>l. l @ [5]) None] startState =
     Some (Inr None, \<lparr>cctx = [], cindex = abortIndex + 2\<rparr>)"
proof -
  let ?p = "CallNext (\<lambda>out. Return None)" and ?hs = "[DoAbort (CallNext (\<lambda>out. Return None)), leaf (\<lambda>l. l @ [5]) None]"
  have "exec (Next []) ?p (Abort (advance startState)) = Some (Inr None, advance (Abort (advance startState)))"
    by (simp add: Next_end startState_def abortIndex_def)
  then show ?thesis
    using Abort_stops_chain [of ?hs startState ?p]
    by (simp add: startState_def abortIndex_def advance_def Abort_def)
qed

text \<open>C6. Middleware nests: the parts before \<^verbatim>\<open>Next\<close> run in the order of the chain, then the route
  handler, then the parts after \<^verbatim>\<open>Next\<close> in reverse, and the handler's error reaches the caller.\<close>

theorem chain_is_onion:
  assumes "hs = map (\<lambda>m. around (fst m) (snd m)) ms @ [leaf act err]" "int (length hs) \<le> abortIndex"
    and "cindex s = - 1"
  shows "\<exists>s'. Next hs s = Some (Inr err, s') \<and> cctx s' = onion ms act (cctx s)"
  using Next_onion [OF assms(1,2), of 0 s] assms(3) by auto

theorem chain_is_onion_witness: "\<exists>s'. Next sampleChain startState = Some (Inr None, s') \<and> cctx s' = [1, 5, 9]"
  using chain_is_onion [OF sampleChain_def sampleChain_short, of startState] by (simp add: startState_def)

end
