(* ===== verification/Context.thy ===== *)
theory Context
  imports Url Response Params Chain
begin

text \<open>
  The request context (\<^verbatim>\<open>context.go\<close>): its state, request accessors, response helpers, Server-Sent
  Events and the value store.  The fields \<^verbatim>\<open>handlers\<close> and \<^verbatim>\<open>index\<close> are those of \<open>Chain\<close>.  The writer
  is the pooled \<^verbatim>\<open>responseWriter\<close> over the server's; a middleware that puts another writer in its
  place is not part of this state.  Encoders, the template renderer and \<^verbatim>\<open>fmt\<close> are arguments: what
  counts is the bytes they hand to the writer and their error.
\<close>

section \<open>State\<close>

datatype anyval = AString string | AInt int | AOther string

type_synonym encoded = "string \<times> goerr option"

type_synonym renderer = "string \<Rightarrow> anyval \<Rightarrow> encoded"

record ctx =
  cxWriter :: "stdWriter responseWriter"
  cxRequest :: request
  cxParams :: params
  cxQueryCache :: "urlValues option"
  cxStore :: "string \<Rightarrow> anyval option"
  cxRenderer :: "renderer option"

text \<open>\<^verbatim>\<open>reset\<close> clears the store and leaves the renderer to the caller.  A Go map that is nil reads like an
  empty one, and \<^verbatim>\<open>Set\<close> allocates it before it writes: both are the empty map here.\<close>

definition cx_reset :: "stdWriter \<Rightarrow> request \<Rightarrow> ctx cstate \<Rightarrow> ctx cstate" where
  "cx_reset w r s =
     s\<lparr>cctx := (cctx s)\<lparr>
         cxWriter := rw_reset w (cxWriter (cctx s)),
         cxRequest := r,
         cxParams := [],
         cxQueryCache := None,
         cxStore := (\<lambda>k. None)\<rparr>,
       cindex := -1\<rparr>"

section \<open>The writer through the context\<close>

definition cxHeader :: "ctx \<Rightarrow> header" where
  "cxHeader c = wHeader (rwUnder (cxWriter c))"

definition mapHeader :: "(header \<Rightarrow> header) \<Rightarrow> ctx \<Rightarrow> ctx" where
  "mapHeader f c =
     c\<lparr>cxWriter := (cxWriter c)\<lparr>rwUnder := (rwUnder (cxWriter c))\<lparr>wHeader := f (cxHeader c)\<rparr>\<rparr>\<rparr>"

definition cxWriteHeader :: "int \<Rightarrow> ctx \<Rightarrow> ctx" where
  "cxWriteHeader code c = c\<lparr>cxWriter := rw_WriteHeader std_WriteHeader code (cxWriter c)\<rparr>"

definition cxWrite :: "string \<Rightarrow> ctx \<Rightarrow> goerr option \<times> ctx" where
  "cxWrite b c =
     (case rw_Write std_WriteHeader std_Write b (cxWriter c) of
        ((n, err), w) \<Rightarrow> (err, c\<lparr>cxWriter := w\<rparr>))"

definition cxWritten :: "ctx \<Rightarrow> bool" where
  "cxWritten c \<longleftrightarrow> rw_Written (cxWriter c)"

text \<open>An encoder's bytes go out in one write, if there are any; the write's error comes first.\<close>

definition cxEncode :: "encoded \<Rightarrow> ctx \<Rightarrow> goerr option \<times> ctx" where
  "cxEncode enc c =
     (if fst enc = [] then (snd enc, c)
      else case cxWrite (fst enc) c of
             (Some err, c') \<Rightarrow> (Some err, c')
           | (None, c') \<Rightarrow> (snd enc, c'))"

section \<open>Aborting\<close>

definition AbortWithStatus :: "int \<Rightarrow> ctx cstate \<Rightarrow> ctx cstate" where
  "AbortWithStatus code s = (let s1 = Abort s in s1\<lparr>cctx := cxWriteHeader code (cctx s1)\<rparr>)"

section \<open>Request data\<close>

definition cx_Param :: "string \<Rightarrow> ctx \<Rightarrow> string" where
  "cx_Param name c = Params_ByName (cxParams c) name"

text \<open>\<^verbatim>\<open>queryValues\<close> parses on the first call and keeps the result.\<close>

definition queryValues :: "ctx \<Rightarrow> urlValues \<times> ctx" where
  "queryValues c =
     (case cxQueryCache c of
        Some q \<Rightarrow> (q, c)
      | None \<Rightarrow>
          let q = (case reqQuery (cxRequest c) of Some q \<Rightarrow> q | None \<Rightarrow> (\<lambda>k. None))
          in (q, c\<lparr>cxQueryCache := Some q\<rparr>))"

definition Query :: "string \<Rightarrow> ctx \<Rightarrow> string \<times> ctx" where
  "Query key c = (case queryValues c of (q, c') \<Rightarrow> (valuesGet q key, c'))"

definition QueryDefault :: "string \<Rightarrow> string \<Rightarrow> ctx \<Rightarrow> string \<times> ctx" where
  "QueryDefault key dflt c =
     (case queryValues c of (q, c') \<Rightarrow> (case q key of Some (v # vs) \<Rightarrow> v | _ \<Rightarrow> dflt, c'))"

definition QueryArray :: "string \<Rightarrow> ctx \<Rightarrow> string list \<times> ctx" where
  "QueryArray key c = (case queryValues c of (q, c') \<Rightarrow> (case q key of Some vs \<Rightarrow> vs | None \<Rightarrow> [], c'))"

definition PostFormDefault :: "string \<Rightarrow> string \<Rightarrow> ctx \<Rightarrow> string" where
  "PostFormDefault key dflt c =
     (case reqForm (cxRequest c) of
        Inl err \<Rightarrow> dflt
      | Inr form \<Rightarrow> (case form key of Some (v # vs) \<Rightarrow> v | _ \<Rightarrow> dflt))"

definition PostForm :: "string \<Rightarrow> ctx \<Rightarrow> string" where
  "PostForm key c = PostFormDefault key [] c"

definition GetHeader :: "string \<Rightarrow> ctx \<Rightarrow> string" where
  "GetHeader key c = hGet (reqHeader (cxRequest c)) key"

definition errNoCookie :: goerr where
  "errNoCookie = PlainError ''http: named cookie not present''"

definition Cookie :: "string \<Rightarrow> ctx \<Rightarrow> goerr + string" where
  "Cookie name c =
     (case map_of (reqCookies (cxRequest c)) name of None \<Rightarrow> Inl errNoCookie | Some v \<Rightarrow> Inr v)"

definition cx_Method :: "ctx \<Rightarrow> string" where
  "cx_Method c = reqMethod (cxRequest c)"

definition cx_Path :: "ctx \<Rightarrow> string" where
  "cx_Path c = reqPath (cxRequest c)"

section \<open>Response helpers\<close>

definition MIMEJSON :: string where "MIMEJSON = ''application/json; charset=utf-8''"
definition MIMEXML :: string where "MIMEXML = ''application/xml; charset=utf-8''"
definition MIMEText :: string where "MIMEText = ''text/plain; charset=utf-8''"
definition MIMEHTML :: string where "MIMEHTML = ''text/html; charset=utf-8''"
definition MIMEBytes :: string where "MIMEBytes = ''application/octet-stream''"
definition MIMEEventStream :: string where "MIMEEventStream = ''text/event-stream''"

definition cx_SetHeader :: "string \<Rightarrow> string \<Rightarrow> ctx \<Rightarrow> ctx" where
  "cx_SetHeader key val c = (if val = [] then mapHeader (hDel key) c else mapHeader (hSet key val) c)"

definition cx_Status :: "int \<Rightarrow> ctx \<Rightarrow> ctx" where
  "cx_Status code c = cxWriteHeader code c"

definition cx_JSON :: "int \<Rightarrow> encoded \<Rightarrow> ctx \<Rightarrow> goerr option \<times> ctx" where
  "cx_JSON code v c = cxEncode v (cxWriteHeader code (mapHeader (hSet ''Content-Type'' MIMEJSON) c))"

definition cx_XML :: "int \<Rightarrow> encoded \<Rightarrow> ctx \<Rightarrow> goerr option \<times> ctx" where
  "cx_XML code v c = cxEncode v (cxWriteHeader code (mapHeader (hSet ''Content-Type'' MIMEXML) c))"

text \<open>\<^verbatim>\<open>String\<close>: without arguments the format is written as it is; \<open>sprintf\<close> stands for \<^verbatim>\<open>fmt\<close>.\<close>

definition cx_String ::
    "(string \<Rightarrow> anyval list \<Rightarrow> string) \<Rightarrow> int \<Rightarrow> string \<Rightarrow> anyval list \<Rightarrow> ctx \<Rightarrow> goerr option \<times> ctx" where
  "cx_String sprintf code fmt args c =
     (let c1 = cxWriteHeader code (mapHeader (hSet ''Content-Type'' MIMEText) c)
      in if 0 < length args then cxWrite (sprintf fmt args) c1 else cxWrite fmt c1)"

definition cx_Blob :: "int \<Rightarrow> string \<Rightarrow> string \<Rightarrow> ctx \<Rightarrow> goerr option \<times> ctx" where
  "cx_Blob code contentType data c =
     (let ct = (if contentType = [] then MIMEBytes else contentType)
      in cxWrite data (cxWriteHeader code (mapHeader (hSet ''Content-Type'' ct) c)))"

text \<open>\<^verbatim>\<open>HTML\<close> renders into a buffer before it touches the response.\<close>

definition errNoRenderer :: "string \<Rightarrow> goerr" where
  "errNoRenderer name =
     WithInternal (NewHTTPError 500 [''goxpress: no Renderer configured on Router''])
       (Some (PlainError (''HTML('' @ [CHR 0x22] @ name @ [CHR 0x22] @ ''): Router.Renderer is nil'')))"

definition cx_HTML :: "int \<Rightarrow> string \<Rightarrow> anyval \<Rightarrow> ctx \<Rightarrow> goerr option \<times> ctx" where
  "cx_HTML code name data c =
     (case cxRenderer c of
        None \<Rightarrow> (Some (errNoRenderer name), c)
      | Some render \<Rightarrow>
          (case render name data of
             (buf, Some err) \<Rightarrow> (Some err, c)
           | (buf, None) \<Rightarrow> cxWrite buf (cxWriteHeader code (mapHeader (hSet ''Content-Type'' MIMEHTML) c))))"

definition cx_NoContent :: "int \<Rightarrow> ctx \<Rightarrow> goerr option \<times> ctx" where
  "cx_NoContent code c = (None, cxWriteHeader code c)"

text \<open>\<^verbatim>\<open>http.Redirect\<close>: \<open>relative\<close> says whether \<^verbatim>\<open>url.Parse\<close> finds neither a scheme nor a host in the location,
  and \<open>page\<close> stands for the short body a GET without a content type gets.\<close>

definition http_Redirect ::
    "(string \<Rightarrow> bool) \<Rightarrow> (string \<Rightarrow> int \<Rightarrow> string) \<Rightarrow> string \<Rightarrow> int \<Rightarrow> ctx \<Rightarrow> ctx" where
  "http_Redirect relative page location code c =
     (let r = cxRequest c; url = (if relative location then resolveLocation (reqPath r) location else location);
          hadCT = cxHeader c ''Content-Type'' \<noteq> None;
          c1 = mapHeader (hSet ''Location'' (hexEscapeNonASCII url)) c;
          c2 = (if \<not> hadCT \<and> (reqMethod r = ''GET'' \<or> reqMethod r = ''HEAD'')
                then mapHeader (hSet ''Content-Type'' MIMEHTML) c1 else c1);
          c3 = cxWriteHeader code c2
      in if \<not> hadCT \<and> reqMethod r = ''GET'' then snd (cxWrite (page url code) c3) else c3)"

definition cx_Redirect ::
    "(string \<Rightarrow> bool) \<Rightarrow> (string \<Rightarrow> int \<Rightarrow> string) \<Rightarrow> int \<Rightarrow> string \<Rightarrow> ctx \<Rightarrow> goerr option \<times> ctx" where
  "cx_Redirect relative page code location c =
     (if code < 300 \<or> 308 < code
      then (Some (PlainError (''goxpress: invalid redirect status code '' @ itoa code)), c)
      else (None, http_Redirect relative page location code c))"

section \<open>Streaming\<close>

text \<open>Flushing goes to the server's writer directly, past the counting one; it sends the status line
  if there is none yet.\<close>

definition cx_Flush :: "ctx \<Rightarrow> goerr option \<times> ctx" where
  "cx_Flush c =
     (let u = rw_Unwrap (cxWriter c)
      in (None, c\<lparr>cxWriter := (cxWriter c)
                   \<lparr>rwUnder := (if wSent u = None then std_WriteHeader 200 u else u)\<rparr>\<rparr>))"

fun splitLines :: "string \<Rightarrow> string list" where
  "splitLines [] = [[]]"
| "splitLines (c # s) =
     (if c = CHR 0x0A then [] # splitLines s
      else case splitLines s of l # ls \<Rightarrow> (c # l) # ls | [] \<Rightarrow> [[c]])"

definition sseFrame :: "string \<Rightarrow> string \<Rightarrow> string" where
  "sseFrame event data =
     (if event \<noteq> [] then ''event: '' @ event @ [CHR 0x0A] else []) @
     concat (map (\<lambda>line. ''data: '' @ line @ [CHR 0x0A]) (splitLines data)) @ [CHR 0x0A]"

definition cx_SSEvent :: "string \<Rightarrow> string \<Rightarrow> ctx \<Rightarrow> goerr option \<times> ctx" where
  "cx_SSEvent event data c =
     (let c1 = (if \<not> cxWritten c then
                  cxWriteHeader 200
                    (mapHeader (hSet ''Connection'' ''keep-alive'')
                      (mapHeader (hSet ''Cache-Control'' ''no-cache'')
                        (mapHeader (hSet ''Content-Type'' MIMEEventStream) c)))
                else c)
      in case cxWrite (sseFrame event data) c1 of
           (Some err, c2) \<Rightarrow> (Some err, c2)
         | (None, c2) \<Rightarrow> cx_Flush c2)"

section \<open>The value store\<close>

definition cx_Set :: "string \<Rightarrow> anyval \<Rightarrow> ctx \<Rightarrow> ctx" where
  "cx_Set key val c = c\<lparr>cxStore := (cxStore c)(key \<mapsto> val)\<rparr>"

definition cx_Get :: "string \<Rightarrow> ctx \<Rightarrow> anyval option" where
  "cx_Get key c = cxStore c key"

definition cx_MustGet :: "string \<Rightarrow> ctx \<Rightarrow> pval + anyval" where
  "cx_MustGet key c =
     (case cx_Get key c of
        Some v \<Rightarrow> Inr v
      | None \<Rightarrow> Inl (PValue (''goxpress: no value stored for key '' @ quoted key)))"

definition cx_GetString :: "string \<Rightarrow> ctx \<Rightarrow> string" where
  "cx_GetString key c = (case cx_Get key c of Some (AString s) \<Rightarrow> s | _ \<Rightarrow> [])"

section \<open>Frame lemmas\<close>

lemma mapHeader_simps [simp]:
  "cxHeader (mapHeader f c) = f (cxHeader c)"
  "cxRequest (mapHeader f c) = cxRequest c" "cxParams (mapHeader f c) = cxParams c"
  "cxStore (mapHeader f c) = cxStore c" "cxRenderer (mapHeader f c) = cxRenderer c"
  "rwStatus (cxWriter (mapHeader f c)) = rwStatus (cxWriter c)"
  "wSent (rwUnder (cxWriter (mapHeader f c))) = wSent (rwUnder (cxWriter c))"
  "wBody (rwUnder (cxWriter (mapHeader f c))) = wBody (rwUnder (cxWriter c))"
  "wRoom (rwUnder (cxWriter (mapHeader f c))) = wRoom (rwUnder (cxWriter c))"
  "rwSuppress (cxWriter (mapHeader f c)) = rwSuppress (cxWriter c)"
  by (simp_all add: mapHeader_def cxHeader_def)

lemma cxWriteHeader_simps [simp]:
  "cxHeader (cxWriteHeader code c) = cxHeader c"
  "cxRequest (cxWriteHeader code c) = cxRequest c" "cxParams (cxWriteHeader code c) = cxParams c"
  "cxStore (cxWriteHeader code c) = cxStore c" "cxRenderer (cxWriteHeader code c) = cxRenderer c"
  by (simp_all add: cxWriteHeader_def cxHeader_def rw_WriteHeader_def http_simps)

lemma cxWrite_simps [simp]:
  "cxHeader (snd (cxWrite b c)) = cxHeader c"
  "cxRequest (snd (cxWrite b c)) = cxRequest c" "cxParams (snd (cxWrite b c)) = cxParams c"
  "cxStore (snd (cxWrite b c)) = cxStore c" "cxRenderer (snd (cxWrite b c)) = cxRenderer c"
proof -
  show "cxHeader (snd (cxWrite b c)) = cxHeader c"
    using std_Write_header [of b]
    by (auto simp: cxWrite_def cxHeader_def rw_Write_def rw_WriteHeader_def Let_def http_simps
        split: prod.splits dest!: arg_cong [where f = "\<lambda>r. wHeader (snd r)"])
qed (simp_all add: cxWrite_def split: prod.splits)

text \<open>The status line of a started response stays; the first code on a fresh writer is sent with the
  headers set by then.\<close>

lemma cxWrite_sent:
  "cxWritten c \<Longrightarrow> wSent (rwUnder (cxWriter c)) \<noteq> None \<Longrightarrow>
     wSent (rwUnder (cxWriter (snd (cxWrite b c)))) = wSent (rwUnder (cxWriter c))"
  by (auto simp: cxWrite_def cxWritten_def rw_Written_def rw_Write_def Let_def http_simps
      split: prod.splits dest!: arg_cong [where f = "\<lambda>r. wSent (snd r)"])

lemma cxEncode_sent:
  "cxWritten c \<Longrightarrow> wSent (rwUnder (cxWriter c)) \<noteq> None \<Longrightarrow>
     wSent (rwUnder (cxWriter (snd (cxEncode enc c)))) = wSent (rwUnder (cxWriter c))"
  using cxWrite_sent [of c "fst enc"]
  by (cases "cxWrite (fst enc) c") (auto simp: cxEncode_def split: option.splits)

lemma cxWriteHeader_sent:
  assumes "\<not> cxWritten c" "wSent (rwUnder (cxWriter c)) = None" "finalCode (OpWriteHeader code)"
  shows "wSent (rwUnder (cxWriter (cxWriteHeader code c))) = Some (code, cxHeader c)"
    and "cxWritten (cxWriteHeader code c)"
  using assms
  by (auto simp: cxWriteHeader_def cxWritten_def rw_Written_def rw_WriteHeader_def noStatus_def cxHeader_def
      std_WriteHeader_sent informational_def)

lemma cxWritten_mapHeader [simp]: "cxWritten (mapHeader f c) = cxWritten c"
  by (simp add: cxWritten_def rw_Written_def)

lemma cx_JSON_sent:
  assumes "\<not> cxWritten c" "wSent (rwUnder (cxWriter c)) = None" "finalCode (OpWriteHeader code)"
  shows "wSent (rwUnder (cxWriter (snd (cx_JSON code v c)))) =
    Some (code, hSet ''Content-Type'' MIMEJSON (cxHeader c))"
  using cxWriteHeader_sent [of "mapHeader (hSet ''Content-Type'' MIMEJSON) c" code] assms
  by (simp add: cx_JSON_def cxEncode_sent)

section \<open>Server-Sent Events, as a client reads them\<close>

text \<open>The stream format of the specification: a line ends with LF, CR or CR LF; a field is a name, a
  colon, one optional space and the value; \<open>data\<close> fields are joined by LF; an empty line ends the event.\<close>

abbreviation LF :: char where "LF \<equiv> CHR 0x0A"
abbreviation CR :: char where "CR \<equiv> CHR 0x0D"

fun sseLines :: "string \<Rightarrow> string \<Rightarrow> string list" where
  "sseLines acc [] = []"
| "sseLines acc [c] = (if c = LF \<or> c = CR then [rev acc] else [])"
| "sseLines acc (c # d # s) =
     (if c = LF then rev acc # sseLines [] (d # s)
      else if c = CR then rev acc # sseLines [] (if d = LF then s else d # s)
      else sseLines (c # acc) (d # s))"

definition sseField :: "string \<Rightarrow> string \<times> string" where
  "sseField l =
     (let v = drop 1 (dropWhile (\<lambda>c. c \<noteq> CHR '':'') l)
      in (takeWhile (\<lambda>c. c \<noteq> CHR '':'') l, if v \<noteq> [] \<and> hd v = CHR '' '' then tl v else v))"

fun sseFeed :: "string \<Rightarrow> string \<Rightarrow> string list \<Rightarrow> (string \<times> string) list" where
  "sseFeed ev d [] = []"
| "sseFeed ev d (l # ls) =
     (if l = [] then (if d = [] then sseFeed [] [] ls else (ev, butlast d) # sseFeed [] [] ls)
      else case sseField l of
             (f, v) \<Rightarrow>
               if f = ''event'' then sseFeed v d ls
               else if f = ''data'' then sseFeed ev (d @ v @ [LF]) ls
               else sseFeed ev d ls)"

definition sseRead :: "string \<Rightarrow> (string \<times> string) list" where
  "sseRead s = sseFeed [] [] (sseLines [] s)"

abbreviation oneLine :: "string \<Rightarrow> bool" where
  "oneLine l \<equiv> LF \<notin> set l \<and> CR \<notin> set l"

lemma sseLines_line: "oneLine l \<Longrightarrow> sseLines acc (l @ LF # s) = (rev acc @ l) # sseLines [] s"
proof (induction l arbitrary: acc)
  case Nil
  then show ?case by (cases s) auto
next
  case (Cons c l)
  then show ?case by (cases l) auto
qed

lemma splitLines_nonempty: "splitLines s \<noteq> []"
  by (induction s) (auto split: list.splits)

lemma splitLines_join: "concat (map (\<lambda>l. l @ [LF]) (splitLines s)) = s @ [LF]"
proof (induction s)
  case (Cons c s)
  then show ?case using splitLines_nonempty [of s] by (cases "splitLines s") auto
qed simp

lemma splitLines_oneLine: "CR \<notin> set s \<Longrightarrow> l \<in> set (splitLines s) \<Longrightarrow> oneLine l"
proof (induction s arbitrary: l)
  case (Cons c s)
  then show ?case using splitLines_nonempty [of s] by (cases "splitLines s") (auto split: if_splits)
qed simp

lemma sseLines_data:
  "\<forall>l\<in>set ls. oneLine l \<Longrightarrow>
     sseLines [] (concat (map (\<lambda>l. ''data: '' @ l @ [LF]) ls) @ LF # s) =
       map (\<lambda>l. ''data: '' @ l) ls @ [] # sseLines [] s"
proof (induction ls)
  case Nil
  then show ?case using sseLines_line [of "[]" "[]" s] by simp
next
  case (Cons l ls)
  then show ?case using sseLines_line [of "''data: '' @ l" "[]"] by simp
qed

lemma sseField_data: "sseField (''data: '' @ l) = (''data'', l)"
  by (simp add: sseField_def)

lemma sseField_event: "sseField (''event: '' @ l) = (''event'', l)"
  by (simp add: sseField_def)

lemma sseFeed_data:
  "sseFeed ev d (map (\<lambda>l. ''data: '' @ l) ls @ rest) = sseFeed ev (d @ concat (map (\<lambda>l. l @ [LF]) ls)) rest"
proof (induction ls arbitrary: d)
  case (Cons l ls)
  then show ?case using sseField_data [of l] by simp
qed simp

lemma sseRead_frame:
  assumes "oneLine event" "CR \<notin> set data"
  shows "sseFeed [] [] (sseLines [] (sseFrame event data @ s)) = (event, data) # sseFeed [] [] (sseLines [] s)"
proof -
  let ?ls = "splitLines data"
  let ?tail = "map (\<lambda>l. ''data: '' @ l) ?ls @ [] # sseLines [] s"
  have one: "\<forall>l\<in>set ?ls. oneLine l" using splitLines_oneLine assms(2) by blast
  have feed: "sseFeed ev [] ?tail = (ev, data) # sseFeed [] [] (sseLines [] s)" for ev
    by (subst sseFeed_data) (simp add: splitLines_join)
  show ?thesis
  proof (cases "event = []")
    case True
    then show ?thesis using sseLines_data [OF one, of s] feed by (simp add: sseFrame_def)
  next
    case False
    have "oneLine (''event: '' @ event)" using assms(1) by simp
    from sseLines_line [OF this, of "[]"] have "sseLines [] (sseFrame event data @ s) = (''event: '' @ event) # ?tail"
      using False sseLines_data [OF one, of s] by (simp add: sseFrame_def)
    then show ?thesis using feed sseField_event [of event] by simp
  qed
qed

lemma sse_frames_read:
  assumes "\<forall>(event, data)\<in>set evs. oneLine event \<and> CR \<notin> set data"
  shows "sseRead (concat (map (\<lambda>(event, data). sseFrame event data) evs)) = evs"
  using assms
proof (induction evs)
  case (Cons e evs)
  then show ?case
    using sseRead_frame [of "fst e" "snd e"] by (cases e) (simp add: sseRead_def)
qed (simp add: sseRead_def)

section \<open>Properties\<close>

text \<open>C37. Events written by \<^verbatim>\<open>SSEvent\<close> are read back by a client as they were sent, one after the
  other, with every line of the data, as long as the event name has no line end and the data no
  carriage return.\<close>

theorem sse_roundtrip:
  assumes "\<forall>(event, data)\<in>set evs. oneLine event \<and> CR \<notin> set data"
  shows "sseRead (concat (map (\<lambda>(event, data). sseFrame event data) evs)) = evs"
  using assms by (rule sse_frames_read)

theorem sse_roundtrip_witness:
  "sseRead (sseFrame ''tick'' (''a'' @ [LF] @ ''b'') @ sseFrame [] ''c'') =
     [(''tick'', ''a'' @ [LF] @ ''b''), ([], ''c'')]"
  using sse_roundtrip [of "[(''tick'', ''a'' @ [LF] @ ''b''), ([], ''c'')]"] by simp

text \<open>With a carriage return in the data a client sees fields that were not sent.\<close>

lemma sse_carriage_return:
  "sseRead (sseFrame ''tick'' (''a'' @ [CR] @ ''event: admin'')) = [(''admin'', ''a'')]"
  by code_simp

text \<open>Flushing first: the status line is out, the recorded status says it is not, and a later code is
  recorded but never sent.\<close>

lemma flush_hides_start:
  assumes "\<not> cxWritten c" "wSent (rwUnder (cxWriter c)) = None"
  shows "\<not> cxWritten (snd (cx_Flush c))"
    and "map_option fst (wSent (rwUnder (cxWriter (cxWriteHeader 404 (snd (cx_Flush c)))))) = Some 200"
    and "rw_Status (cxWriter (cxWriteHeader 404 (snd (cx_Flush c)))) = 404"
  using assms
  by (simp_all add: cx_Flush_def cxWritten_def rw_Written_def rw_Unwrap_def cxWriteHeader_def rw_WriteHeader_def
      rw_Status_def std_WriteHeader_def informational_def Let_def)

end
