(* ===== verification/GoTypes.thy ===== *)
theory GoTypes
  imports Prelude
begin

text \<open>
  Go types as \<^verbatim>\<open>reflect\<close> shows them to the schema generator and the binder: kinds with their widths,
  element types, struct fields with their tags.  A defined type is a number looked up in an
  environment, with its name (without the package, as \<^verbatim>\<open>Type.Name\<close> gives it) and its underlying type;
  only through defined types can a Go type refer to itself.  \<^verbatim>\<open>time.Time\<close> is a type of its own.
\<close>

record fieldInfo =
  fiName :: string
  fiExported :: bool
  fiTags :: "(string \<times> string) list"

datatype gotype =
    TString
  | TBool
  | TInt nat
  | TUint nat
  | TFloat nat
  | TSlice gotype
  | TArray gotype
  | TMap gotype
  | TPtr gotype
  | TStruct "(fieldInfo \<times> gotype) list"
  | TTime
  | TOther string
  | TNamed nat

record typeDef =
  tdName :: string
  tdUnder :: gotype

type_synonym tyenv = "nat \<Rightarrow> typeDef"

text \<open>The underlying type of a defined type is never itself a defined type, nor \<^verbatim>\<open>time.Time\<close>.\<close>

definition goEnv :: "tyenv \<Rightarrow> bool" where
  "goEnv env \<longleftrightarrow> (\<forall>n. tdUnder (env n) \<noteq> TTime \<and> (\<forall>m. tdUnder (env n) \<noteq> TNamed m))"

definition underlying :: "tyenv \<Rightarrow> gotype \<Rightarrow> gotype" where
  "underlying env t = (case t of TNamed n \<Rightarrow> tdUnder (env n) | _ \<Rightarrow> t)"

definition typeName :: "tyenv \<Rightarrow> gotype \<Rightarrow> string" where
  "typeName env t = (case t of TNamed n \<Rightarrow> tdName (env n) | TTime \<Rightarrow> ''Time'' | _ \<Rightarrow> [])"

definition isPointer :: "tyenv \<Rightarrow> gotype \<Rightarrow> bool" where
  "isPointer env t = (case underlying env t of TPtr u \<Rightarrow> True | _ \<Rightarrow> False)"

text \<open>\<^verbatim>\<open>Tag.Get\<close>.\<close>

definition tagGet :: "string \<Rightarrow> fieldInfo \<Rightarrow> string" where
  "tagGet key f = (case map_of (fiTags f) key of Some v \<Rightarrow> v | None \<Rightarrow> [])"

lemma underlying_simps [simp]:
  "underlying env (TNamed n) = tdUnder (env n)" "(\<And>n. t \<noteq> TNamed n) \<Longrightarrow> underlying env t = t"
  by (auto simp: underlying_def split: gotype.splits)

end
