(* ===== verification/RouteMeta.thy ===== *)
theory RouteMeta
  imports GoTypes Errors "HOL-Library.AList"
begin

text \<open>
  The metadata of a route (\<^verbatim>\<open>Route\<close> in \<^verbatim>\<open>openapi.go\<close>): what \<^verbatim>\<open>newRoute\<close> records at registration and the
  fluent methods add.  A method changes the route it is called on and returns it; here it returns the
  changed route.  A sample value counts by its type only, \<open>None\<close> for a nil one.  The map of responses
  is an association list.
\<close>

record responseMeta =
  rmDescription :: string
  rmType :: "gotype option"

record route =
  roMethod :: string
  roPath :: string
  roSummary :: string
  roDescription :: string
  roTags :: "string list"
  roPathParams :: "string list"
  roBodyType :: "gotype option"
  roQueryType :: "gotype option"
  roResponses :: "(int \<times> responseMeta) list"
  roHidden :: bool

text \<open>A segment that is a parameter or catch-all with a name.\<close>

definition isParamSegment :: "string \<Rightarrow> bool" where
  "isParamSegment seg \<longleftrightarrow> 1 < length seg \<and> (hd seg = CHR '':'' \<or> hd seg = CHR ''*'')"

definition newRoute :: "string \<Rightarrow> string \<Rightarrow> route" where
  "newRoute method path =
     \<lparr>roMethod = method, roPath = path, roSummary = [], roDescription = [], roTags = [],
      roPathParams = map tl (filter isParamSegment (splitOn (CHR ''/'') path)),
      roBodyType = None, roQueryType = None, roResponses = [], roHidden = False\<rparr>"

definition ro_Summary :: "string \<Rightarrow> route \<Rightarrow> route" where
  "ro_Summary s rt = rt\<lparr>roSummary := s\<rparr>"

definition ro_Description :: "string \<Rightarrow> route \<Rightarrow> route" where
  "ro_Description s rt = rt\<lparr>roDescription := s\<rparr>"

definition ro_Tags :: "string list \<Rightarrow> route \<Rightarrow> route" where
  "ro_Tags tags rt = rt\<lparr>roTags := roTags rt @ tags\<rparr>"

definition ro_Body :: "gotype option \<Rightarrow> route \<Rightarrow> route" where
  "ro_Body sample rt = rt\<lparr>roBodyType := sample\<rparr>"

definition ro_Query :: "gotype option \<Rightarrow> route \<Rightarrow> route" where
  "ro_Query sample rt = rt\<lparr>roQueryType := sample\<rparr>"

text \<open>\<^verbatim>\<open>resp\<close> returns the entry of a status code, created when there is none; the caller changes it.\<close>

definition resp :: "int \<Rightarrow> (responseMeta \<Rightarrow> responseMeta) \<Rightarrow> route \<Rightarrow> route" where
  "resp code f rt =
     (let m = (case map_of (roResponses rt) code of
                 None \<Rightarrow> \<lparr>rmDescription = [], rmType = None\<rparr>
               | Some m \<Rightarrow> m)
      in rt\<lparr>roResponses := AList.update code (f m) (roResponses rt)\<rparr>)"

definition ro_Response :: "int \<Rightarrow> string \<Rightarrow> route \<Rightarrow> route" where
  "ro_Response code description = resp code (\<lambda>m. m\<lparr>rmDescription := description\<rparr>)"

definition ro_Produces :: "int \<Rightarrow> gotype option \<Rightarrow> route \<Rightarrow> route" where
  "ro_Produces code sample =
     resp code (\<lambda>m. m\<lparr>rmType := sample,
                       rmDescription := (if rmDescription m = [] then StatusText code else rmDescription m)\<rparr>)"

definition ro_Hide :: "route \<Rightarrow> route" where
  "ro_Hide rt = rt\<lparr>roHidden := True\<rparr>"

text \<open>The generic helpers take the type itself.\<close>

definition BodyOf :: "gotype \<Rightarrow> route \<Rightarrow> route" where
  "BodyOf t = ro_Body (Some t)"

definition QueryOf :: "gotype \<Rightarrow> route \<Rightarrow> route" where
  "QueryOf t = ro_Query (Some t)"

definition ProducesOf :: "gotype \<Rightarrow> int \<Rightarrow> route \<Rightarrow> route" where
  "ProducesOf t code = ro_Produces code (Some t)"

lemma newRoute_simps [simp]:
  "roMethod (newRoute method path) = method" "roPath (newRoute method path) = path"
  by (simp_all add: newRoute_def)

lemma resp_frame [simp]:
  "roMethod (resp code f rt) = roMethod rt" "roPath (resp code f rt) = roPath rt"
  "roPathParams (resp code f rt) = roPathParams rt" "roHidden (resp code f rt) = roHidden rt"
  by (simp_all add: resp_def Let_def)

text \<open>The two orders of \<^verbatim>\<open>Response\<close> and \<^verbatim>\<open>Produces\<close> on one status code give the same description and type
  when a description is given.\<close>

lemma describe_then_produce:
  assumes "description \<noteq> []"
  shows "map_of (roResponses (ro_Produces code t (ro_Response code description rt))) code =
      Some \<lparr>rmDescription = description, rmType = t\<rparr>"
    and "map_of (roResponses (ro_Response code description (ro_Produces code t rt))) code =
      Some \<lparr>rmDescription = description, rmType = t\<rparr>"
  using assms by (simp_all add: ro_Produces_def ro_Response_def resp_def Let_def update_conv')

end
