(* ===== verification/Router.thy ===== *)
theory Router
  imports TreeTable Context RouteMeta
begin

text \<open>
  The router (\<^verbatim>\<open>router.go\<close>) with the default error handler (\<^verbatim>\<open>errors.go\<close>): registration, middleware,
  and the handling of one request.  \<^verbatim>\<open>trees\<close> is an association list, whose order stands for the
  unspecified iteration order of a Go map.  The record \<open>stdlib\<close> holds what the code calls of the
  standard library and the model does not define.

  A request ends with the panic that escapes from the router, if any, and the context; a result
  \<open>None\<close> would be a chain that runs out of fuel (\<open>Next_returns\<close>: none does).
\<close>

section \<open>State\<close>

type_synonym handler = "ctx hprog"

record stdlib =
  libJSONError :: "string \<Rightarrow> string"
  libStack :: string
  libRelative :: "string \<Rightarrow> bool"
  libPage :: "string \<Rightarrow> int \<Rightarrow> string"

type_synonym errorHandler = "ctx \<Rightarrow> goerr \<Rightarrow> pval option \<times> ctx"

record router =
  rtTrees :: "(string \<times> handler list node) list"
  rtMiddleware :: "handler list"
  rtRoutes :: "route list"
  rtMaxParams :: int
  rtRedirectTrailingSlash :: bool
  rtNotFound :: "handler option"
  rtMethodNotAllowed :: "handler option"
  rtErrorHandler :: errorHandler
  rtRecovery :: bool
  rtShutdownTimeout :: int
  rtHandleHEAD :: bool
  rtHandleOPTIONS :: bool
  rtBanner :: bool
  rtRenderer :: "renderer option"

section \<open>Errors as responses\<close>

text \<open>\<^verbatim>\<open>http.Error\<close>.\<close>

definition http_Error :: "string \<Rightarrow> int \<Rightarrow> ctx \<Rightarrow> ctx" where
  "http_Error msg code c =
     snd (cxWrite (msg @ [LF])
       (cxWriteHeader code
         (mapHeader (hSet ''X-Content-Type-Options'' ''nosniff'')
           (mapHeader (hSet ''Content-Type'' MIMEText) (mapHeader (hDel ''Content-Length'') c)))))"

definition DefaultErrorHandler :: "stdlib \<Rightarrow> errorHandler" where
  "DefaultErrorHandler lib c err =
     (if cxWritten c then (None, c)
      else case err of
             HTTPError code m i \<Rightarrow>
               let msg = (if m = [] then StatusText code else m)
               in (None, snd (cx_JSON code (libJSONError lib msg, None) c))
           | _ \<Rightarrow> (None, snd (cx_JSON 500 (libJSONError lib (StatusText 500), None) c)))"

section \<open>Registration\<close>

definition New :: "stdlib \<Rightarrow> router" where
  "New lib =
     \<lparr>rtTrees = [], rtMiddleware = [], rtRoutes = [], rtMaxParams = 0, rtRedirectTrailingSlash = True,
      rtNotFound = None, rtMethodNotAllowed = None, rtErrorHandler = DefaultErrorHandler lib,
      rtRecovery = True, rtShutdownTimeout = 0, rtHandleHEAD = True, rtHandleOPTIONS = True, rtBanner = True, rtRenderer = None\<rparr>"

definition compose :: "router \<Rightarrow> handler list \<Rightarrow> handler list" where
  "compose r handlers = rtMiddleware r @ handlers"

fun countParams :: "string \<Rightarrow> int" where
  "countParams [] = 0"
| "countParams (c # s) = (if isWild c then 1 else 0) + countParams s"

definition Handle :: "string \<Rightarrow> string \<Rightarrow> handler list \<Rightarrow> router \<Rightarrow> (gopanic + router) option" where
  "Handle method path handlers r =
     (if method = [] then Some (Inl (PanicMsg ''goxpress: HTTP method must not be empty''))
      else if path = [] \<or> path ! 0 \<noteq> CHR ''/'' then
        Some (Inl (PanicMsg (''goxpress: path must begin with '' @ quoted ''/'' @ '', got '' @ quoted path)))
      else if handlers = [] then
        Some (Inl (PanicMsg (''goxpress: at least one handler is required for '' @ quoted path)))
      else
        let root = (case map_of (rtTrees r) method of None \<Rightarrow> emptyNode | Some n \<Rightarrow> n)
        in case addRoute root path (compose r handlers) of
             None \<Rightarrow> None
           | Some (Inl e) \<Rightarrow> Some (Inl e)
           | Some (Inr root') \<Rightarrow>
               Some (Inr (r\<lparr>rtTrees := AList.update method root' (rtTrees r),
                            rtMaxParams := (if rtMaxParams r < countParams path then countParams path else rtMaxParams r),
                            rtRoutes := rtRoutes r @ [newRoute method path]\<rparr>)))"

text \<open>\<^verbatim>\<open>Hide\<close> on the route that \<^verbatim>\<open>Handle\<close> returns, the last one.\<close>

definition hideLast :: "router \<Rightarrow> router" where
  "hideLast r = r\<lparr>rtRoutes := butlast (rtRoutes r) @ [ro_Hide (last (rtRoutes r))]\<rparr>"

definition Use :: "handler list \<Rightarrow> router \<Rightarrow> router" where
  "Use middleware r = r\<lparr>rtMiddleware := rtMiddleware r @ middleware\<rparr>"

definition rt_Get :: "string \<Rightarrow> handler list \<Rightarrow> router \<Rightarrow> (gopanic + router) option" where
  "rt_Get = Handle ''GET''"

definition rt_Post :: "string \<Rightarrow> handler list \<Rightarrow> router \<Rightarrow> (gopanic + router) option" where
  "rt_Post = Handle ''POST''"

definition rt_Put :: "string \<Rightarrow> handler list \<Rightarrow> router \<Rightarrow> (gopanic + router) option" where
  "rt_Put = Handle ''PUT''"

definition rt_Patch :: "string \<Rightarrow> handler list \<Rightarrow> router \<Rightarrow> (gopanic + router) option" where
  "rt_Patch = Handle ''PATCH''"

definition rt_Delete :: "string \<Rightarrow> handler list \<Rightarrow> router \<Rightarrow> (gopanic + router) option" where
  "rt_Delete = Handle ''DELETE''"

definition rt_Head :: "string \<Rightarrow> handler list \<Rightarrow> router \<Rightarrow> (gopanic + router) option" where
  "rt_Head = Handle ''HEAD''"

definition rt_Options :: "string \<Rightarrow> handler list \<Rightarrow> router \<Rightarrow> (gopanic + router) option" where
  "rt_Options = Handle ''OPTIONS''"

section \<open>Running a chain\<close>

type_synonym served = "pval option \<times> ctx cstate"

definition callErrorHandler :: "router \<Rightarrow> goerr \<Rightarrow> ctx cstate \<Rightarrow> served" where
  "callErrorHandler r err s = (case rtErrorHandler r (cctx s) err of (p, c) \<Rightarrow> (p, s\<lparr>cctx := c\<rparr>))"

text \<open>The deferred \<^verbatim>\<open>recover\<close>, on a panic with the value \<open>v\<close>.\<close>

definition recoverPanic :: "stdlib \<Rightarrow> router \<Rightarrow> pval \<Rightarrow> ctx cstate \<Rightarrow> served" where
  "recoverPanic lib r v s =
     (if v = ErrAbortHandler then (Some v, s)
      else callErrorHandler r (PanicError v (libStack lib)) s)"

text \<open>\<^verbatim>\<open>runChain\<close>; a panic of the error handler is recovered like one of the chain.\<close>

definition runChain :: "stdlib \<Rightarrow> router \<Rightarrow> handler list \<Rightarrow> ctx cstate \<Rightarrow> served option" where
  "runChain lib r handlers s =
     (case Next handlers (s\<lparr>cindex := -1\<rparr>) of
        None \<Rightarrow> None
      | Some (out, s1) \<Rightarrow>
          let (p, s2) = (case out of
                           Inl v \<Rightarrow> (Some v, s1)
                         | Inr None \<Rightarrow> (None, s1)
                         | Inr (Some err) \<Rightarrow> callErrorHandler r err s1)
          in Some (case p of
                     None \<Rightarrow> (None, s2)
                   | Some v \<Rightarrow> if rtRecovery r then recoverPanic lib r v s2 else (Some v, s2)))"

section \<open>Dispatch\<close>

definition notFoundHandler :: "int \<Rightarrow> handler option \<Rightarrow> handler" where
  "notFoundHandler code h =
     (case h of Some g \<Rightarrow> g | None \<Rightarrow> Effect (http_Error (StatusText code) code) (\<lambda>_. Return None))"

text \<open>The methods that have a handler for a path, in the order of the map.\<close>

fun matchingMethods :: "(string \<times> handler list node) list \<Rightarrow> string \<Rightarrow> gopanic + string list" where
  "matchingMethods [] path = Inr []"
| "matchingMethods ((method, root) # ts) path =
     (case getValue root path [] of
        Inl e \<Rightarrow> Inl e
      | Inr res \<Rightarrow> map_sum id (\<lambda>ms. if rhandlers res \<noteq> None then method # ms else ms) (matchingMethods ts path))"

definition allowHeader :: "router \<Rightarrow> string \<Rightarrow> gopanic + string list option" where
  "allowHeader r path =
     (case matchingMethods (rtTrees r) path of
        Inl e \<Rightarrow> Inl e
      | Inr methods \<Rightarrow>
          if methods = [] then Inr None
          else
            let m1 = (if rtHandleHEAD r \<and> ''GET'' \<in> set methods \<and> ''HEAD'' \<notin> set methods
                      then methods @ [''HEAD''] else methods);
                m2 = (if rtHandleOPTIONS r \<and> ''OPTIONS'' \<notin> set m1 then m1 @ [''OPTIONS''] else m1)
            in Inr (Some (sort m2)))"

definition toggleSlash :: "string \<Rightarrow> string" where
  "toggleSlash path = (if 1 < length path \<and> last path = CHR ''/'' then butlast path else path @ ''/'')"

definition redirectTrailingSlash :: "stdlib \<Rightarrow> ctx \<Rightarrow> ctx" where
  "redirectTrailingSlash lib c =
     (let req = cxRequest c;
          code = (if reqMethod req \<noteq> ''GET'' then 308 else 301)
      in http_Redirect (libRelative lib) (libPage lib)
           (URL_String (reqRawPath req) (toggleSlash (reqPath req)) (reqQueryText req)) code c)"

definition gopval :: "gopanic \<Rightarrow> pval" where
  "gopval e = (case e of PanicMsg m \<Rightarrow> PValue m | IndexOutOfRange \<Rightarrow> PError ''index out of range'')"

definition setParams :: "params \<Rightarrow> ctx cstate \<Rightarrow> ctx cstate" where
  "setParams ps s = s\<lparr>cctx := (cctx s)\<lparr>cxParams := ps\<rparr>\<rparr>"

definition suppressBody :: "ctx cstate \<Rightarrow> ctx cstate" where
  "suppressBody s = s\<lparr>cctx := (cctx s)\<lparr>cxWriter := (cxWriter (cctx s))\<lparr>rwSuppress := True\<rparr>\<rparr>\<rparr>"

definition optionsHandler :: "string \<Rightarrow> handler" where
  "optionsHandler allowList =
     Effect (\<lambda>c. cxWriteHeader 204 (mapHeader (hSet ''Allow'' allowList) c)) (\<lambda>_. Return None)"

text \<open>The end of \<^verbatim>\<open>dispatch\<close>: OPTIONS, 405 and 404.\<close>

definition dispatchRest :: "stdlib \<Rightarrow> router \<Rightarrow> ctx cstate \<Rightarrow> served option" where
  "dispatchRest lib r s =
     (let method = reqMethod (cxRequest (cctx s)); path = reqPath (cxRequest (cctx s))
      in case allowHeader r path of
           Inl e \<Rightarrow> Some (Some (gopval e), s)
         | Inr (Some allow) \<Rightarrow>
             if method = ''OPTIONS'' \<and> rtHandleOPTIONS r then
               runChain lib r (compose r [optionsHandler (joinStrings '', '' allow)]) s
             else
               runChain lib r (compose r [notFoundHandler 405 (rtMethodNotAllowed r)])
                 (s\<lparr>cctx := mapHeader (hSet ''Allow'' (joinStrings '', '' allow)) (cctx s)\<rparr>)
         | Inr None \<Rightarrow>
             runChain lib r (compose r [notFoundHandler 404 (rtNotFound r)]) s)"

text \<open>Its middle: a HEAD request goes to the GET handler.\<close>

definition dispatchHead :: "stdlib \<Rightarrow> router \<Rightarrow> ctx cstate \<Rightarrow> served option" where
  "dispatchHead lib r s =
     (let method = reqMethod (cxRequest (cctx s)); path = reqPath (cxRequest (cctx s))
      in if method = ''HEAD'' \<and> rtHandleHEAD r then
           case map_of (rtTrees r) ''GET'' of
             None \<Rightarrow> dispatchRest lib r s
           | Some root \<Rightarrow>
               (case getValue root path (cxParams (cctx s)) of
                  Inl e \<Rightarrow> Some (Some (gopval e), s)
                | Inr res \<Rightarrow>
                    (case rhandlers res of
                       Some hs \<Rightarrow> runChain lib r hs (suppressBody (setParams (rparams res) s))
                     | None \<Rightarrow> dispatchRest lib r s))
         else dispatchRest lib r s)"

definition dispatch :: "stdlib \<Rightarrow> router \<Rightarrow> ctx cstate \<Rightarrow> served option" where
  "dispatch lib r s =
     (let method = reqMethod (cxRequest (cctx s)); path = reqPath (cxRequest (cctx s))
      in case map_of (rtTrees r) method of
           None \<Rightarrow> dispatchHead lib r s
         | Some root \<Rightarrow>
             (case getValue root path (cxParams (cctx s)) of
                Inl e \<Rightarrow> Some (Some (gopval e), s)
              | Inr res \<Rightarrow>
                  (case rhandlers res of
                     Some hs \<Rightarrow> runChain lib r hs (setParams (rparams res) s)
                   | None \<Rightarrow>
                       if path \<noteq> ''/'' \<and> rtRedirectTrailingSlash r \<and> rtsr res
                       then Some (None, s\<lparr>cctx := redirectTrailingSlash lib (cctx s)\<rparr>)
                       else dispatchHead lib r s)))"

text \<open>\<^verbatim>\<open>ServeHTTP\<close>; \<open>pooled\<close> is the context the pool hands out.\<close>

definition ServeHTTP :: "stdlib \<Rightarrow> router \<Rightarrow> stdWriter \<Rightarrow> request \<Rightarrow> ctx cstate \<Rightarrow> served option" where
  "ServeHTTP lib r w req pooled =
     (let s = cx_reset w req pooled
      in dispatch lib r (s\<lparr>cctx := (cctx s)\<lparr>cxRenderer := rtRenderer r\<rparr>\<rparr>))"

end
