(* ===== verification/RouterSpec.thy ===== *)
theory RouterSpec
  imports Router
begin

text \<open>
  What the router promises, over the tables its set-up calls write down: \<open>tableOf\<close> reads off a list
  of \<^verbatim>\<open>Use\<close> and \<^verbatim>\<open>Handle\<close> calls, for each method, the patterns with the chains they are composed to,
  and a request is served by scanning these tables.
\<close>

section \<open>Set-up calls and their tables\<close>

datatype setupCall = SUse "handler list" | SHandle string string "handler list"

fun runSetup :: "setupCall list \<Rightarrow> router \<Rightarrow> (gopanic + router) option" where
  "runSetup [] r = Some (Inr r)"
| "runSetup (SUse hs # ops) r = runSetup ops (Use hs r)"
| "runSetup (SHandle m p hs # ops) r =
     (case Handle m p hs r of
        None \<Rightarrow> None
      | Some (Inl e) \<Rightarrow> Some (Inl e)
      | Some (Inr r') \<Rightarrow> runSetup ops r')"

fun tableOf :: "handler list \<Rightarrow> setupCall list \<Rightarrow> string \<Rightarrow> (string \<times> handler list) list" where
  "tableOf mw [] m = []"
| "tableOf mw (SUse hs # ops) m = tableOf (mw @ hs) ops m"
| "tableOf mw (SHandle m' p hs # ops) m = (if m' = m then (p, mw @ hs) # tableOf mw ops m else tableOf mw ops m)"

fun methodsOf :: "setupCall list \<Rightarrow> string list" where
  "methodsOf [] = []"
| "methodsOf (SUse hs # ops) = methodsOf ops"
| "methodsOf (SHandle m p hs # ops) = List.insert m (methodsOf ops)"

fun callOK :: "setupCall \<Rightarrow> bool" where
  "callOK (SUse hs) \<longleftrightarrow> True"
| "callOK (SHandle m p hs) \<longleftrightarrow> m \<noteq> [] \<and> hs \<noteq> []"

text \<open>The registrations of each method are conflict-free, whatever other methods have.\<close>

definition goodSetup :: "setupCall list \<Rightarrow> bool" where
  "goodSetup ops \<longleftrightarrow> list_all callOK ops \<and> list_all (\<lambda>m. conflictFree (tableOf [] ops m)) (methodsOf ops)"

text \<open>A router on which nothing is registered yet; its options may have been set.\<close>

definition blank :: "router \<Rightarrow> bool" where
  "blank r \<longleftrightarrow> rtTrees r = [] \<and> rtMiddleware r = [] \<and> rtMaxParams r = 0"

lemma methodsOf_table: "tableOf mw ops m \<noteq> [] \<Longrightarrow> m \<in> set (methodsOf ops)"
  by (induction mw ops m rule: tableOf.induct) (auto split: if_splits)

lemma goodSetup_conflictFree: "goodSetup ops \<Longrightarrow> conflictFree (tableOf [] ops m)"
  using methodsOf_table [of "[]" ops m]
  by (cases "tableOf [] ops m = []") (auto simp: goodSetup_def list_all_iff conflictFree_def)

lemma conflictFree_append:
  "conflictFree (xs @ ys) \<longleftrightarrow>
     conflictFree xs \<and> conflictFree ys \<and> (\<forall>x\<in>set xs. \<forall>y\<in>set ys. compat (pat (fst x)) (pat (fst y)))"
  by (induction xs) (auto simp: conflictFree_def)

section \<open>The invariant of the router\<close>

definition treeFor :: "(string \<times> 'h) list \<Rightarrow> 'h node option \<Rightarrow> bool" where
  "treeFor tab t \<longleftrightarrow>
     (case t of None \<Rightarrow> tab = [] | Some n \<Rightarrow> rootOK n \<and> rootRoutes n = denotes tab \<and> tab \<noteq> [])"

definition routerInv :: "(string \<Rightarrow> (string \<times> handler list) list) \<Rightarrow> router \<Rightarrow> bool" where
  "routerInv T r \<longleftrightarrow> distinct (map fst (rtTrees r)) \<and> (\<forall>m. treeFor (T m) (map_of (rtTrees r) m))"

definition sameOptions :: "router \<Rightarrow> router \<Rightarrow> bool" where
  "sameOptions r r' \<longleftrightarrow>
     rtRedirectTrailingSlash r' = rtRedirectTrailingSlash r \<and> rtNotFound r' = rtNotFound r \<and>
     rtMethodNotAllowed r' = rtMethodNotAllowed r \<and> rtErrorHandler r' = rtErrorHandler r \<and>
     rtRecovery r' = rtRecovery r \<and> rtHandleHEAD r' = rtHandleHEAD r \<and>
     rtHandleOPTIONS r' = rtHandleOPTIONS r \<and> rtRenderer r' = rtRenderer r"

lemma denotes_snoc: "denotes (tab @ [r]) = insert (pat (fst r), snd r) (denotes tab)"
  by (auto simp: denotes_def)

lemma Handle_ok:
  assumes inv: "routerInv T r" and call: "m \<noteq> []" "hs \<noteq> []"
    and cf: "conflictFree (T m @ [(p, rtMiddleware r @ hs)])"
  shows "\<exists>r'. Handle m p hs r = Some (Inr r') \<and> rtMiddleware r' = rtMiddleware r \<and> sameOptions r r' \<and>
    routerInv (T(m := T m @ [(p, rtMiddleware r @ hs)])) r' \<and>
    rtMaxParams r' = max (rtMaxParams r) (countParams p)"
proof -
  let ?root = "case map_of (rtTrees r) m of None \<Rightarrow> emptyNode | Some n \<Rightarrow> n"
  have T: "treeFor (T m) (map_of (rtTrees r) m)" using inv by (simp add: routerInv_def)
  then have root: "rootOK ?root" "rootRoutes ?root = denotes (T m)"
    by (auto simp: treeFor_def rootOK_empty split: option.splits)
  have p: "readable p" and fits: "fits (pat p) (denotes (T m))"
    using cf by (auto simp: conflictFree_append fits_def denotes_def compat_sym)
  have head: "p \<noteq> []" "p ! 0 = CHR ''/''"
    using p by (auto simp: readable_def hd_conv_nth)
  obtain n where n: "addRoute ?root p (rtMiddleware r @ hs) = Some (Inr n)" "rootOK n"
    "rootRoutes n = insert (pat p, rtMiddleware r @ hs) (denotes (T m))"
    using tree.reg_fits [OF root(1) p, of "rtMiddleware r @ hs"] fits root(2) by auto
  let ?r = "r\<lparr>rtTrees := AList.update m n (rtTrees r),
      rtMaxParams := (if rtMaxParams r < countParams p then countParams p else rtMaxParams r),
      rtRoutes := rtRoutes r @ [newRoute m p]\<rparr>"
  have "Handle m p hs r = Some (Inr ?r)"
    using call head n(1) by (simp add: Handle_def compose_def Let_def)
  moreover have "routerInv (T(m := T m @ [(p, rtMiddleware r @ hs)])) ?r"
    using inv n by (auto simp: routerInv_def treeFor_def update_conv' denotes_snoc distinct_update split: option.splits)
  ultimately show ?thesis by (auto simp: sameOptions_def)
qed

lemma runSetup_ok:
  "routerInv T r \<Longrightarrow> list_all callOK ops \<Longrightarrow> (\<And>m. conflictFree (T m @ tableOf (rtMiddleware r) ops m)) \<Longrightarrow>
     \<exists>r'. runSetup ops r = Some (Inr r') \<and> routerInv (\<lambda>m. T m @ tableOf (rtMiddleware r) ops m) r' \<and> sameOptions r r'"
proof (induction ops r arbitrary: T rule: runSetup.induct)
  case (1 r)
  then show ?case by (simp add: sameOptions_def)
next
  case (2 hs ops r)
  have "routerInv T (Use hs r)" using 2(2) by (simp add: routerInv_def Use_def)
  from "2.IH" [OF this] show ?case
    using 2(3,4) by (auto simp: Use_def sameOptions_def)
next
  case (3 m p hs ops r)
  let ?e = "(p, rtMiddleware r @ hs)"
  have cf: "conflictFree (T m @ [?e])"
    using 3(4) [of m] by (auto simp: conflictFree_append)
  obtain r1 where r1: "Handle m p hs r = Some (Inr r1)" "rtMiddleware r1 = rtMiddleware r" "sameOptions r r1"
    "routerInv (T(m := T m @ [?e])) r1"
    using Handle_ok [OF 3(2) _ _ cf] 3(3) by auto
  have eq: "(T(m := T m @ [?e])) k @ tableOf (rtMiddleware r1) ops k =
      T k @ tableOf (rtMiddleware r) (SHandle m p hs # ops) k" for k
    by (simp add: r1(2))
  have "\<exists>r'. runSetup ops r1 = Some (Inr r') \<and>
      routerInv (\<lambda>k. (T(m := T m @ [?e])) k @ tableOf (rtMiddleware r1) ops k) r' \<and> sameOptions r1 r'"
    by (rule "3.IH" [OF r1(1) _ r1(4)]) (use 3(3,4) eq in auto)
  then show ?case
    unfolding eq using r1(1,3) by (auto simp: sameOptions_def)
qed

lemma setup_runs:
  assumes "goodSetup ops" "blank r0"
  shows "\<exists>r. runSetup ops r0 = Some (Inr r) \<and> routerInv (tableOf [] ops) r \<and> sameOptions r0 r"
proof -
  have "routerInv (\<lambda>m. []) r0" using assms(2) by (simp add: routerInv_def treeFor_def blank_def)
  from runSetup_ok [OF this, of ops] show ?thesis
    using assms goodSetup_conflictFree [OF assms(1)] by (auto simp: blank_def goodSetup_def)
qed

section \<open>Lookup through the router\<close>

lemma lookup_tree:
  assumes "routerInv T r" "map_of (rtTrees r) m = Some n"
  shows "\<exists>res. getValue n path [] = Inr res \<and> rhandlers res = map_option fst (scan (T m) path) \<and>
    (\<forall>hs ps. scan (T m) path = Some (hs, ps) \<longrightarrow> rparams res = ps)"
proof -
  have "treeFor (T m) (Some n)" using assms unfolding routerInv_def by metis
  then have n: "rootOK n" "rootRoutes n = denotes (T m)" by (auto simp: treeFor_def)
  obtain res where "getValue n path [] = Inr res" "agrees (denotes (T m)) path [] res"
    using tree.look_agrees [OF n(1)] n(2) by metis
  then show ?thesis using agrees_scan [of "T m" path res] by blast
qed

lemma lookup_none: "routerInv T r \<Longrightarrow> map_of (rtTrees r) m = None \<Longrightarrow> scan (T m) path = None"
proof -
  assume "routerInv T r" "map_of (rtTrees r) m = None"
  then have "treeFor (T m) None" unfolding routerInv_def by metis
  then show ?thesis by (simp add: treeFor_def)
qed

section \<open>The Allow header\<close>

lemma matchingMethods_filter:
  "(\<And>m n. (m, n) \<in> set ts \<Longrightarrow> \<exists>res. getValue n path [] = Inr res \<and> (rhandlers res \<noteq> None \<longleftrightarrow> P m)) \<Longrightarrow>
     matchingMethods ts path = Inr (filter P (map fst ts))"
proof (induction ts)
  case (Cons t ts)
  obtain m n where t: "t = (m, n)" by force
  obtain res where "getValue n path [] = Inr res" "rhandlers res \<noteq> None \<longleftrightarrow> P m"
    using Cons.prems [of m n] t by auto
  moreover have "matchingMethods ts path = Inr (filter P (map fst ts))"
    using Cons by simp
  ultimately show ?case by (auto simp: t)
qed simp

definition matching :: "(string \<Rightarrow> (string \<times> handler list) list) \<Rightarrow> router \<Rightarrow> string \<Rightarrow> string set" where
  "matching T r path = {m \<in> fst ` set (rtTrees r). scan (T m) path \<noteq> None}"

text \<open>The methods to advertise: those with a matching route, and the two that are answered
  automatically.\<close>

definition advertised :: "router \<Rightarrow> string set \<Rightarrow> string set" where
  "advertised r M =
     M \<union> (if rtHandleHEAD r \<and> ''GET'' \<in> M then {''HEAD''} else {}) \<union>
         (if rtHandleOPTIONS r then {''OPTIONS''} else {})"

lemma matching_iff: "routerInv T r \<Longrightarrow> m \<in> matching T r path \<longleftrightarrow> scan (T m) path \<noteq> None"
  using lookup_none [of T r m path] by (cases "m \<in> fst ` set (rtTrees r)") (auto simp: matching_def map_of_eq_None_iff)

lemma set_addMissing: "set (if b \<and> x \<notin> set xs then xs @ [x] else xs) = set xs \<union> (if b then {x} else {})"
  by auto

lemma distinct_addMissing: "distinct xs \<Longrightarrow> distinct (if b \<and> x \<notin> set xs then xs @ [x] else xs)"
  by simp

lemma sort_addMissing:
  assumes "distinct ms"
  shows "sort (let m1 = (if h \<and> g \<in> set ms \<and> x \<notin> set ms then ms @ [x] else ms)
               in if b \<and> y \<notin> set m1 then m1 @ [y] else m1) =
    sorted_list_of_set (set ms \<union> (if h \<and> g \<in> set ms then {x} else {}) \<union> (if b then {y} else {}))"
proof -
  define m1 where "m1 = (if (h \<and> g \<in> set ms) \<and> x \<notin> set ms then ms @ [x] else ms)"
  define m2 where "m2 = (if b \<and> y \<notin> set m1 then m1 @ [y] else m1)"
  have "distinct m2" unfolding m1_def m2_def by (intro distinct_addMissing assms)
  then have "sort m2 = sorted_list_of_set (set m2)"
    by (simp add: sorted_list_of_set_sort_remdups distinct_remdups_id)
  moreover have "set m2 = set m1 \<union> (if b then {y} else {})" unfolding m2_def by (rule set_addMissing)
  moreover have "set m1 = set ms \<union> (if h \<and> g \<in> set ms then {x} else {})" unfolding m1_def by (rule set_addMissing)
  ultimately have "sort m2 = sorted_list_of_set (set ms \<union> (if h \<and> g \<in> set ms then {x} else {}) \<union> (if b then {y} else {}))"
    by (simp only:)
  then show ?thesis unfolding m2_def m1_def Let_def conj_assoc .
qed

lemma allowHeader_spec:
  assumes "routerInv T r"
  shows "allowHeader r path =
    Inr (if matching T r path = {} then None
         else Some (sorted_list_of_set (advertised r (matching T r path))))"
proof -
  let ?P = "\<lambda>m. scan (T m) path \<noteq> None" and ?ts = "rtTrees r"
  have d: "distinct (map fst ?ts)" using assms by (simp add: routerInv_def)
  have "\<exists>res. getValue n path [] = Inr res \<and> (rhandlers res \<noteq> None \<longleftrightarrow> ?P m)" if "(m, n) \<in> set ?ts" for m n
  proof -
    have "map_of ?ts m = Some n" using d that by simp
    from lookup_tree [OF assms this, of path] show ?thesis by auto
  qed
  then have mm: "matchingMethods ?ts path = Inr (filter ?P (map fst ?ts))"
    by (rule matchingMethods_filter)
  let ?ms = "filter ?P (map fst ?ts)"
  have M: "set ?ms = matching T r path" by (auto simp: matching_def)
  have dm: "distinct ?ms" using d by simp
  show ?thesis
  proof (cases "?ms = []")
    case True
    then have "matching T r path = {}" using M by simp
    then show ?thesis using mm True by (simp add: allowHeader_def)
  next
    case False
    then have ne: "matching T r path \<noteq> {}" using M by (metis set_empty)
    then show ?thesis
      using mm False sort_addMissing [OF dm, of "rtHandleHEAD r" "''GET''" "''HEAD''" "rtHandleOPTIONS r" "''OPTIONS''"]
      unfolding allowHeader_def advertised_def M [symmetric] by (simp only: sum.case if_False Let_def)
  qed
qed

section \<open>Dispatch by scanning\<close>

definition restSpec ::
    "stdlib \<Rightarrow> router \<Rightarrow> (string \<Rightarrow> (string \<times> handler list) list) \<Rightarrow> ctx cstate \<Rightarrow> served option" where
  "restSpec lib r T s =
     (let m = reqMethod (cxRequest (cctx s)); p = reqPath (cxRequest (cctx s)); M = matching T r p;
          allow = joinStrings '', '' (sorted_list_of_set (advertised r M))
      in if M = {} then runChain lib r (compose r [notFoundHandler 404 (rtNotFound r)]) s
         else if m = ''OPTIONS'' \<and> rtHandleOPTIONS r then runChain lib r (compose r [optionsHandler allow]) s
         else runChain lib r (compose r [notFoundHandler 405 (rtMethodNotAllowed r)])
                (s\<lparr>cctx := mapHeader (hSet ''Allow'' allow) (cctx s)\<rparr>))"

definition dispatchSpec ::
    "stdlib \<Rightarrow> router \<Rightarrow> (string \<Rightarrow> (string \<times> handler list) list) \<Rightarrow> ctx cstate \<Rightarrow> served option" where
  "dispatchSpec lib r T s =
     (let m = reqMethod (cxRequest (cctx s)); p = reqPath (cxRequest (cctx s))
      in case scan (T m) p of
           Some (hs, ps) \<Rightarrow> runChain lib r hs (setParams ps s)
         | None \<Rightarrow>
             (case if m = ''HEAD'' \<and> rtHandleHEAD r then scan (T ''GET'') p else None of
                Some (hs, ps) \<Rightarrow> runChain lib r hs (suppressBody (setParams ps s))
              | None \<Rightarrow> restSpec lib r T s))"

lemma dispatchRest_spec:
  assumes "routerInv T r"
  shows "dispatchRest lib r s = restSpec lib r T s"
  by (auto simp: dispatchRest_def restSpec_def allowHeader_spec [OF assms] Let_def)

lemma dispatchHead_spec:
  assumes "routerInv T r" "cxParams (cctx s) = []"
  shows "dispatchHead lib r s =
     (let p = reqPath (cxRequest (cctx s))
      in case if reqMethod (cxRequest (cctx s)) = ''HEAD'' \<and> rtHandleHEAD r then scan (T ''GET'') p else None of
           Some (hs, ps) \<Rightarrow> runChain lib r hs (suppressBody (setParams ps s))
         | None \<Rightarrow> restSpec lib r T s)"
proof (cases "reqMethod (cxRequest (cctx s)) = ''HEAD'' \<and> rtHandleHEAD r")
  case True
  show ?thesis
  proof (cases "map_of (rtTrees r) ''GET''")
    case None
    then show ?thesis
      using True lookup_none [OF assms(1) None] by (simp add: dispatchHead_def dispatchRest_spec [OF assms(1)] Let_def)
  next
    case (Some n)
    obtain res where "getValue n (reqPath (cxRequest (cctx s))) [] = Inr res"
      "rhandlers res = map_option fst (scan (T ''GET'') (reqPath (cxRequest (cctx s))))"
      "\<forall>hs ps. scan (T ''GET'') (reqPath (cxRequest (cctx s))) = Some (hs, ps) \<longrightarrow> rparams res = ps"
      using lookup_tree [OF assms(1) Some] by blast
    then show ?thesis
      using True Some by (auto simp: dispatchHead_def dispatchRest_spec [OF assms(1)] Let_def assms(2) split: option.splits)
  qed
next
  case False
  then show ?thesis
    by (auto simp: dispatchHead_def dispatchRest_spec [OF assms(1)] Let_def)
qed

text \<open>The router serves as the tables say, but for a redirect that the tree recommends where no
  pattern of the method matches.\<close>

lemma dispatch_spec:
  assumes "routerInv T r" "cxParams (cctx s) = []"
    and "\<not> rtRedirectTrailingSlash r \<or>
      scan (T (reqMethod (cxRequest (cctx s)))) (reqPath (cxRequest (cctx s))) \<noteq> None"
  shows "dispatch lib r s = dispatchSpec lib r T s"
proof -
  let ?m = "reqMethod (cxRequest (cctx s))" and ?p = "reqPath (cxRequest (cctx s))"
  show ?thesis
  proof (cases "map_of (rtTrees r) ?m")
    case None
    then show ?thesis
      using lookup_none [OF assms(1) None] by (simp add: dispatch_def dispatchSpec_def dispatchHead_spec [OF assms(1,2)] Let_def)
  next
    case (Some n)
    obtain res where "getValue n ?p [] = Inr res" "rhandlers res = map_option fst (scan (T ?m) ?p)"
      "\<forall>hs ps. scan (T ?m) ?p = Some (hs, ps) \<longrightarrow> rparams res = ps"
      using lookup_tree [OF assms(1) Some] by blast
    then show ?thesis
      using Some assms(2,3) by (auto simp: dispatch_def dispatchSpec_def dispatchHead_spec [OF assms(1,2)] Let_def split: option.splits)
  qed
qed

end
