(* ===== verification/RouterProps.thy ===== *)
theory RouterProps
  imports RouterSpec
begin

text \<open>
  Properties of the router: the tables of its set-up are what it serves, the Allow header, panics and
  errors, the pool, and the size of the parameter slices.
\<close>

section \<open>Parts of a set-up\<close>

lemma runSetup_append:
  "runSetup (xs @ ys) r =
     (case runSetup xs r of
        None \<Rightarrow> None
      | Some (Inl e) \<Rightarrow> Some (Inl e)
      | Some (Inr r1) \<Rightarrow> runSetup ys r1)"
  by (induction xs r rule: runSetup.induct) (auto split: option.split sum.split)

definition usedBy :: "setupCall list \<Rightarrow> handler list" where
  "usedBy ops = concat (map (\<lambda>op. case op of SUse hs \<Rightarrow> hs | _ \<Rightarrow> []) ops)"

lemma tableOf_append: "tableOf mw (xs @ ys) m = tableOf mw xs m @ tableOf (mw @ usedBy xs) ys m"
  by (induction mw xs m rule: tableOf.induct) (auto simp: usedBy_def)

lemma scan_matches: "scan tab s = Some (x, ps) \<Longrightarrow> \<exists>p. (p, x) \<in> set tab \<and> matches (pat p) s = Some ps"
proof (induction tab)
  case (Cons r tab)
  then show ?case by (cases r; cases "matches (pat (fst r)) s") auto
qed simp

lemma scan_entry_found:
  assumes "conflictFree tab" "(p, x) \<in> set tab" "matches (pat p) s = Some ps"
  shows "scan tab s = Some (x, ps)"
  using assms
proof (induction tab)
  case (Cons r tab)
  show ?case
  proof (cases "r = (p, x)")
    case True
    then show ?thesis using Cons.prems(3) by simp
  next
    case False
    then have t: "(p, x) \<in> set tab" using Cons.prems(2) by auto
    then have "compat (pat (fst r)) (pat p)" using Cons.prems(1) by (auto simp: conflictFree_def)
    then have "matches (pat (fst r)) s = None"
      using compat_disjoint [of "pat (fst r)" "pat p" s] Cons.prems(3) by (cases "matches (pat (fst r)) s") auto
    then show ?thesis using Cons.IH Cons.prems t by (simp add: conflictFree_def)
  qed
qed simp

section \<open>Serving ends\<close>

lemma DefaultErrorHandler_quiet [simp]: "fst (DefaultErrorHandler lib c err) = None"
  by (auto simp: DefaultErrorHandler_def Let_def split: goerr.splits)

definition contained :: "served option \<Rightarrow> bool" where
  "contained res \<longleftrightarrow> (\<exists>p s'. res = Some (p, s') \<and> (p = None \<or> p = Some ErrAbortHandler))"

lemma callErrorHandler_quiet:
  "rtErrorHandler r = DefaultErrorHandler lib \<Longrightarrow> \<exists>s'. callErrorHandler r err s = (None, s')"
  using DefaultErrorHandler_quiet [of lib "cctx s" err]
  by (cases "DefaultErrorHandler lib (cctx s) err") (simp add: callErrorHandler_def)

lemma recoverPanic_contained:
  "rtErrorHandler r = DefaultErrorHandler lib \<Longrightarrow> contained (Some (recoverPanic lib r v s))"
  using callErrorHandler_quiet [of r lib "PanicError v (libStack lib)" s]
  by (auto simp: recoverPanic_def contained_def)

lemma runChain_contained:
  assumes "int (length hs) \<le> abortIndex" "rtRecovery r" "rtErrorHandler r = DefaultErrorHandler lib"
  shows "contained (runChain lib r hs s)"
proof -
  obtain out s1 where n: "Next hs (s\<lparr>cindex := -1\<rparr>) = Some (out, s1)"
    using Next_total [OF assms(1)] by blast
  show ?thesis
  proof (cases out)
    case (Inl v)
    then show ?thesis
      using n assms(2) recoverPanic_contained [OF assms(3)] by (simp add: runChain_def)
  next
    case (Inr e)
    show ?thesis
    proof (cases e)
      case None
      then show ?thesis using n Inr by (simp add: runChain_def contained_def)
    next
      case (Some err)
      obtain s2 where "callErrorHandler r err s1 = (None, s2)"
        using callErrorHandler_quiet [OF assms(3)] by blast
      then show ?thesis using n Inr Some by (simp add: runChain_def contained_def)
    qed
  qed
qed

lemma dispatch_cases:
  assumes "routerInv T r" "cxParams (cctx s) = []"
  shows "dispatch lib r s = dispatchSpec lib r T s \<or>
    dispatch lib r s = Some (None, s\<lparr>cctx := redirectTrailingSlash lib (cctx s)\<rparr>)"
proof -
  let ?m = "reqMethod (cxRequest (cctx s))" and ?p = "reqPath (cxRequest (cctx s))"
  show ?thesis
  proof (cases "map_of (rtTrees r) ?m")
    case None
    then show ?thesis
      using lookup_none [OF assms(1) None] by (simp add: dispatch_def dispatchSpec_def dispatchHead_spec [OF assms] Let_def)
  next
    case (Some n)
    obtain res where res: "getValue n ?p [] = Inr res" "rhandlers res = map_option fst (scan (T ?m) ?p)"
      "\<forall>hs ps. scan (T ?m) ?p = Some (hs, ps) \<longrightarrow> rparams res = ps"
      using lookup_tree [OF assms(1) Some] by blast
    show ?thesis
    proof (cases "scan (T ?m) ?p")
      case None
      then show ?thesis
        using Some res assms(2) by (simp add: dispatch_def dispatchSpec_def dispatchHead_spec [OF assms] Let_def)
    next
      case (Some a)
      then show ?thesis
        using \<open>map_of (rtTrees r) ?m = Some n\<close> res assms(2)
        by (cases a) (simp add: dispatch_def dispatchSpec_def Let_def)
    qed
  qed
qed

definition shortChains :: "(string \<Rightarrow> (string \<times> handler list) list) \<Rightarrow> router \<Rightarrow> bool" where
  "shortChains T r \<longleftrightarrow>
     (\<forall>m. \<forall>e\<in>set (T m). int (length (snd e)) \<le> abortIndex) \<and> int (length (rtMiddleware r)) < abortIndex"

lemma scan_entry: "scan tab p = Some (hs, ps) \<Longrightarrow> \<exists>e\<in>set tab. snd e = hs"
  by (induction tab) (auto split: option.splits)

lemma dispatchSpec_contained:
  assumes "shortChains T r" "rtRecovery r" "rtErrorHandler r = DefaultErrorHandler lib"
  shows "contained (dispatchSpec lib r T s)"
proof -
  have short: "int (length hs) \<le> abortIndex" if "scan (T m) p = Some (hs, ps)" for m p hs ps
    using scan_entry [OF that] assms(1) by (auto simp: shortChains_def)
  have "int (length (compose r [h])) \<le> abortIndex" for h
    using assms(1) by (simp add: shortChains_def compose_def)
  then have rest: "contained (restSpec lib r T s)"
    using runChain_contained [OF _ assms(2,3)] by (simp add: restSpec_def Let_def)
  show ?thesis
    using rest runChain_contained [OF short assms(2,3)]
    by (auto simp: dispatchSpec_def Let_def split: option.splits)
qed

section \<open>Parameters\<close>

fun captures :: "tok list \<Rightarrow> nat" where
  "captures [] = 0"
| "captures (Lit c # ts) = captures ts"
| "captures (t # ts) = Suc (captures ts)"

lemma matches_captures: "matches ts s = Some ps \<Longrightarrow> length ps = captures ts"
  by (induction ts s arbitrary: ps rule: matches.induct) (auto split: if_splits)

lemma captures_append: "captures (map Lit p @ ts) = captures ts"
  by (induction p) auto

lemma countParams_append: "countParams (a @ b) = countParams a + countParams b"
  by (induction a) auto

lemma countParams_noWild: "noWild p \<Longrightarrow> countParams p = 0"
  by (induction p) auto

lemma countParams_name: "goodName nm \<Longrightarrow> countParams nm = 0"
  by (simp add: goodName_def countParams_noWild)

lemma captures_count: "toks p = Some ts \<Longrightarrow> int (captures ts) = countParams p"
proof (induction p arbitrary: ts rule: measure_induct_rule [where f = length])
  case (less p)
  from less.prems show ?case
  proof (cases rule: toks_cases)
    case lits
    then show ?thesis using captures_append [of p "[]"] by (simp add: countParams_noWild)
  next
    case (par pre nm rest us)
    then have p: "p = pre @ CHR '':'' # nm @ rest" "noWild pre" "goodName nm" "toks rest = Some us"
      "ts = map Lit pre @ Par nm # us"
      by (simp_all add: parsePar_def)
    then have "int (captures us) = countParams rest" using less.IH by simp
    with p show ?thesis
      by (simp add: captures_append countParams_append countParams_noWild countParams_name)
  next
    case (catchall pre nm)
    then show ?thesis
      by (simp add: parseCatch_def captures_append countParams_append countParams_noWild countParams_name)
  qed
qed

lemma runSetup_maxParams:
  "runSetup ops r = Some (Inr r') \<Longrightarrow>
     rtMaxParams r \<le> rtMaxParams r' \<and> (\<forall>m. \<forall>e\<in>set (tableOf mw ops m). countParams (fst e) \<le> rtMaxParams r')"
proof (induction ops r arbitrary: mw rule: runSetup.induct)
  case (2 hs ops r)
  then show ?case by (simp add: Use_def)
next
  case (3 m p hs ops r)
  obtain r1 where r1: "Handle m p hs r = Some (Inr r1)" "runSetup ops r1 = Some (Inr r')"
    using "3.prems" by (auto split: option.splits sum.splits)
  then have "rtMaxParams r \<le> rtMaxParams r1 \<and> countParams p \<le> rtMaxParams r1"
    by (auto simp: Handle_def Let_def split: if_splits option.splits sum.splits)
  with "3.IH" [OF r1(1) refl r1(2), of mw] show ?case by (auto intro: order_trans)
qed simp

section \<open>A concrete router\<close>

definition sampleLib :: stdlib where
  "sampleLib =
     \<lparr>libJSONError = (\<lambda>m. ''{error: '' @ m @ ''}''), libStack = ''stack'', libRelative = (\<lambda>u. take 1 u = ''/'' \<and> take 2 u \<noteq> ''//''),
      libPage = (\<lambda>u c. u)\<rparr>"

definition okHandler :: handler where
  "okHandler = leaf (cxWriteHeader 200) None"

definition sampleSetup :: "setupCall list" where
  "sampleSetup =
     [SUse [around id id], SHandle ''GET'' ''/users'' [okHandler], SHandle ''GET'' ''/users/:id'' [okHandler],
      SHandle ''POST'' ''/users'' [okHandler]]"

definition requestFor :: "string \<Rightarrow> string \<Rightarrow> request" where
  "requestFor m p =
     \<lparr>reqMethod = m, reqPath = p, reqRawPath = [], reqQueryText = [], reqHost = [], reqRemoteAddr = [], reqTLS = False, reqQuery = None,
      reqForm = Inr (\<lambda>k. None), reqHeader = (\<lambda>k. None), reqCookies = [], reqContentLength = 0, reqBody = None\<rparr>"

definition freshState :: "string \<Rightarrow> string \<Rightarrow> ctx cstate" where
  "freshState m p =
     \<lparr>cctx = \<lparr>cxWriter = rw_reset freshWriter recycled, cxRequest = requestFor m p, cxParams = [],
       cxQueryCache = None, cxStore = (\<lambda>k. None), cxRenderer = None\<rparr>, cindex = -1\<rparr>"

lemma freshState_simps [simp]:
  "cxParams (cctx (freshState m p)) = []" "reqMethod (cxRequest (cctx (freshState m p))) = m"
  "reqPath (cxRequest (cctx (freshState m p))) = p"
  by (simp_all add: freshState_def requestFor_def)

lemma sampleSetup_good: "goodSetup sampleSetup"
  by code_simp

lemma blank_New: "blank (New lib)"
  by (simp add: blank_def New_def)

lemma sample_runs:
  obtains r where "runSetup sampleSetup (New lib) = Some (Inr r)" "routerInv (tableOf [] sampleSetup) r"
    "sameOptions (New lib) r"
  using setup_runs [OF sampleSetup_good blank_New] by blast

lemma sample_table:
  "tableOf [] sampleSetup m =
     (if m = ''GET'' then [(''/users'', [around id id, okHandler]), (''/users/:id'', [around id id, okHandler])]
      else if m = ''POST'' then [(''/users'', [around id id, okHandler])] else [])"
  by (simp add: sampleSetup_def)

lemma sample_pats: "pat ''/users'' = map Lit ''/users''" "pat ''/users/:id'' = map Lit ''/users/'' @ [Par ''id'']"
  by code_simp+

lemma sample_scan:
  "scan (tableOf [] sampleSetup ''GET'') ''/users/7'' = Some ([around id id, okHandler], [\<lparr>Key = ''id'', Value = ''7''\<rparr>])"
  "scan (tableOf [] sampleSetup ''DELETE'') ''/users'' = None"
  by (simp_all add: sample_table sample_pats)

lemma registered_chain:
  assumes "goodSetup ops" "blank r0" "runSetup ops r0 = Some (Inr r)" "cxParams (cctx s) = []"
    and "scan (tableOf [] ops (reqMethod (cxRequest (cctx s)))) (reqPath (cxRequest (cctx s))) = Some (hs, ps)"
  shows "dispatch lib r s = runChain lib r hs (setParams ps s)"
proof -
  have "routerInv (tableOf [] ops) r" using setup_runs [OF assms(1,2)] assms(3) by auto
  from dispatch_spec [OF this assms(4)] show ?thesis
    using assms(5) by (simp add: dispatchSpec_def Let_def)
qed

section \<open>Properties\<close>

text \<open>A good set-up (every method's patterns conflict-free) runs to its end without a panic.\<close>

theorem setup_succeeds:
  assumes "goodSetup ops" "blank r0"
  shows "\<exists>r. runSetup ops r0 = Some (Inr r)"
  using setup_runs [OF assms] by blast

theorem setup_succeeds_witness: "\<exists>r. runSetup sampleSetup (New sampleLib) = Some (Inr r)"
  by (rule setup_succeeds [OF sampleSetup_good blank_New])

text \<open>C3. In a set-up without conflicting patterns, a request for which the set-up wrote down a route runs
  that route's chain, the middleware in force when it was registered and then its handlers, with the
  parameters of its pattern, whatever options are set and whatever other routes the set-up has.\<close>

theorem registered_route_is_served:
  assumes "goodSetup ops" "blank r0" "runSetup ops r0 = Some (Inr r)" "cxParams (cctx s) = []"
    and "scan (tableOf [] ops (reqMethod (cxRequest (cctx s)))) (reqPath (cxRequest (cctx s))) = Some (hs, ps)"
  shows "dispatch lib r s = runChain lib r hs (setParams ps s)"
  using assms by (rule registered_chain)

theorem registered_route_is_served_witness:
  "\<exists>r. runSetup sampleSetup (New sampleLib) = Some (Inr r) \<and>
     dispatch sampleLib r (freshState ''GET'' ''/users/7'') =
       runChain sampleLib r [around id id, okHandler]
         (setParams [\<lparr>Key = ''id'', Value = ''7''\<rparr>] (freshState ''GET'' ''/users/7''))"
proof -
  obtain r where r: "runSetup sampleSetup (New sampleLib) = Some (Inr r)"
    by (rule sample_runs)
  have "dispatch sampleLib r (freshState ''GET'' ''/users/7'') =
       runChain sampleLib r [around id id, okHandler]
         (setParams [\<lparr>Key = ''id'', Value = ''7''\<rparr>] (freshState ''GET'' ''/users/7''))"
    by (rule registered_route_is_served [OF sampleSetup_good blank_New r]) (simp_all add: sample_scan)
  with r show ?thesis by blast
qed

text \<open>With trailing-slash redirects off, dispatch is the scan of the tables: the
  route of the method, for HEAD the GET route with the body suppressed, then the automatic OPTIONS
  answer, 405 with the Allow header, and 404, each behind the global middleware.\<close>

theorem dispatch_is_scan:
  assumes "goodSetup ops" "blank r0" "\<not> rtRedirectTrailingSlash r0" "runSetup ops r0 = Some (Inr r)"
    and "cxParams (cctx s) = []"
  shows "dispatch lib r s = dispatchSpec lib r (tableOf [] ops) s"
proof -
  have "routerInv (tableOf [] ops) r" "sameOptions r0 r" using setup_runs [OF assms(1,2)] assms(4) by auto
  from dispatch_spec [OF this(1) assms(5)] show ?thesis
    using assms(3) \<open>sameOptions r0 r\<close> by (simp add: sameOptions_def)
qed

definition plainRouter :: router where
  "plainRouter = (New sampleLib)\<lparr>rtRedirectTrailingSlash := False\<rparr>"

lemma plainRouter_simps [simp]: "blank plainRouter" "\<not> rtRedirectTrailingSlash plainRouter"
  by (simp_all add: plainRouter_def New_def blank_def)

theorem dispatch_is_scan_witness:
  "\<exists>r. runSetup sampleSetup plainRouter = Some (Inr r) \<and>
     dispatch sampleLib r (freshState ''GET'' ''/nothing'') =
       dispatchSpec sampleLib r (tableOf [] sampleSetup) (freshState ''GET'' ''/nothing'')"
proof -
  obtain r where r: "runSetup sampleSetup plainRouter = Some (Inr r)"
    using setup_runs [OF sampleSetup_good plainRouter_simps(1)] by blast
  with dispatch_is_scan [OF sampleSetup_good plainRouter_simps r, of "freshState ''GET'' ''/nothing''" sampleLib]
  show ?thesis by simp
qed

text \<open>C35. The Allow list is sorted, without duplicates, and does not depend on
  the iteration order of the map of trees.\<close>

theorem allow_header_canonical:
  assumes "goodSetup ops" "blank r0" "runSetup ops r0 = Some (Inr r)" "mset ts = mset (rtTrees r)"
  shows "allowHeader (r\<lparr>rtTrees := ts\<rparr>) path = allowHeader r path \<and>
    (\<forall>ms. allowHeader r path = Inr (Some ms) \<longrightarrow> sorted ms \<and> distinct ms)"
proof -
  let ?T = "tableOf [] ops" and ?r = "r\<lparr>rtTrees := ts\<rparr>"
  have inv: "routerInv ?T r" using setup_runs [OF assms(1,2)] assms(3) by auto
  have d: "distinct (map fst ts)"
    using inv assms(4) mset_map [of fst ts] mset_map [of fst "rtTrees r"]
    by (metis mset_eq_imp_distinct_iff routerInv_def)
  have "map_of ts = map_of (rtTrees r)"
    using d inv assms(4) by (intro map_of_inject_set [THEN iffD2]) (auto simp: routerInv_def dest: mset_eq_setD)
  with d have inv': "routerInv ?T ?r" using inv by (simp add: routerInv_def)
  have "matching ?T ?r path = matching ?T r path"
    using matching_iff [OF inv] matching_iff [OF inv'] by blast
  then have "allowHeader ?r path = allowHeader r path"
    by (simp add: allowHeader_spec [OF inv] allowHeader_spec [OF inv'] advertised_def)
  then show ?thesis
    by (auto simp: allowHeader_spec [OF inv] split: if_splits)
qed

theorem allow_header_canonical_witness:
  "\<exists>r. runSetup sampleSetup (New sampleLib) = Some (Inr r) \<and>
     allowHeader (r\<lparr>rtTrees := rev (rtTrees r)\<rparr>) ''/users'' = allowHeader r ''/users''"
proof -
  obtain r where r: "runSetup sampleSetup (New sampleLib) = Some (Inr r)"
    by (rule sample_runs)
  with allow_header_canonical [OF sampleSetup_good blank_New r, of "rev (rtTrees r)" "''/users''"]
  show ?thesis by simp
qed

text \<open>A request that falls through to 405 is told other methods: its own
  method is never in the Allow list that goes with it.\<close>

theorem not_allowed_excludes_method:
  assumes "goodSetup ops" "blank r0" "runSetup ops r0 = Some (Inr r)"
    and "scan (tableOf [] ops m) path = None" "allowHeader r path = Inr (Some allow)"
    and "m = ''HEAD'' \<Longrightarrow> rtHandleHEAD r \<Longrightarrow> scan (tableOf [] ops ''GET'') path = None"
    and "m = ''OPTIONS'' \<Longrightarrow> \<not> rtHandleOPTIONS r"
  shows "m \<notin> set allow"
proof -
  let ?T = "tableOf [] ops"
  have inv: "routerInv ?T r" using setup_runs [OF assms(1,2)] assms(3) by auto
  have fin: "finite (advertised r (matching ?T r path))"
    by (auto simp: advertised_def matching_def)
  have allow: "set allow = advertised r (matching ?T r path)"
    using assms(5) fin by (auto simp: allowHeader_spec [OF inv] split: if_splits)
  show ?thesis
    unfolding allow advertised_def using assms(4,6,7) matching_iff [OF inv] by auto
qed

lemma sample_scans_users:
  "scan (tableOf [] sampleSetup m) ''/users'' =
     (if m = ''GET'' \<or> m = ''POST'' then Some ([around id id, okHandler], []) else None)"
  by (simp add: sample_table sample_pats)

lemma sample_matching:
  assumes "routerInv (tableOf [] sampleSetup) r"
  shows "matching (tableOf [] sampleSetup) r ''/users'' = {''GET'', ''POST''}"
  using matching_iff [OF assms] by (auto simp: sample_scans_users split: if_splits)

lemma sample_allow:
  assumes "routerInv (tableOf [] sampleSetup) r" "sameOptions (New lib) r"
  shows "allowHeader r ''/users'' = Inr (Some [''GET'', ''HEAD'', ''OPTIONS'', ''POST''])"
proof -
  have "advertised r {''GET'', ''POST''} = set [''GET'', ''HEAD'', ''OPTIONS'', ''POST'']"
    using assms(2) by (auto simp: advertised_def sameOptions_def New_def)
  moreover have "sorted_list_of_set (set [''GET'', ''HEAD'', ''OPTIONS'', ''POST'']) = [''GET'', ''HEAD'', ''OPTIONS'', ''POST'']"
    by (subst sorted_list_of_set_sort_remdups) code_simp
  ultimately show ?thesis
    by (simp only: allowHeader_spec [OF assms(1)] sample_matching [OF assms(1)]) simp
qed

theorem not_allowed_excludes_method_witness:
  "\<exists>r. runSetup sampleSetup (New sampleLib) = Some (Inr r) \<and>
     allowHeader r ''/users'' = Inr (Some [''GET'', ''HEAD'', ''OPTIONS'', ''POST'']) \<and>
     ''DELETE'' \<notin> set [''GET'', ''HEAD'', ''OPTIONS'', ''POST'']"
proof -
  obtain r where r: "runSetup sampleSetup (New sampleLib) = Some (Inr r)"
    "routerInv (tableOf [] sampleSetup) r" "sameOptions (New sampleLib) r"
    by (rule sample_runs)
  have a: "allowHeader r ''/users'' = Inr (Some [''GET'', ''HEAD'', ''OPTIONS'', ''POST''])"
    by (rule sample_allow [OF r(2,3)])
  have "''DELETE'' \<notin> set [''GET'', ''HEAD'', ''OPTIONS'', ''POST'']"
    by (rule not_allowed_excludes_method [OF sampleSetup_good blank_New r(1) sample_scan(2) a]) simp_all
  with r(1) a show ?thesis by blast
qed

lemma dispatch_contained:
  assumes "routerInv T r" "cxParams (cctx s) = []"
    and "rtRecovery r" "rtErrorHandler r = DefaultErrorHandler lib" "shortChains T r"
  shows "contained (dispatch lib r s)"
  using dispatch_cases [OF assms(1,2), of lib] dispatchSpec_contained [OF assms(5,3,4), of s]
  by (auto simp: contained_def)

text \<open>C33. After a set-up without conflicting patterns and with chains shorter than the abort index, with
  recovery on and the default error handler, every request is answered: dispatch returns, and no panic
  leaves it but \<^verbatim>\<open>http.ErrAbortHandler\<close>.\<close>

theorem panics_are_contained:
  assumes "goodSetup ops" "blank r0" "runSetup ops r0 = Some (Inr r)" "cxParams (cctx s) = []"
    and "rtRecovery r" "rtErrorHandler r = DefaultErrorHandler lib" "shortChains (tableOf [] ops) r"
  shows "\<exists>p s'. dispatch lib r s = Some (p, s') \<and> (p = None \<or> p = Some ErrAbortHandler)"
proof -
  have inv: "routerInv (tableOf [] ops) r" using setup_runs [OF assms(1,2)] assms(3) by auto
  from dispatch_contained [OF inv assms(4-7)] show ?thesis
    by (auto simp: contained_def)
qed

lemma runSetup_middleware:
  "runSetup ops r = Some (Inr r') \<Longrightarrow>
     rtMiddleware r' = rtMiddleware r @ concat (map (\<lambda>op. case op of SUse hs \<Rightarrow> hs | _ \<Rightarrow> []) ops)"
proof (induction ops r rule: runSetup.induct)
  case (2 hs ops r)
  then show ?case by (simp add: Use_def)
next
  case (3 m p hs ops r)
  obtain r1 where r1: "Handle m p hs r = Some (Inr r1)" "runSetup ops r1 = Some (Inr r')"
    using "3.prems" by (auto split: option.splits sum.splits)
  then have "rtMiddleware r1 = rtMiddleware r"
    by (auto simp: Handle_def Let_def split: if_splits option.splits sum.splits)
  with "3.IH" [OF r1(1) refl r1(2)] show ?case by simp
qed simp

lemma sample_short:
  obtains r where "runSetup sampleSetup (New sampleLib) = Some (Inr r)" "shortChains (tableOf [] sampleSetup) r"
    "rtRecovery r" "rtErrorHandler r = DefaultErrorHandler sampleLib"
proof -
  obtain r where r: "runSetup sampleSetup (New sampleLib) = Some (Inr r)" "sameOptions (New sampleLib) r"
    by (rule sample_runs)
  have "rtMiddleware r = [around id id]"
    using runSetup_middleware [OF r(1)] by (simp add: sampleSetup_def New_def)
  then have short: "shortChains (tableOf [] sampleSetup) r"
    by (simp add: shortChains_def sample_table abortIndex_def)
  have o: "rtRecovery r" "rtErrorHandler r = DefaultErrorHandler sampleLib"
    using r(2) by (simp_all add: sameOptions_def New_def)
  from that [OF r(1) short o] show ?thesis .
qed

theorem panics_are_contained_witness:
  "\<exists>r p s'. runSetup sampleSetup (New sampleLib) = Some (Inr r) \<and>
     dispatch sampleLib r (freshState ''GET'' ''/users'') = Some (p, s') \<and> (p = None \<or> p = Some ErrAbortHandler)"
proof -
  obtain r where r: "runSetup sampleSetup (New sampleLib) = Some (Inr r)" "shortChains (tableOf [] sampleSetup) r"
    "rtRecovery r" "rtErrorHandler r = DefaultErrorHandler sampleLib"
    by (rule sample_short)
  from panics_are_contained [OF sampleSetup_good blank_New r(1) freshState_simps(1) r(3,4,2)] r(1)
  show ?thesis by blast
qed

text \<open>A response does not depend on the recycled context the pool hands out, so
  nothing of an earlier request reaches a later one.\<close>

lemma ServeHTTP_fresh: "ServeHTTP lib r w req pooled = ServeHTTP lib r w req pooled'"
proof -
  have "cx_reset w req s\<lparr>cctx := (cctx (cx_reset w req s))\<lparr>cxRenderer := rtRenderer r\<rparr>\<rparr> =
      \<lparr>cctx = \<lparr>cxWriter = \<lparr>rwUnder = w, rwStatus = noStatus, rwSize = 0, rwSuppress = False\<rparr>, cxRequest = req,
         cxParams = [], cxQueryCache = None, cxStore = (\<lambda>k. None), cxRenderer = rtRenderer r\<rparr>, cindex = -1\<rparr>" for s
    by (simp add: cx_reset_def rw_reset_def)
  then show ?thesis by (simp add: ServeHTTP_def Let_def)
qed

text \<open>The parameters of a served route fit the slice the pool allocates: there are
  at most \<^verbatim>\<open>maxParams\<close> of them.\<close>

theorem params_fit_the_pool:
  assumes "goodSetup ops" "runSetup ops r0 = Some (Inr r)" "scan (tableOf [] ops m) path = Some (hs, ps)"
  shows "int (length ps) \<le> rtMaxParams r"
proof -
  obtain e where e: "e \<in> set (tableOf [] ops m)" "matches (pat (fst e)) path = Some ps"
    using assms(3) scan_Some [OF assms(3)]
    by (induction "tableOf [] ops m") (auto simp: denotes_def)
  have "readable (fst e)" using goodSetup_conflictFree [OF assms(1)] e(1) by (auto simp: conflictFree_def)
  then have "int (length ps) = countParams (fst e)"
    using captures_count [OF readable_toks] matches_captures [OF e(2)] by simp
  then show ?thesis using runSetup_maxParams [OF assms(2), of "[]"] e(1) by auto
qed

theorem params_fit_the_pool_witness:
  "\<exists>r. runSetup sampleSetup (New sampleLib) = Some (Inr r) \<and> 1 \<le> rtMaxParams r"
proof -
  obtain r where r: "runSetup sampleSetup (New sampleLib) = Some (Inr r)"
    by (rule sample_runs)
  with params_fit_the_pool [OF sampleSetup_good r sample_scan(1)] show ?thesis by simp
qed

text \<open>What the default error handler answers: nothing once the response has started;
  an \<^verbatim>\<open>HTTPError\<close> with its own code and message, the standard text where the message is empty, and
  never its internal error; anything else as a plain 500.\<close>

theorem error_response:
  assumes "\<not> cxWritten c" "wSent (rwUnder (cxWriter c)) = None" "finalCode (OpWriteHeader code)"
  shows "map_option fst (wSent (rwUnder (cxWriter (snd (DefaultErrorHandler lib c (HTTPError code m i)))))) = Some code \<and>
    DefaultErrorHandler lib c (HTTPError code m i) = DefaultErrorHandler lib c (HTTPError code m j) \<and>
    DefaultErrorHandler lib c (HTTPError code [] i) = DefaultErrorHandler lib c (HTTPError code (StatusText code) i) \<and>
    DefaultErrorHandler lib c (PanicError v st) = DefaultErrorHandler lib c (PlainError e) \<and>
    map_option fst (wSent (rwUnder (cxWriter (snd (DefaultErrorHandler lib c (PlainError e)))))) = Some 500 \<and>
    (\<forall>c' err. cxWritten c' \<longrightarrow> DefaultErrorHandler lib c' err = (None, c'))"
  using assms cx_JSON_sent [OF assms(1,2)] by (simp add: DefaultErrorHandler_def Let_def)

theorem error_response_witness:
  "map_option fst (wSent (rwUnder (cxWriter (snd (DefaultErrorHandler sampleLib
     (cctx (freshState ''GET'' ''/'')) (HTTPError 404 ''no such user'' (Some (PlainError ''sql: no rows'')))))))) = Some 404"
  using error_response [of "cctx (freshState ''GET'' ''/'')" 404 sampleLib "''no such user''" "Some (PlainError ''sql: no rows'')"]
  by (simp add: freshState_def cxWritten_def rw_Written_def rw_reset_def freshWriter_def)

end
