(* ===== verification/Group.thy ===== *)
theory Group
  imports RouterProps
begin

text \<open>
  Route groups and mounting (\<^verbatim>\<open>group.go\<close>): a group is a prefix and the middleware it puts before the
  handlers of its routes; a mount delegates a subtree of paths to another \<^verbatim>\<open>http.Handler\<close>, which is
  an argument (it answers a request on a writer, and may panic).  Slices are values here.
\<close>

section \<open>Groups\<close>

record group =
  grPrefix :: string
  grMiddleware :: "handler list"

definition trimSuffix :: "string \<Rightarrow> char \<Rightarrow> string" where
  "trimSuffix s c = (if s \<noteq> [] \<and> last s = c then butlast s else s)"

definition trimPrefix :: "string \<Rightarrow> string \<Rightarrow> string" where
  "trimPrefix s p = (if take (length p) s = p then drop (length p) s else s)"

definition badGroupPrefix :: "string \<Rightarrow> gopanic" where
  "badGroupPrefix prefix =
     PanicMsg (''goxpress: group prefix must begin with '' @ quoted ''/'' @ '', got '' @ quoted prefix)"

definition Router_Group :: "string \<Rightarrow> handler list \<Rightarrow> gopanic + group" where
  "Router_Group prefix middleware =
     (if prefix = [] \<or> prefix ! 0 \<noteq> CHR ''/'' then Inl (badGroupPrefix prefix)
      else Inr \<lparr>grPrefix = trimSuffix prefix (CHR ''/''), grMiddleware = middleware\<rparr>)"

definition Group_Group :: "group \<Rightarrow> string \<Rightarrow> handler list \<Rightarrow> gopanic + group" where
  "Group_Group g prefix middleware =
     (if prefix = [] \<or> prefix ! 0 \<noteq> CHR ''/'' then Inl (badGroupPrefix prefix)
      else Inr \<lparr>grPrefix = grPrefix g @ trimSuffix prefix (CHR ''/''),
                grMiddleware = grMiddleware g @ middleware\<rparr>)"

definition Group_Use :: "handler list \<Rightarrow> group \<Rightarrow> group" where
  "Group_Use middleware g = g\<lparr>grMiddleware := grMiddleware g @ middleware\<rparr>"

definition joinPaths :: "string \<Rightarrow> string \<Rightarrow> string" where
  "joinPaths prefix path =
     (if path = [] \<or> path = ''/'' then (if prefix = [] then ''/'' else prefix)
      else trimSuffix prefix (CHR ''/'') @ ''/'' @ trimPrefix path ''/'')"

definition Group_Handle :: "group \<Rightarrow> string \<Rightarrow> string \<Rightarrow> handler list \<Rightarrow> router \<Rightarrow> (gopanic + router) option" where
  "Group_Handle g method path handlers r =
     Handle method (joinPaths (grPrefix g) path) (grMiddleware g @ handlers) r"

definition gr_Get :: "group \<Rightarrow> string \<Rightarrow> handler list \<Rightarrow> router \<Rightarrow> (gopanic + router) option" where
  "gr_Get g = Group_Handle g ''GET''"

definition gr_Post :: "group \<Rightarrow> string \<Rightarrow> handler list \<Rightarrow> router \<Rightarrow> (gopanic + router) option" where
  "gr_Post g = Group_Handle g ''POST''"

definition gr_Put :: "group \<Rightarrow> string \<Rightarrow> handler list \<Rightarrow> router \<Rightarrow> (gopanic + router) option" where
  "gr_Put g = Group_Handle g ''PUT''"

definition gr_Patch :: "group \<Rightarrow> string \<Rightarrow> handler list \<Rightarrow> router \<Rightarrow> (gopanic + router) option" where
  "gr_Patch g = Group_Handle g ''PATCH''"

definition gr_Delete :: "group \<Rightarrow> string \<Rightarrow> handler list \<Rightarrow> router \<Rightarrow> (gopanic + router) option" where
  "gr_Delete g = Group_Handle g ''DELETE''"

definition gr_Head :: "group \<Rightarrow> string \<Rightarrow> handler list \<Rightarrow> router \<Rightarrow> (gopanic + router) option" where
  "gr_Head g = Group_Handle g ''HEAD''"

definition gr_Options :: "group \<Rightarrow> string \<Rightarrow> handler list \<Rightarrow> router \<Rightarrow> (gopanic + router) option" where
  "gr_Options g = Group_Handle g ''OPTIONS''"

section \<open>Mount\<close>

definition allMethods :: "string list" where
  "allMethods = [''GET'', ''POST'', ''PUT'', ''PATCH'', ''DELETE'', ''HEAD'', ''OPTIONS'']"

type_synonym httpHandler = "stdWriter responseWriter \<Rightarrow> request \<Rightarrow> pval option \<times> stdWriter responseWriter"

definition stripPrefix :: "string \<Rightarrow> string \<Rightarrow> string" where
  "stripPrefix prefix original =
     (let stripped = trimPrefix original prefix in if stripped = [] then ''/'' else stripped)"

definition setPath :: "string \<Rightarrow> ctx \<Rightarrow> ctx" where
  "setPath p c = c\<lparr>cxRequest := (cxRequest c)\<lparr>reqPath := p\<rparr>\<rparr>"

text \<open>The delegating handler.  A panic of the mounted handler passes before the path is put back.\<close>

definition delegate :: "string \<Rightarrow> httpHandler \<Rightarrow> handler" where
  "delegate prefix handler =
     Effect
       (\<lambda>c. let c1 = setPath (stripPrefix prefix (reqPath (cxRequest c))) c
            in case handler (cxWriter c1) (cxRequest c1) of
                 (Some v, w) \<Rightarrow> c1\<lparr>cxWriter := w\<rparr>
               | (None, w) \<Rightarrow> setPath (reqPath (cxRequest c)) (c1\<lparr>cxWriter := w\<rparr>))
       (\<lambda>c. let c1 = setPath (stripPrefix prefix (reqPath (cxRequest c))) c
            in case fst (handler (cxWriter c1) (cxRequest c1)) of Some v \<Rightarrow> Raise v | None \<Rightarrow> Return None)"

fun mountAll :: "string list \<Rightarrow> string \<Rightarrow> handler \<Rightarrow> router \<Rightarrow> (gopanic + router) option" where
  "mountAll [] prefix d r = Some (Inr r)"
| "mountAll (m # ms) prefix d r =
     (case Handle m prefix [d] r of
        None \<Rightarrow> None
      | Some (Inl e) \<Rightarrow> Some (Inl e)
      | Some (Inr r1) \<Rightarrow>
          (case Handle m (prefix @ ''/*mountpath'') [d] (hideLast r1) of
             None \<Rightarrow> None
           | Some (Inl e) \<Rightarrow> Some (Inl e)
           | Some (Inr r2) \<Rightarrow> mountAll ms prefix d (hideLast r2)))"

definition Mount :: "string \<Rightarrow> httpHandler \<Rightarrow> router \<Rightarrow> (gopanic + router) option" where
  "Mount prefix0 handler r =
     (let prefix = trimSuffix prefix0 (CHR ''/'')
      in if prefix = [] then
           Some (Inl (PanicMsg (''goxpress: mount prefix must not be empty or '' @ quoted ''/'')))
         else if prefix ! 0 \<noteq> CHR ''/'' then
           Some (Inl (PanicMsg (''goxpress: mount prefix must begin with '' @ quoted ''/'' @ '', got '' @ quoted prefix)))
         else mountAll allMethods prefix (delegate prefix handler) r)"

section \<open>Lemmas\<close>

lemma trimSuffix_simps [simp]:
  "trimSuffix (s @ [c]) c = s"
  "s = [] \<or> last s \<noteq> c \<Longrightarrow> trimSuffix s c = s"
  by (auto simp: trimSuffix_def)

lemma trimPrefix_append [simp]: "trimPrefix (p @ s) p = s"
  by (simp add: trimPrefix_def)

lemma trimPrefix_slash: "trimPrefix (CHR ''/'' # s) ''/'' = s"
  by (simp add: trimPrefix_def)

definition mountCalls :: "string list \<Rightarrow> string \<Rightarrow> handler \<Rightarrow> setupCall list" where
  "mountCalls ms prefix d =
     concat (map (\<lambda>m. [SHandle m prefix [d], SHandle m (prefix @ ''/*mountpath'') [d]]) ms)"

text \<open>The routes' metadata apart, a mount is a sequence of registrations.\<close>

definition withRoutes :: "route list \<Rightarrow> (gopanic + router) option \<Rightarrow> (gopanic + router) option" where
  "withRoutes rs x =
     (case x of
        None \<Rightarrow> None
      | Some (Inl e) \<Rightarrow> Some (Inl e)
      | Some (Inr r) \<Rightarrow> Some (Inr (r\<lparr>rtRoutes := rs\<rparr>)))"

lemma withRoutes_simps [simp]:
  "withRoutes rs None = None" "withRoutes rs (Some (Inl e)) = Some (Inl e)"
  "withRoutes rs (Some (Inr r)) = Some (Inr (r\<lparr>rtRoutes := rs\<rparr>))"
  "withRoutes rs (withRoutes rs' x) = withRoutes rs x"
  by (auto simp: withRoutes_def split: option.splits sum.splits)

lemma withRoutes_Inr:
  "withRoutes rs x = Some (Inr r) \<longleftrightarrow> (\<exists>q. x = Some (Inr q) \<and> r = q\<lparr>rtRoutes := rs\<rparr>)"
  by (auto simp: withRoutes_def split: option.splits sum.splits)

lemma Handle_routes:
  "Handle m p hs (r\<lparr>rtRoutes := rs\<rparr>) = withRoutes (rs @ [newRoute m p]) (Handle m p hs r)"
  by (simp add: Handle_def compose_def Let_def split: option.split sum.split)

lemma runSetup_routes: "withRoutes rs (runSetup ops (r\<lparr>rtRoutes := rs'\<rparr>)) = withRoutes rs (runSetup ops r)"
proof (induction ops r arbitrary: rs' rule: runSetup.induct)
  case (2 hs ops r)
  have "Use hs (r\<lparr>rtRoutes := rs'\<rparr>) = (Use hs r)\<lparr>rtRoutes := rs'\<rparr>" by (cases r) (simp add: Use_def)
  with 2 show ?case by simp
next
  case (3 m p hs ops r)
  show ?case
  proof (cases "Handle m p hs r")
    case (Some x)
    then show ?thesis using "3.IH" [of x] by (cases x) (simp_all add: Handle_routes)
  qed (simp add: Handle_routes)
qed simp

lemma Handle_appends: "Handle m p hs r = Some (Inr r') \<Longrightarrow> rtRoutes r' = rtRoutes r @ [newRoute m p]"
  by (auto simp: Handle_def Let_def split: if_splits option.splits sum.splits)

definition mountRoutes :: "string list \<Rightarrow> string \<Rightarrow> route list" where
  "mountRoutes ms prefix =
     concat (map (\<lambda>m. [ro_Hide (newRoute m prefix), ro_Hide (newRoute m (prefix @ ''/*mountpath''))]) ms)"

lemma mountAll_calls:
  "mountAll ms prefix d r = withRoutes (rtRoutes r @ mountRoutes ms prefix) (runSetup (mountCalls ms prefix d) r)"
proof (induction ms arbitrary: r)
  case Nil
  show ?case by (simp add: mountCalls_def mountRoutes_def)
next
  case (Cons m ms)
  let ?q = "prefix @ ''/*mountpath''"
  have calls: "mountCalls (m # ms) prefix d = SHandle m prefix [d] # SHandle m ?q [d] # mountCalls ms prefix d"
    by (simp add: mountCalls_def)
  show ?case
  proof (cases "Handle m prefix [d] r")
    case (Some x)
    show ?thesis
    proof (cases x)
      case (Inr r1)
      then have h1: "hideLast r1 = r1\<lparr>rtRoutes := rtRoutes r @ [ro_Hide (newRoute m prefix)]\<rparr>"
        using Handle_appends Some by (simp add: hideLast_def)
      show ?thesis
      proof (cases "Handle m ?q [d] r1")
        case (Some y)
        then show ?thesis
          using \<open>Handle m prefix [d] r = Some x\<close> Inr h1 Cons.IH
          by (cases y) (simp_all add: calls Handle_routes hideLast_def mountRoutes_def runSetup_routes butlast_append)
      qed (use Some Inr h1 in \<open>simp add: calls Handle_routes\<close>)
    qed (use Some in \<open>simp add: calls\<close>)
  qed (simp add: calls)
qed

lemma mountRoutes_hidden: "list_all roHidden (mountRoutes ms prefix)"
  by (simp add: mountRoutes_def list_all_iff ro_Hide_def)

lemma mount_table:
  "distinct ms \<Longrightarrow> tableOf mw (mountCalls ms prefix d) m =
     (if m \<in> set ms then [(prefix, mw @ [d]), (prefix @ ''/*mountpath'', mw @ [d])] else [])"
  by (induction ms) (auto simp: mountCalls_def)

definition mountPrefix :: "string \<Rightarrow> bool" where
  "mountPrefix p \<longleftrightarrow> p \<noteq> [] \<and> hd p = CHR ''/'' \<and> last p \<noteq> CHR ''/'' \<and> ascii p \<and> noWild p"

lemma mount_pats:
  assumes "mountPrefix p"
  shows "toks p = Some (map Lit p)" "toks (p @ ''/*mountpath'') = Some (map Lit p @ [Catch ''mountpath''])"
proof -
  show "toks p = Some (map Lit p)" using assms by (simp add: mountPrefix_def toks_lits)
  have "toks (p @ ''/*mountpath'') = map_option ((@) (map Lit p)) (toks ''/*mountpath'')"
    using assms by (intro toks_append_lits) (auto simp: mountPrefix_def)
  moreover have "toks ''/*mountpath'' = Some [Catch ''mountpath'']" by code_simp
  ultimately show "toks (p @ ''/*mountpath'') = Some (map Lit p @ [Catch ''mountpath''])" by simp
qed

lemma mount_conflictFree:
  assumes "mountPrefix p"
  shows "conflictFree [(p, hs), (p @ ''/*mountpath'', hs)]"
proof -
  have "compat (map Lit p) (map Lit p @ [Catch ''mountpath''])"
    using compat_append [of "map Lit p" "[]" "[Catch ''mountpath'']"] by simp
  moreover have "ascii ''/*mountpath''" by code_simp
  ultimately show ?thesis
    using assms mount_pats [OF assms] by (auto simp: readable_def pat_def mountPrefix_def)
qed

lemma mount_scan:
  assumes "mountPrefix p" "rest = [] \<or> hd rest = CHR ''/''"
  shows "\<exists>ps. scan [(p, hs), (p @ ''/*mountpath'', hs)] (p @ rest) = Some (hs, ps)"
proof (cases rest)
  case Nil
  then show ?thesis
    using mount_pats [OF assms(1)] matches_lits [of p "[]" p] by (simp add: pat_def)
next
  case (Cons c s)
  then have c: "c = CHR ''/''" using assms(2) by simp
  have "matches (map Lit p) (p @ rest) = None"
    using matches_lits [of p "[]" "p @ rest"] Cons by simp
  moreover have "matches (map Lit p @ [Catch ''mountpath'']) (p @ rest) = Some [\<lparr>Key = ''mountpath'', Value = rest\<rparr>]"
    using matches_lits [of p "[Catch ''mountpath'']" "p @ rest"] Cons c by simp
  ultimately show ?thesis using mount_pats [OF assms(1)] by (simp add: pat_def)
qed

lemma mount_good:
  assumes "mountPrefix p"
  shows "goodSetup (mountCalls allMethods p d)"
proof -
  have d: "distinct allMethods" by code_simp
  have "list_all callOK (mountCalls allMethods p d)"
    by (simp add: mountCalls_def allMethods_def)
  then show ?thesis
    using mount_conflictFree [OF assms] by (simp add: goodSetup_def list_all_iff mount_table [OF d])
qed

section \<open>Properties\<close>

text \<open>A route of a nested group is the route of the router with the prefixes
  joined and the middleware of both groups, outer first, before its handlers (for prefixes without
  doubled or trailing slashes).\<close>

theorem nested_groups_flatten:
  assumes "Router_Group p mw1 = Inr g" "Group_Group g q mw2 = Inr g'"
    and "last (trimSuffix p (CHR ''/'')) \<noteq> CHR ''/'' \<or> trimSuffix p (CHR ''/'') = []" "last q \<noteq> CHR ''/''"
    and "path \<noteq> []" "path \<noteq> ''/''"
  shows "Group_Handle g' method path hs r =
    Handle method (joinPaths (trimSuffix p (CHR ''/'')) (joinPaths q path)) (mw1 @ mw2 @ hs) r"
proof -
  let ?P = "trimSuffix p (CHR ''/'')"
  have q: "q \<noteq> []" "q ! 0 = CHR ''/''" "g' = \<lparr>grPrefix = ?P @ q, grMiddleware = mw1 @ mw2\<rparr>"
    using assms(1,2,4) by (auto simp: Router_Group_def Group_Group_def split: if_splits)
  then obtain q' where q': "q = CHR ''/'' # q'" by (cases q) auto
  have j: "joinPaths q path = CHR ''/'' # q' @ ''/'' @ trimPrefix path ''/''"
    using assms(4-6) q(1) by (simp add: joinPaths_def q' [symmetric])
  have P: "trimSuffix ?P (CHR ''/'') = ?P" using assms(3) by (intro trimSuffix_simps(2)) auto
  have "joinPaths ?P (joinPaths q path) = ?P @ q @ ''/'' @ trimPrefix path ''/''"
    unfolding j by (simp add: joinPaths_def trimPrefix_slash P q')
  moreover have "joinPaths (?P @ q) path = ?P @ q @ ''/'' @ trimPrefix path ''/''"
    using assms(4-6) q(1) by (simp add: joinPaths_def)
  ultimately show ?thesis by (simp add: Group_Handle_def q(3))
qed

theorem nested_groups_flatten_witness:
  "Group_Handle \<lparr>grPrefix = ''/api/v1'', grMiddleware = []\<rparr> ''GET'' ''users'' [okHandler] (New sampleLib) =
     Handle ''GET'' ''/api/v1/users'' [okHandler] (New sampleLib)"
  using nested_groups_flatten [of "''/api/''" "[]" "\<lparr>grPrefix = ''/api'', grMiddleware = []\<rparr>" "''/v1''" "[]"
      "\<lparr>grPrefix = ''/api/v1'', grMiddleware = []\<rparr>" "''users''" "''GET''" "[okHandler]" "New sampleLib"]
  by (simp add: Router_Group_def Group_Group_def trimSuffix_def joinPaths_def trimPrefix_def)

text \<open>C38. After \<^verbatim>\<open>Mount\<close> under a prefix without wildcards, wherever it stands in a conflict-free set-up,
  a request of one of the seven methods for the prefix or a path below it runs the global middleware in
  force and then the delegate.  The mounted handler sees the rest of the path behind the prefix, or a
  slash if nothing is left, and afterwards the request has its path again.  The routes that the mount
  adds are hidden from the OpenAPI document.\<close>

theorem mount_delegates:
  assumes "mountPrefix p" "blank r0" "goodSetup (ops1 @ mountCalls allMethods p (delegate p handler) @ ops2)"
    and "runSetup ops1 r0 = Some (Inr r1)" "Mount p handler r1 = Some (Inr r2)" "runSetup ops2 r2 = Some (Inr r)"
    and "reqMethod (cxRequest (cctx s)) \<in> set allMethods" "cxParams (cctx s) = []"
    and "reqPath (cxRequest (cctx s)) = p @ rest" "rest = [] \<or> hd rest = CHR ''/''"
  shows "(\<exists>ps. dispatch lib r s = runChain lib r (usedBy ops1 @ [delegate p handler]) (setParams ps s)) \<and>
    (\<forall>nxt t w. reqPath (cxRequest (cctx t)) = p @ rest \<longrightarrow>
       handler (cxWriter (cctx t)) ((cxRequest (cctx t))\<lparr>reqPath := if rest = [] then ''/'' else rest\<rparr>) = (None, w) \<longrightarrow>
       exec nxt (delegate p handler) t = Some (Inr None, t\<lparr>cctx := (cctx t)\<lparr>cxWriter := w\<rparr>\<rparr>)) \<and>
    (\<exists>hidden. rtRoutes r2 = rtRoutes r1 @ hidden \<and> list_all roHidden hidden)"
proof -
  let ?d = "delegate p handler" and ?calls = "mountCalls allMethods p (delegate p handler)" and ?m = "reqMethod (cxRequest (cctx s))"
  let ?ops = "ops1 @ ?calls @ ops2"
  have p: "p \<noteq> []" "p ! 0 = CHR ''/''" "trimSuffix p (CHR ''/'') = p"
    using assms(1) by (auto simp: mountPrefix_def hd_conv_nth)
  then have "withRoutes (rtRoutes r1 @ mountRoutes allMethods p) (runSetup ?calls r1) = Some (Inr r2)"
    using assms(5) by (simp add: Mount_def mountAll_calls Let_def)
  then obtain q2 where q2: "runSetup ?calls r1 = Some (Inr q2)" "r2 = q2\<lparr>rtRoutes := rtRoutes r1 @ mountRoutes allMethods p\<rparr>"
    by (auto simp: withRoutes_Inr)
  have "withRoutes [] (runSetup ops2 q2) = Some (Inr (r\<lparr>rtRoutes := []\<rparr>))"
    using runSetup_routes [where rs = "[]" and ops = ops2 and r = q2] assms(6) q2(2) by (metis withRoutes_simps(3))
  then obtain q where q: "runSetup ops2 q2 = Some (Inr q)" "q\<lparr>rtRoutes := []\<rparr> = r\<lparr>rtRoutes := []\<rparr>"
    by (auto simp: withRoutes_Inr)
  have "runSetup ?ops r0 = Some (Inr q)" using assms(4) q2(1) q(1) by (simp add: runSetup_append)
  then have "routerInv (tableOf [] ?ops) q" using setup_runs [OF assms(3,2)] by auto
  moreover have "rtTrees q = rtTrees r" using arg_cong [OF q(2), of rtTrees] by simp
  ultimately have inv: "routerInv (tableOf [] ?ops) r" by (simp add: routerInv_def)
  have d: "distinct allMethods" by code_simp
  let ?tab = "[(p, usedBy ops1 @ [?d]), (p @ ''/*mountpath'', usedBy ops1 @ [?d])]"
  obtain ps where ps: "scan ?tab (p @ rest) = Some (usedBy ops1 @ [?d], ps)"
    by (rule exE [OF mount_scan [OF assms(1,10), of "usedBy ops1 @ [?d]"]])
  then obtain q where e: "(q, usedBy ops1 @ [?d]) \<in> set ?tab" "matches (pat q) (p @ rest) = Some ps"
    using scan_matches [of ?tab "p @ rest"] by blast
  have "tableOf (usedBy ops1) ?calls ?m = ?tab" using assms(7) by (simp add: mount_table [OF d])
  then have "set ?tab \<subseteq> set (tableOf [] ?ops ?m)" by (simp only: tableOf_append append_Nil set_append) blast
  then have "(q, usedBy ops1 @ [?d]) \<in> set (tableOf [] ?ops ?m)" using e(1) by (rule subsetD)
  from scan_entry_found [OF goodSetup_conflictFree [OF assms(3)] this e(2)]
  have "dispatch lib r s = runChain lib r (usedBy ops1 @ [?d]) (setParams ps s)"
    using dispatch_spec [OF inv assms(8), of lib] assms(9) by (simp add: dispatchSpec_def Let_def)
  moreover have "exec nxt ?d t = Some (Inr None, t\<lparr>cctx := (cctx t)\<lparr>cxWriter := w\<rparr>\<rparr>)"
    if "reqPath (cxRequest (cctx t)) = p @ rest"
      "handler (cxWriter (cctx t)) ((cxRequest (cctx t))\<lparr>reqPath := if rest = [] then ''/'' else rest\<rparr>) = (None, w)"
    for nxt t w
  proof -
    have "stripPrefix p (p @ rest) = (if rest = [] then ''/'' else rest)" by (simp add: stripPrefix_def)
    with that show ?thesis by (simp add: delegate_def setPath_def Let_def)
  qed
  moreover have "rtRoutes r2 = rtRoutes r1 @ mountRoutes allMethods p" using q2(2) by simp
  ultimately show ?thesis using mountRoutes_hidden by blast
qed

definition sampleMounted :: httpHandler where
  "sampleMounted w req = (None, rw_WriteHeader std_WriteHeader 200 w)"

theorem mount_delegates_witness:
  "\<exists>r ps. Mount ''/api'' sampleMounted (Use [around id id] (New sampleLib)) = Some (Inr r) \<and>
     dispatch sampleLib r (freshState ''GET'' ''/api/users'') =
       runChain sampleLib r [around id id, delegate ''/api'' sampleMounted] (setParams ps (freshState ''GET'' ''/api/users''))"
proof -
  let ?ops1 = "[SUse [around id id]]" and ?calls = "mountCalls allMethods ''/api'' (delegate ''/api'' sampleMounted)"
  have p: "mountPrefix ''/api''" by code_simp
  have d: "distinct allMethods" by code_simp
  have g: "goodSetup (?ops1 @ ?calls @ [])"
  proof -
    have "list_all callOK (?ops1 @ ?calls)" by (simp add: mountCalls_def allMethods_def)
    moreover have "conflictFree (tableOf [] (?ops1 @ ?calls) m)" for m
    proof (cases "m \<in> set allMethods")
      case True
      have "tableOf [] (?ops1 @ ?calls) m =
          [(''/api'', [around id id, delegate ''/api'' sampleMounted]),
           (''/api'' @ ''/*mountpath'', [around id id, delegate ''/api'' sampleMounted])]"
        using True by (simp add: mount_table [OF d])
      then show ?thesis using mount_conflictFree [OF p] by (simp only:)
    qed (simp add: mount_table [OF d] conflictFree_def)
    ultimately show ?thesis by (simp add: goodSetup_def list_all_iff)
  qed
  have r1: "runSetup ?ops1 (New sampleLib) = Some (Inr (Use [around id id] (New sampleLib)))" by simp
  obtain q where "runSetup (?ops1 @ ?calls @ []) (New sampleLib) = Some (Inr q)"
    using setup_runs [OF g blank_New] by blast
  then obtain r where r: "Mount ''/api'' sampleMounted (Use [around id id] (New sampleLib)) = Some (Inr r)"
    by (simp add: Mount_def mountAll_calls trimSuffix_def)
  have m: "reqMethod (cxRequest (cctx (freshState ''GET'' ''/api/users''))) \<in> set allMethods" by (simp add: allMethods_def)
  have q: "reqPath (cxRequest (cctx (freshState ''GET'' ''/api/users''))) = ''/api'' @ ''/users''" by simp
  from mount_delegates [OF p blank_New g r1 r runSetup.simps(1) m freshState_simps(1) q, of sampleLib] r
  show ?thesis by (auto simp: usedBy_def)
qed

end
