(* ===== verification/Ws.thy ===== *)
theory Ws
  imports Context "HOL-Library.Sublist"
begin

text \<open>
  The WebSocket helper (\<^verbatim>\<open>ws/ws.go\<close>): the handshake, reading and writing of frames, and the
  reassembly of messages.

  A connection is the bytes it will deliver (after which reads report the end of the stream), the
  bytes written, and the number of bytes the peer still takes before writes fail.  The mutex around
  writes makes a write one operation of this state (\<open>Locks\<close>).
\<close>

unbundle bit_operations_syntax

section \<open>Connections\<close>

datatype wserr =
    EOF | UnexpectedEOF | WriteFailed | ErrClosed | ErrPayload u64 | ErrContinuation | ErrOpcode u8

record wsconn =
  wsIn :: "u8 list"
  wsOut :: "u8 list"
  wsRoom :: "nat option"
  wsClosed :: bool

definition maxPayload :: u64 where "maxPayload = 33554432"

definition opContinuation :: u8 where "opContinuation = 0"
definition opText :: u8 where "opText = 1"
definition opBinary :: u8 where "opBinary = 2"
definition opClose :: u8 where "opClose = 8"
definition opPing :: u8 where "opPing = 9"
definition opPong :: u8 where "opPong = 10"

lemmas opcode_defs = opContinuation_def opText_def opBinary_def opClose_def opPing_def opPong_def

text \<open>\<^verbatim>\<open>io.ReadFull\<close> and \<^verbatim>\<open>net.Conn.Write\<close>.\<close>

definition readFull :: "nat \<Rightarrow> wsconn \<Rightarrow> (wserr + u8 list) \<times> wsconn" where
  "readFull n c =
     (if n \<le> length (wsIn c) then (Inr (take n (wsIn c)), c\<lparr>wsIn := drop n (wsIn c)\<rparr>)
      else (Inl (if wsIn c = [] then EOF else UnexpectedEOF), c\<lparr>wsIn := []\<rparr>))"

definition connWrite :: "u8 list \<Rightarrow> wsconn \<Rightarrow> wserr option \<times> wsconn" where
  "connWrite b c =
     (case wsRoom c of
        None \<Rightarrow> (None, c\<lparr>wsOut := wsOut c @ b\<rparr>)
      | Some k \<Rightarrow>
          (if length b \<le> k then None else Some WriteFailed,
           c\<lparr>wsOut := wsOut c @ take k b, wsRoom := Some (k - length b)\<rparr>))"

section \<open>Frames\<close>

text \<open>\<^verbatim>\<open>binary.BigEndian\<close>.\<close>

definition getUint16 :: "u8 list \<Rightarrow> u16" where
  "getUint16 b = (push_bit 8 (ucast (b ! 0))) OR ucast (b ! 1)"

definition putUint64 :: "u64 \<Rightarrow> u8 list" where
  "putUint64 w = map (\<lambda>i. ucast (drop_bit (8 * i) w)) [7, 6, 5, 4, 3, 2, 1, 0]"

definition getUint64 :: "u8 list \<Rightarrow> u64" where
  "getUint64 b = foldl (\<lambda>w x. push_bit 8 w OR ucast x) 0 b"

text \<open>The length field of a frame: the second header byte, or the extended length it announces.\<close>

definition readLength :: "u8 \<Rightarrow> wsconn \<Rightarrow> (wserr + u64) \<times> wsconn" where
  "readLength h1 c =
     (let l = (ucast (h1 AND 0x7F) :: u64)
      in if l = 126 then
           (case readFull 2 c of
              (Inl e, c1) \<Rightarrow> (Inl e, c1)
            | (Inr ext, c1) \<Rightarrow> (Inr (ucast (getUint16 ext)), c1))
         else if l = 127 then
           (case readFull 8 c of
              (Inl e, c1) \<Rightarrow> (Inl e, c1)
            | (Inr ext, c1) \<Rightarrow> (Inr (getUint64 ext), c1))
         else (Inr l, c))"

definition applyMask :: "u8 list \<Rightarrow> u8 list \<Rightarrow> u8 list" where
  "applyMask key payload = map (\<lambda>(i, b). b XOR (key ! (i mod 4))) (zip [0..<length payload] payload)"

definition readFrame :: "wsconn \<Rightarrow> (wserr + (bool \<times> u8 \<times> u8 list)) \<times> wsconn" where
  "readFrame c =
     (case readFull 2 c of
        (Inl e, c1) \<Rightarrow> (Inl e, c1)
      | (Inr h, c1) \<Rightarrow>
          let fin = (h ! 0 AND 0x80 \<noteq> 0); opcode = h ! 0 AND 0x0F; masked = (h ! 1 AND 0x80 \<noteq> 0)
          in case readLength (h ! 1) c1 of
               (Inl e, c2) \<Rightarrow> (Inl e, c2)
             | (Inr len, c2) \<Rightarrow>
                 if maxPayload < len then (Inl (ErrPayload len), c2)
                 else
                   case (if masked then readFull 4 c2 else (Inr [0, 0, 0, 0], c2)) of
                     (Inl e, c3) \<Rightarrow> (Inl e, c3)
                   | (Inr key, c3) \<Rightarrow>
                       (case readFull (unat len) c3 of
                          (Inl e, c4) \<Rightarrow> (Inl e, c4)
                        | (Inr payload, c4) \<Rightarrow>
                            (Inr (fin, opcode, if masked then applyMask key payload else payload), c4)))"

definition frameHeader :: "u8 \<Rightarrow> nat \<Rightarrow> u8 list" where
  "frameHeader b0 n =
     (if n < 126 then [b0, of_nat n]
      else if n < 65536 then [b0, 126, of_nat (n div 256), of_nat n]
      else b0 # 127 # putUint64 (of_nat n))"

definition writeFrame :: "u8 \<Rightarrow> u8 list \<Rightarrow> wsconn \<Rightarrow> wserr option \<times> wsconn" where
  "writeFrame opcode payload c =
     (case connWrite (frameHeader (0x80 OR opcode) (length payload)) c of
        (Some e, c1) \<Rightarrow> (Some e, c1)
      | (None, c1) \<Rightarrow> if payload \<noteq> [] then connWrite payload c1 else (None, c1))"

section \<open>Messages\<close>

lemma readFull_shrinks: "readFull n c = (Inr b, c') \<Longrightarrow> length (wsIn c') + n = length (wsIn c)"
  by (auto simp: readFull_def split: if_splits)

lemma readLength_shrinks: "readLength h c = (Inr l, c') \<Longrightarrow> length (wsIn c') \<le> length (wsIn c)"
  by (auto simp: readLength_def Let_def split: if_splits prod.splits sum.splits dest!: readFull_shrinks)

lemma readFrame_shrinks: "readFrame c = (Inr f, c') \<Longrightarrow> length (wsIn c') < length (wsIn c)"
  by (auto simp: readFrame_def Let_def split: if_splits prod.splits sum.splits
      dest!: readFull_shrinks readLength_shrinks)

lemma connWrite_in [simp]: "wsIn (snd (connWrite b c)) = wsIn c"
  by (simp add: connWrite_def split: option.splits)

lemma writeFrame_in [simp]: "wsIn (snd (writeFrame opcode payload c)) = wsIn c"
  using connWrite_in by (auto simp: writeFrame_def split: prod.splits option.splits)
     (metis snd_conv connWrite_in)+

text \<open>The inner loop: continuation frames up to the final one.\<close>

function readFragments :: "u8 list \<Rightarrow> bool \<Rightarrow> wsconn \<Rightarrow> (wserr + u8 list) \<times> wsconn" where
  "readFragments msg fin c =
     (if fin then (Inr msg, c)
      else
        case readFrame c of
          (Inl e, c1) \<Rightarrow> (Inl e, c1)
        | (Inr (fin1, fopcode, payload), c1) \<Rightarrow>
            if fopcode \<noteq> opContinuation then (Inl ErrContinuation, c1)
            else readFragments (msg @ payload) fin1 c1)"
  by pat_completeness auto
termination
  by (relation "measure (\<lambda>(msg, fin, c). length (wsIn c))") (auto dest!: readFrame_shrinks [OF sym])

declare readFragments.simps [simp del]

function ReadMessage :: "wsconn \<Rightarrow> (wserr + (u8 \<times> u8 list)) \<times> wsconn" where
  "ReadMessage c =
     (case readFrame c of
        (Inl e, c1) \<Rightarrow> (Inl e, c1)
      | (Inr (fin, opcode, payload), c1) \<Rightarrow>
          if opcode = opText \<or> opcode = opBinary then
            (case readFragments payload fin c1 of
               (Inl e, c2) \<Rightarrow> (Inl e, c2)
             | (Inr msg, c2) \<Rightarrow> (Inr (opcode, msg), c2))
          else if opcode = opPing then
            (let w = writeFrame opPong payload c1
             in case fst w of Some e \<Rightarrow> (Inl e, snd w) | None \<Rightarrow> ReadMessage (snd w))
          else if opcode = opPong then ReadMessage c1
          else if opcode = opClose then (Inl ErrClosed, snd (writeFrame opClose payload c1))
          else (Inl (ErrOpcode opcode), c1))"
  by pat_completeness auto
termination
  by (relation "measure (\<lambda>c. length (wsIn c))") (auto dest!: readFrame_shrinks [OF sym])

declare ReadMessage.simps [simp del]

definition WriteMessage :: "u8 \<Rightarrow> u8 list \<Rightarrow> wsconn \<Rightarrow> wserr option \<times> wsconn" where
  "WriteMessage mt data c = writeFrame mt data c"

definition bytesOf :: "string \<Rightarrow> u8 list" where
  "bytesOf s = map of_char s"

definition WriteText :: "string \<Rightarrow> wsconn \<Rightarrow> wserr option \<times> wsconn" where
  "WriteText s c = WriteMessage opText (bytesOf s) c"

definition ws_Close :: "wsconn \<Rightarrow> wsconn" where
  "ws_Close c = (snd (writeFrame opClose [] c))\<lparr>wsClosed := True\<rparr>"

section \<open>The handshake\<close>

definition magicGUID :: string where
  "magicGUID = ''258EAFA5-E914-47DA-95CA-C5AB0DC85B11''"

definition crlf :: string where "crlf = [CR, LF]"

text \<open>\<open>digest\<close> stands for SHA-1 and base64.\<close>

definition acceptKey :: "(string \<Rightarrow> string) \<Rightarrow> string \<Rightarrow> string" where
  "acceptKey digest key = digest (key @ magicGUID)"

definition handshake :: "(string \<Rightarrow> string) \<Rightarrow> string \<Rightarrow> string" where
  "handshake digest key =
     ''HTTP/1.1 101 Switching Protocols'' @ crlf @ ''Upgrade: websocket'' @ crlf @ ''Connection: Upgrade'' @ crlf @
     ''Sec-WebSocket-Accept: '' @ acceptKey digest key @ crlf @ crlf"

text \<open>\<^verbatim>\<open>Upgrade\<close>: \<open>hijacked\<close> is what \<^verbatim>\<open>Hijack\<close> returns.  With an error comes the connection as it is left, if
  one was taken over.  The two comparisons without case are those of ASCII letters.\<close>

definition Upgrade ::
    "(string \<Rightarrow> string) \<Rightarrow> goerr + wsconn \<Rightarrow> ctx cstate \<Rightarrow> (goerr \<times> wsconn option + wsconn) \<times> ctx cstate" where
  "Upgrade digest hijacked s =
     (let h = reqHeader (cxRequest (cctx s)); key = hGet h ''Sec-WebSocket-Key''
      in if toLower (hGet h ''Upgrade'') \<noteq> ''websocket'' \<or> \<not> sublist ''upgrade'' (toLower (hGet h ''Connection'')) then
           (Inl (PlainError ''ws: not a websocket upgrade request'', None), s)
         else if hGet h ''Sec-WebSocket-Version'' \<noteq> ''13'' then
           (Inl (PlainError ''ws: unsupported websocket version'', None), s)
         else if key = [] then (Inl (PlainError ''ws: missing Sec-WebSocket-Key'', None), s)
         else
           case hijacked of
             Inl err \<Rightarrow> (Inl (PlainError (''ws: hijack: '' @ Error err), None), s)
           | Inr conn \<Rightarrow>
               (case connWrite (bytesOf (handshake digest key)) conn of
                  (Some e, conn1) \<Rightarrow> (Inl (PlainError ''write failed'', Some (conn1\<lparr>wsClosed := True\<rparr>)), s)
                | (None, conn1) \<Rightarrow> (Inr conn1, Abort s)))"

section \<open>Arithmetic of the header\<close>

lemma low7:
  assumes "(x::u8) < 128"
  shows "x AND 0x7F = x" "x AND 0x80 = 0" "(0x80 OR x) AND 0x7F = x" "(0x80 OR x) AND 0x80 = 0x80"
proof -
  have "(0x7F::u8) = mask 7" by (simp add: mask_eq_exp_minus_1)
  then have "x AND 0x7F = take_bit 7 x" by (simp add: take_bit_eq_mask)
  moreover have "unat x < 128" using assms by (simp add: word_less_nat_alt)
  then have "take_bit 7 x = x"
    by (simp add: take_bit_eq_mod word_unat_eq_iff unat_mod_distrib)
  ultimately show a: "x AND 0x7F = x" by simp
  have "x AND 0x80 = (x AND 0x7F) AND 0x80" by (simp add: a)
  also have "\<dots> = x AND ((0x7F::u8) AND 0x80)" by (simp only: and.assoc)
  also have "\<dots> = 0" by simp
  finally show b: "x AND 0x80 = 0" .
  show "(0x80 OR x) AND 0x7F = x" "(0x80 OR x) AND 0x80 = 0x80"
    using a b by (simp_all add: bit.conj_disj_distrib2)
qed

lemma low4:
  assumes "(x::u8) < 16"
  shows "x AND 0x0F = x" "(0x80 OR x) AND 0x0F = x" "x < 128"
proof -
  have "(0x0F::u8) = mask 4" by (simp add: mask_eq_exp_minus_1)
  then have "x AND 0x0F = take_bit 4 x" by (simp add: take_bit_eq_mask)
  moreover have "unat x < 16" using assms by (simp add: word_less_nat_alt)
  then have "take_bit 4 x = x"
    by (simp add: take_bit_eq_mod word_unat_eq_iff unat_mod_distrib)
  ultimately show a: "x AND 0x0F = x" by simp
  then show "(0x80 OR x) AND 0x0F = x" by (simp add: bit.conj_disj_distrib2)
  show "x < 128" using assms by (simp add: word_less_nat_alt)
qed

lemma getUint16_bytes:
  assumes "n < 65536"
  shows "getUint16 [of_nat (n div 256), of_nat n] = of_nat n"
proof (rule bit_word_eqI)
  fix i
  assume i: "i < LENGTH(16)"
  have "n div 256 = drop_bit 8 n" by (simp add: drop_bit_eq_div)
  then show "bit (getUint16 [of_nat (n div 256), of_nat n]) i \<longleftrightarrow> bit (of_nat n :: u16) i"
    using i by (auto simp: getUint16_def bit_simps)
qed

lemma uint64_step: "push_bit 8 (drop_bit (k + 8) w) OR ucast (ucast (drop_bit k w) :: u8) = drop_bit k (w::u64)"
proof (rule bit_word_eqI)
  fix i
  assume "i < LENGTH(64)"
  then show "bit (push_bit 8 (drop_bit (k + 8) w) OR ucast (ucast (drop_bit k w) :: u8)) i \<longleftrightarrow> bit (drop_bit k w) i"
    by (cases "i < 8") (auto simp: bit_simps)
qed

lemma getUint64_bytes: "getUint64 (putUint64 w) = w"
proof -
  have z: "(0::u64) = drop_bit (56 + 8) w" by (rule bit_word_eqI) (simp add: bit_simps)
  have "getUint64 (putUint64 w) = drop_bit 0 w"
    unfolding getUint64_def putUint64_def
    apply (simp only: list.map foldl.simps mult_numeral_1_right)
    using uint64_step [of 56 w] uint64_step [of 48 w] uint64_step [of 40 w] uint64_step [of 32 w]
      uint64_step [of 24 w] uint64_step [of 16 w] uint64_step [of 8 w] uint64_step [of 0 w]
    by (simp add: z [symmetric])
  then show ?thesis by simp
qed

lemma length_putUint64 [simp]: "length (putUint64 w) = 8"
  by (simp add: putUint64_def)

section \<open>The frame format\<close>

text \<open>A frame as the protocol lays it out, in the shortest length form, with or without a mask.\<close>

definition lengthBytes :: "bool \<Rightarrow> nat \<Rightarrow> u8 list" where
  "lengthBytes masked n =
     (let m = (if masked then 0x80 else 0)
      in if n < 126 then [m OR of_nat n]
         else if n < 65536 then [m OR 126, of_nat (n div 256), of_nat n]
         else (m OR 127) # putUint64 (of_nat n))"

definition frame :: "bool \<Rightarrow> u8 \<Rightarrow> u8 list option \<Rightarrow> u8 list \<Rightarrow> u8 list" where
  "frame fin opcode mkey payload =
     ((if fin then 0x80 else 0) OR opcode) # lengthBytes (mkey \<noteq> None) (length payload) @
     (case mkey of None \<Rightarrow> payload | Some key \<Rightarrow> key @ applyMask key payload)"

lemma length_applyMask [simp]: "length (applyMask key p) = length p"
  by (simp add: applyMask_def)

lemma applyMask_nth: "i < length p \<Longrightarrow> applyMask key p ! i = p ! i XOR key ! (i mod 4)"
  by (simp add: applyMask_def)

lemma applyMask_applyMask [simp]: "applyMask key (applyMask key p) = p"
  by (intro nth_equalityI) (simp_all add: applyMask_nth xor.assoc)

lemma readFull_append:
  "length b = n \<Longrightarrow> wsIn c = b @ rest \<Longrightarrow> readFull n c = (Inr b, c\<lparr>wsIn := rest\<rparr>)"
  by (simp add: readFull_def)

lemma lengthBytes_first:
  "\<exists>h ext. lengthBytes masked n = h # ext \<and> (h AND 0x80 \<noteq> 0 \<longleftrightarrow> masked) \<and>
     (n < 2 ^ 64 \<longrightarrow> (\<forall>c rest. wsIn c = ext @ rest \<longrightarrow> readLength h c = (Inr (of_nat n), c\<lparr>wsIn := rest\<rparr>)))"
proof -
  consider (short) "n < 126" | (mid) "126 \<le> n" "n < 65536" | (long) "65536 \<le> n" by linarith
  then show ?thesis
  proof cases
    case short
    let ?x = "of_nat n :: u8"
    have ux: "unat ?x = n" using short by (simp add: unat_of_nat)
    then have x: "?x < 128" using short by (simp add: word_less_nat_alt)
    have u: "(ucast ?x :: u64) = of_nat n" by (metis ux of_nat_unat)
    have ne: "(of_nat n :: u64) \<noteq> 126" "(of_nat n :: u64) \<noteq> 127"
      using short by (simp_all add: word_unat_eq_iff unat_of_nat)
    show ?thesis
      using short low7 [OF x] u ne
      by (cases masked) (simp_all add: lengthBytes_def readLength_def Let_def)
  next
    case mid
    have e: "readFull 2 c = (Inr [of_nat (n div 256), of_nat n], c\<lparr>wsIn := rest\<rparr>)"
      if "wsIn c = [of_nat (n div 256), of_nat n] @ rest" for c rest
      using that by (intro readFull_append) simp_all
    have u: "(ucast (of_nat n :: u16) :: u64) = of_nat n"
    proof -
      have "unat (of_nat n :: u16) = n" using mid by (simp add: unat_of_nat)
      then show ?thesis by (metis of_nat_unat)
    qed
    show ?thesis
      using mid e u getUint16_bytes [OF mid(2)]
      by (cases masked) (simp_all add: lengthBytes_def readLength_def Let_def)
  next
    case long
    have e: "readFull 8 c = (Inr (putUint64 (of_nat n)), c\<lparr>wsIn := rest\<rparr>)"
      if "wsIn c = putUint64 (of_nat n) @ rest" for c rest
      using that by (intro readFull_append) simp_all
    show ?thesis
      using long e getUint64_bytes
      by (cases masked) (simp_all add: lengthBytes_def readLength_def Let_def)
  qed
qed

lemma readFrame_frame:
  assumes "opcode < 16" "length payload \<le> 33554432" "\<And>key. mkey = Some key \<Longrightarrow> length key = 4"
    and "wsIn c = frame fin opcode mkey payload @ rest"
  shows "readFrame c = (Inr (fin, opcode, payload), c\<lparr>wsIn := rest\<rparr>)"
proof -
  let ?n = "length payload" and ?b0 = "(if fin then 0x80 else 0) OR opcode"
  obtain h ext where h: "lengthBytes (mkey \<noteq> None) ?n = h # ext" "h AND 0x80 \<noteq> 0 \<longleftrightarrow> mkey \<noteq> None"
    "\<And>c rest. wsIn c = ext @ rest \<Longrightarrow> readLength h c = (Inr (of_nat ?n), c\<lparr>wsIn := rest\<rparr>)"
    using lengthBytes_first [of "mkey \<noteq> None" ?n] assms(2) by fastforce
  let ?tail = "case mkey of None \<Rightarrow> payload | Some key \<Rightarrow> key @ applyMask key payload"
  have c: "wsIn c = [?b0, h] @ ext @ ?tail @ rest"
    unfolding assms(4) frame_def h(1) by (simp only: append_Cons append_Nil append_assoc)
  have r1: "readFull 2 c = (Inr [?b0, h], c\<lparr>wsIn := ext @ ?tail @ rest\<rparr>)"
    by (rule readFull_append [OF _ c]) simp
  have r2: "readLength h (c\<lparr>wsIn := ext @ ?tail @ rest\<rparr>) = (Inr (of_nat ?n), c\<lparr>wsIn := ?tail @ rest\<rparr>)"
    by (subst h(3) [of _ "?tail @ rest"]) simp_all
  have u: "unat (of_nat ?n :: u64) = ?n" using assms(2) by (simp add: unat_of_nat)
  then have le: "\<not> maxPayload < (of_nat ?n :: u64)"
    using assms(2) by (simp add: word_less_nat_alt maxPayload_def)
  have b: "?b0 AND 0x80 \<noteq> 0 \<longleftrightarrow> fin" "?b0 AND 0x0F = opcode"
    using low4 [OF assms(1)] low7 [OF low4(3) [OF assms(1)]] by simp_all
  show ?thesis
  proof (cases mkey)
    case None
    have "readFull ?n (c\<lparr>wsIn := payload @ rest\<rparr>) = (Inr payload, c\<lparr>wsIn := rest\<rparr>)"
      using readFull_append [of payload ?n "c\<lparr>wsIn := payload @ rest\<rparr>" rest] by simp
    then show ?thesis
      using r1 r2 u le b h(2) None by (simp add: readFrame_def Let_def)
  next
    case (Some key)
    have "readFull 4 (c\<lparr>wsIn := key @ applyMask key payload @ rest\<rparr>) =
        (Inr key, c\<lparr>wsIn := applyMask key payload @ rest\<rparr>)"
      using assms(3) [OF Some]
        readFull_append [of key 4 "c\<lparr>wsIn := key @ applyMask key payload @ rest\<rparr>" "applyMask key payload @ rest"]
      by simp
    moreover have "readFull ?n (c\<lparr>wsIn := applyMask key payload @ rest\<rparr>) =
        (Inr (applyMask key payload), c\<lparr>wsIn := rest\<rparr>)"
      using readFull_append [of "applyMask key payload" ?n "c\<lparr>wsIn := applyMask key payload @ rest\<rparr>" rest] by simp
    ultimately show ?thesis
      using r1 r2 u le b h(2) Some by (simp add: readFrame_def Let_def)
  qed
qed

lemma writeFrame_frame:
  "wsRoom c = None \<Longrightarrow>
     writeFrame opcode payload c = (None, c\<lparr>wsOut := wsOut c @ frame True opcode None payload\<rparr>)"
  by (simp add: writeFrame_def connWrite_def frameHeader_def frame_def lengthBytes_def Let_def)

text \<open>What a client sends: control frames, then a message in fragments.\<close>

fun fragments :: "u8 \<Rightarrow> (u8 list option \<times> u8 list) list \<Rightarrow> u8 list" where
  "fragments opcode [] = []"
| "fragments opcode [(mkey, p)] = frame True opcode mkey p"
| "fragments opcode ((mkey, p) # q # ps) = frame False opcode mkey p @ fragments opContinuation (q # ps)"

definition chunkOK :: "u8 list option \<times> u8 list \<Rightarrow> bool" where
  "chunkOK q \<longleftrightarrow> length (snd q) \<le> 33554432 \<and> (\<forall>key. fst q = Some key \<longrightarrow> length key = 4)"

definition pings :: "(u8 list option \<times> u8 list) list \<Rightarrow> u8 list" where
  "pings qs = concat (map (\<lambda>(mkey, p). frame True opPing mkey p) qs)"

definition pongs :: "u8 list list \<Rightarrow> u8 list" where
  "pongs ps = concat (map (frame True opPong None) ps)"

lemma readFrame_chunk:
  "opcode < 16 \<Longrightarrow> chunkOK (mkey, p) \<Longrightarrow> wsIn c = frame fin opcode mkey p @ rest \<Longrightarrow>
     readFrame c = (Inr (fin, opcode, p), c\<lparr>wsIn := rest\<rparr>)"
  by (rule readFrame_frame) (auto simp: chunkOK_def)

lemma readFragments_ok:
  "list_all chunkOK qs \<Longrightarrow> qs \<noteq> [] \<Longrightarrow> wsIn c = fragments opContinuation qs @ rest \<Longrightarrow>
     readFragments msg False c = (Inr (msg @ concat (map snd qs)), c\<lparr>wsIn := rest\<rparr>)"
proof (induction qs arbitrary: msg c)
  case (Cons q qs)
  obtain mkey p where q: "q = (mkey, p)" by force
  have op: "opContinuation < 16" by (simp add: opContinuation_def)
  show ?case
  proof (cases qs)
    case Nil
    then have "readFrame c = (Inr (True, opContinuation, p), c\<lparr>wsIn := rest\<rparr>)"
      using Cons.prems q by (intro readFrame_chunk [OF op]) simp_all
    then show ?thesis
      using Nil q by (simp add: readFragments.simps [of msg False c] readFragments.simps [of _ True])
  next
    case (Cons q2 qs2)
    let ?rest = "fragments opContinuation qs @ rest"
    have "readFrame c = (Inr (False, opContinuation, p), c\<lparr>wsIn := ?rest\<rparr>)"
      using Cons.prems q Cons by (intro readFrame_chunk [OF op]) simp_all
    moreover have "readFragments (msg @ p) False (c\<lparr>wsIn := ?rest\<rparr>) =
        (Inr ((msg @ p) @ concat (map snd qs)), c\<lparr>wsIn := rest\<rparr>)"
      using Cons.IH [of "c\<lparr>wsIn := ?rest\<rparr>" "msg @ p"] Cons.prems Cons by simp
    ultimately show ?thesis
      using q by (simp add: readFragments.simps [of msg False c])
  qed
qed simp

lemma ReadMessage_data:
  assumes "opcode = opText \<or> opcode = opBinary" "list_all chunkOK qs" "qs \<noteq> []"
    and "wsIn c = fragments opcode qs @ rest"
  shows "ReadMessage c = (Inr (opcode, concat (map snd qs)), c\<lparr>wsIn := rest\<rparr>)"
proof -
  obtain mkey p qs' where q: "qs = (mkey, p) # qs'" using assms(3) by (cases qs) auto
  have op: "opcode < 16" using assms(1) by (auto simp: opcode_defs)
  show ?thesis
  proof (cases qs')
    case Nil
    then have "readFrame c = (Inr (True, opcode, p), c\<lparr>wsIn := rest\<rparr>)"
      using assms q by (intro readFrame_chunk [OF op]) simp_all
    then show ?thesis
      using Nil q assms(1) by (simp add: ReadMessage.simps [of c] readFragments.simps [of _ True])
  next
    case (Cons q2 qs2)
    let ?rest = "fragments opContinuation qs' @ rest"
    have "readFrame c = (Inr (False, opcode, p), c\<lparr>wsIn := ?rest\<rparr>)"
      using assms q Cons by (intro readFrame_chunk [OF op]) simp_all
    moreover have "readFragments p False (c\<lparr>wsIn := ?rest\<rparr>) = (Inr (p @ concat (map snd qs')), c\<lparr>wsIn := rest\<rparr>)"
      using readFragments_ok [of qs' "c\<lparr>wsIn := ?rest\<rparr>" rest p] assms(2) q Cons by simp
    ultimately show ?thesis
      using q assms(1) by (simp add: ReadMessage.simps [of c])
  qed
qed

lemma ReadMessage_ping:
  assumes "chunkOK (mkey, p)" "wsRoom c = None" "wsIn c = frame True opPing mkey p @ rest"
  shows "ReadMessage c = ReadMessage (c\<lparr>wsIn := rest, wsOut := wsOut c @ frame True opPong None p\<rparr>)"
proof -
  have "readFrame c = (Inr (True, opPing, p), c\<lparr>wsIn := rest\<rparr>)"
    by (rule readFrame_chunk [OF _ assms(1,3)]) (simp add: opPing_def)
  then show ?thesis
    using writeFrame_frame [of "c\<lparr>wsIn := rest\<rparr>" opPong p] assms(2)
    by (simp add: ReadMessage.simps [of c] Let_def opcode_defs)
qed

lemma ReadMessage_pings:
  "list_all chunkOK qs \<Longrightarrow> wsRoom c = None \<Longrightarrow> wsIn c = pings qs @ rest \<Longrightarrow>
     ReadMessage c = ReadMessage (c\<lparr>wsIn := rest, wsOut := wsOut c @ pongs (map snd qs)\<rparr>)"
proof (induction qs arbitrary: c)
  case Nil
  then have "c\<lparr>wsIn := rest, wsOut := wsOut c @ pongs (map snd [])\<rparr> = c"
    by (simp add: pings_def pongs_def)
  then show ?case by simp
next
  case (Cons q qs)
  obtain mkey p where q: "q = (mkey, p)" by force
  have "ReadMessage c = ReadMessage (c\<lparr>wsIn := pings qs @ rest, wsOut := wsOut c @ frame True opPong None p\<rparr>)"
    using Cons.prems q by (intro ReadMessage_ping) (simp_all add: pings_def)
  also have "\<dots> = ReadMessage (c\<lparr>wsIn := rest, wsOut := (wsOut c @ frame True opPong None p) @ pongs (map snd qs)\<rparr>)"
    using Cons.IH [of "c\<lparr>wsIn := pings qs @ rest, wsOut := wsOut c @ frame True opPong None p\<rparr>"] Cons.prems by simp
  finally show ?case by (simp add: q pongs_def)
qed

lemma ReadMessage_whole:
  assumes "opcode = opText \<or> opcode = opBinary" "list_all chunkOK qs" "qs \<noteq> []" "list_all chunkOK ctl"
    and "wsRoom c = None" "wsIn c = pings ctl @ fragments opcode qs @ rest"
  shows "ReadMessage c =
    (Inr (opcode, concat (map snd qs)), c\<lparr>wsIn := rest, wsOut := wsOut c @ pongs (map snd ctl)\<rparr>)"
proof -
  let ?c = "c\<lparr>wsIn := fragments opcode qs @ rest, wsOut := wsOut c @ pongs (map snd ctl)\<rparr>"
  have "ReadMessage c = ReadMessage ?c" by (rule ReadMessage_pings [OF assms(4-6)])
  then show ?thesis using ReadMessage_data [OF assms(1-3), of ?c rest] by simp
qed

section \<open>Properties\<close>

text \<open>A frame the server writes is read back as it was: the final flag, the opcode and
  every payload up to the limit, in each of the three length forms, and the bytes behind it stay.\<close>

theorem frame_roundtrip:
  assumes "opcode < 16" "length payload \<le> 33554432" "wsRoom c = None" "wsOut c = []"
    and "d = c\<lparr>wsIn := wsOut (snd (writeFrame opcode payload c)) @ rest\<rparr>"
  shows "readFrame d = (Inr (True, opcode, payload), d\<lparr>wsIn := rest\<rparr>)"
  using assms writeFrame_frame [OF assms(3), of opcode payload]
  by (intro readFrame_frame [where mkey = None]) simp_all

definition sampleConn :: wsconn where
  "sampleConn = \<lparr>wsIn = [], wsOut = [], wsRoom = None, wsClosed = False\<rparr>"

theorem frame_roundtrip_witness:
  "readFrame (sampleConn\<lparr>wsIn := wsOut (snd (writeFrame opText [104, 105] sampleConn)) @ [7]\<rparr>) =
     (Inr (True, opText, [104, 105]), sampleConn\<lparr>wsIn := [7]\<rparr>)"
  using frame_roundtrip [of opText "[104, 105]" sampleConn _ "[7]", OF _ _ _ _ refl]
  by (simp add: sampleConn_def opText_def)

text \<open>C30. A text or binary message that a client sends in any number of fragments,
  masked or not, behind any number of pings, is returned whole; each ping is answered with a pong that
  carries its payload, in order, and nothing behind the message is consumed.\<close>

theorem messages_reassemble:
  assumes "opcode = opText \<or> opcode = opBinary" "list_all chunkOK qs" "qs \<noteq> []" "list_all chunkOK ctl"
    and "wsRoom c = None" "wsIn c = pings ctl @ fragments opcode qs @ rest"
  shows "ReadMessage c =
    (Inr (opcode, concat (map snd qs)), c\<lparr>wsIn := rest, wsOut := wsOut c @ pongs (map snd ctl)\<rparr>)"
  using assms by (rule ReadMessage_whole)

theorem messages_reassemble_witness:
  "ReadMessage (sampleConn\<lparr>wsIn := pings [(Some [1, 2, 3, 4], [9])] @
       fragments opText [(Some [1, 2, 3, 4], [104]), (None, [105])] @ [7]\<rparr>) =
     (Inr (opText, [104, 105]), sampleConn\<lparr>wsIn := [7], wsOut := pongs [[9]]\<rparr>)"
  using messages_reassemble [of opText "[(Some [1, 2, 3, 4], [104]), (None, [105])]" "[(Some [1, 2, 3, 4], [9])]"
      "sampleConn\<lparr>wsIn := pings [(Some [1, 2, 3, 4], [9])] @
         fragments opText [(Some [1, 2, 3, 4], [104]), (None, [105])] @ [7]\<rparr>" "[7]"]
  by (simp add: sampleConn_def chunkOK_def)

lemma readFull_inv: "readFull n c = (Inr b, c') \<Longrightarrow> length b = n \<and> suffix (wsIn c') (wsIn c)"
  by (auto simp: readFull_def suffix_drop split: if_splits)

lemma readLength_inv: "readLength h c = (Inr l, c') \<Longrightarrow> suffix (wsIn c') (wsIn c)"
  by (auto simp: readLength_def Let_def split: if_splits prod.splits sum.splits dest!: readFull_inv)

lemma suffix4: "suffix a b \<Longrightarrow> suffix b c \<Longrightarrow> suffix c d \<Longrightarrow> suffix d e \<Longrightarrow> suffix a e"
  using suffix_order.trans by metis

text \<open>C32. No frame with a payload over the limit is delivered, whatever the bytes, and
  the rest of the input is a proper suffix of what was there.\<close>

theorem payload_bounded:
  assumes "readFrame c = (Inr (fin, opcode, payload), c')"
  shows "length payload \<le> 33554432 \<and> strict_suffix (wsIn c') (wsIn c)"
proof -
  have "length payload \<le> 33554432"
    using assms
    by (auto simp: readFrame_def Let_def word_less_nat_alt maxPayload_def
        split: if_splits prod.splits sum.splits dest!: readFull_inv)
  moreover have "suffix (wsIn c') (wsIn c)"
    using assms
    by (auto simp: readFrame_def Let_def split: if_splits prod.splits sum.splits
        dest!: readFull_inv readLength_inv intro: suffix4)
  moreover have "wsIn c' \<noteq> wsIn c" using readFrame_shrinks [OF assms] by auto
  ultimately show ?thesis by (simp add: strict_suffix_def)
qed

theorem payload_bounded_witness:
  "length ([104, 105] :: u8 list) \<le> 33554432 \<and> strict_suffix [7] [0x81, 2, 104, 105, (7::u8)]"
proof -
  have "readFrame (sampleConn\<lparr>wsIn := [0x81, 2, 104, 105, 7]\<rparr>) =
      (Inr (True, opText, [104, 105]), sampleConn\<lparr>wsIn := [7]\<rparr>)"
    by code_simp
  from payload_bounded [OF this] show ?thesis by simp
qed

text \<open>C40. The handshake goes through only for a request with the four headers it needs, on a
  connection it could take over; then the connection got exactly the 101 response and the chain is
  aborted.  Otherwise the context is as before, and a connection that was taken over is closed.\<close>

theorem upgrade_guarded:
  assumes "Upgrade digest hijacked s = (out, s')"
  shows "case out of
      Inl (err, left) \<Rightarrow> s' = s \<and> (\<forall>conn. left = Some conn \<longrightarrow> wsClosed conn)
    | Inr conn \<Rightarrow>
        IsAborted s' \<and> cctx s' = cctx s \<and>
        toLower (GetHeader ''Upgrade'' (cctx s)) = ''websocket'' \<and>
        sublist ''upgrade'' (toLower (GetHeader ''Connection'' (cctx s))) \<and>
        GetHeader ''Sec-WebSocket-Version'' (cctx s) = ''13'' \<and> GetHeader ''Sec-WebSocket-Key'' (cctx s) \<noteq> [] \<and>
        (\<exists>conn0. hijacked = Inr conn0 \<and>
           (wsRoom conn0 = None \<longrightarrow>
              wsOut conn = wsOut conn0 @ bytesOf (handshake digest (GetHeader ''Sec-WebSocket-Key'' (cctx s)))))"
  using assms
  by (auto simp: Upgrade_def Let_def GetHeader_def IsAborted_def connWrite_def
      split: if_splits sum.splits prod.splits option.splits)

definition upgradeRequest :: "ctx cstate" where
  "upgradeRequest =
     \<lparr>cctx = \<lparr>cxWriter = rw_reset freshWriter recycled,
        cxRequest = \<lparr>reqMethod = ''GET'', reqPath = ''/ws'', reqRawPath = [], reqQueryText = [], reqHost = [], reqRemoteAddr = [], reqTLS = False,
          reqQuery = None, reqForm = Inr (\<lambda>k. None),
          reqHeader = hSet ''Upgrade'' ''WebSocket'' (hSet ''Connection'' ''keep-alive, Upgrade''
            (hSet ''Sec-WebSocket-Version'' ''13'' (hSet ''Sec-WebSocket-Key'' ''dGhl'' (\<lambda>k. None)))),
          reqCookies = [], reqContentLength = 0, reqBody = None\<rparr>,
        cxParams = [], cxQueryCache = None, cxStore = (\<lambda>k. None), cxRenderer = None\<rparr>, cindex = 0\<rparr>"

theorem upgrade_guarded_witness:
  "IsAborted (snd (Upgrade id (Inr sampleConn) upgradeRequest))"
proof -
  have up: "toLower ''WebSocket'' = ''websocket''" "sublist ''upgrade'' (toLower ''keep-alive, Upgrade'')"
    by code_simp+
  have k: "canonicalKey ''Upgrade'' = ''Upgrade''" "canonicalKey ''Connection'' = ''Connection''"
    "canonicalKey ''Sec-WebSocket-Version'' = ''Sec-Websocket-Version''"
    "canonicalKey ''Sec-WebSocket-Key'' = ''Sec-Websocket-Key''"
    by code_simp+
  have "\<exists>conn s'. Upgrade id (Inr sampleConn) upgradeRequest = (Inr conn, s')"
    by (simp add: Upgrade_def upgradeRequest_def http_simps k up sampleConn_def connWrite_def Let_def)
  then obtain conn s' where u: "Upgrade id (Inr sampleConn) upgradeRequest = (Inr conn, s')" by blast
  from upgrade_guarded [OF u] show ?thesis using u by simp
qed

text \<open>A ping between the fragments of a message, which the protocol allows,
  is not answered: it ends the message with an error.\<close>

theorem ping_between_fragments:
  assumes "opcode = opText \<or> opcode = opBinary" "chunkOK (k1, p)" "chunkOK (k2, q)"
    and "wsIn c = frame False opcode k1 p @ frame True opPing k2 q @ rest"
  shows "ReadMessage c = (Inl ErrContinuation, c\<lparr>wsIn := rest\<rparr>)"
proof -
  let ?c = "c\<lparr>wsIn := frame True opPing k2 q @ rest\<rparr>"
  have "readFrame c = (Inr (False, opcode, p), ?c)"
    by (rule readFrame_chunk [OF _ assms(2,4)]) (use assms(1) in \<open>auto simp: opcode_defs\<close>)
  moreover have "readFrame ?c = (Inr (True, opPing, q), c\<lparr>wsIn := rest\<rparr>)"
    using readFrame_chunk [of opPing k2 q ?c True rest] assms(3) by (simp add: opPing_def)
  ultimately show ?thesis
    using assms(1)
    by (simp add: ReadMessage.simps [of c] readFragments.simps [of p False] opPing_def opContinuation_def)
qed

theorem ping_between_fragments_witness:
  "ReadMessage (sampleConn\<lparr>wsIn := frame False opText None [104] @ frame True opPing None [] @ [7]\<rparr>) =
     (Inl ErrContinuation, sampleConn\<lparr>wsIn := [7]\<rparr>)"
  using ping_between_fragments [of opText None "[104]" None "[]"
      "sampleConn\<lparr>wsIn := frame False opText None [104] @ frame True opPing None [] @ [7]\<rparr>" "[7]"]
  by (simp add: chunkOK_def)

end
