(* ===== verification/Middleware.thy ===== *)
theory Middleware
  imports Router "HOL-Library.Sublist"
begin

text \<open>
  The stateless middleware (\<^verbatim>\<open>middleware/\<close>): CORS, security headers, Basic authentication, client
  address, request identifiers, body limits and decompression, as handler programs on the context.
  What they call outside of the repository and the model (\<^verbatim>\<open>net.ParseIP\<close>, base64, \<^verbatim>\<open>strconv.Quote\<close>, random
  numbers) is an argument.  \<^verbatim>\<open>strings.EqualFold\<close> and \<^verbatim>\<open>strings.TrimSpace\<close> are those of ASCII strings.
\<close>

section \<open>Durations\<close>

text \<open>Nanoseconds of 64 bits; \<^verbatim>\<open>Time.Sub\<close> saturates.\<close>

definition maxInt64 :: int where "maxInt64 = 2 ^ 63 - 1"
definition minInt64 :: int where "minInt64 = - (2 ^ 63)"

definition timeSub :: "int \<Rightarrow> int \<Rightarrow> int" where
  "timeSub t u = max minInt64 (min maxInt64 (t - u))"

section \<open>Shared\<close>

text \<open>\<^verbatim>\<open>return c.Next()\<close>: an error is returned, a panic passes through.\<close>

definition returnNext :: "'c hprog" where
  "returnNext = CallNext (\<lambda>out. case out of Inl v \<Rightarrow> Raise v | Inr err \<Rightarrow> Return err)"

definition equalFold :: "string \<Rightarrow> string \<Rightarrow> bool" where
  "equalFold s t \<longleftrightarrow> toLower s = toLower t"

definition isSpace :: "char \<Rightarrow> bool" where
  "isSpace c \<longleftrightarrow> c = CHR '' '' \<or> (9 \<le> (of_char c :: nat) \<and> (of_char c :: nat) \<le> 13)"

definition trimSpace :: "string \<Rightarrow> string" where
  "trimSpace s = rev (dropWhile isSpace (rev (dropWhile isSpace s)))"

definition setRequest :: "(request \<Rightarrow> request) \<Rightarrow> ctx \<Rightarrow> ctx" where
  "setRequest f c = c\<lparr>cxRequest := f (cxRequest c)\<rparr>"

section \<open>CORS\<close>

record corsConfig =
  AllowOrigins :: "string list"
  AllowMethods :: "string list"
  AllowHeaders :: "string list"
  ExposeHeaders :: "string list"
  AllowCredentials :: bool
  MaxAge :: int

definition DefaultCORSConfig :: corsConfig where
  "DefaultCORSConfig =
     \<lparr>AllowOrigins = [''*''],
      AllowMethods = [''GET'', ''POST'', ''PUT'', ''PATCH'', ''DELETE'', ''HEAD'', ''OPTIONS''],
      AllowHeaders = [], ExposeHeaders = [], AllowCredentials = False, MaxAge = 0\<rparr>"

fun matchOrigin :: "bool \<Rightarrow> string \<Rightarrow> string list \<Rightarrow> string" where
  "matchOrigin cred origin [] = []"
| "matchOrigin cred origin (a # as) =
     (if a = ''*'' then (if cred then origin else ''*'')
      else if equalFold a origin then origin
      else matchOrigin cred origin as)"

definition resolveOrigin :: "corsConfig \<Rightarrow> string \<Rightarrow> string" where
  "resolveOrigin cfg origin =
     (if origin = [] then [] else matchOrigin (AllowCredentials cfg) origin (AllowOrigins cfg))"

definition corsDefaults :: "corsConfig \<Rightarrow> corsConfig" where
  "corsDefaults cfg =
     (let cfg1 = (if AllowOrigins cfg = [] then cfg\<lparr>AllowOrigins := AllowOrigins DefaultCORSConfig\<rparr> else cfg)
      in if AllowMethods cfg1 = [] then cfg1\<lparr>AllowMethods := AllowMethods DefaultCORSConfig\<rparr> else cfg1)"

text \<open>The headers of every response, and those of a preflight.\<close>

definition corsOrigin :: "corsConfig \<Rightarrow> ctx \<Rightarrow> ctx" where
  "corsOrigin cfg c =
     (let allowOrigin = resolveOrigin cfg (GetHeader ''Origin'' c);
          exposeHeaders = joinStrings '', '' (ExposeHeaders cfg)
      in if allowOrigin \<noteq> [] then
           let c1 = cx_SetHeader ''Vary'' ''Origin'' (cx_SetHeader ''Access-Control-Allow-Origin'' allowOrigin c);
               c2 = (if AllowCredentials cfg then cx_SetHeader ''Access-Control-Allow-Credentials'' ''true'' c1 else c1)
           in if exposeHeaders \<noteq> [] then cx_SetHeader ''Access-Control-Expose-Headers'' exposeHeaders c2 else c2
         else c)"

definition isPreflight :: "ctx \<Rightarrow> bool" where
  "isPreflight c \<longleftrightarrow> cx_Method c = ''OPTIONS'' \<and> GetHeader ''Access-Control-Request-Method'' c \<noteq> []"

definition corsPreflight :: "corsConfig \<Rightarrow> ctx \<Rightarrow> ctx" where
  "corsPreflight cfg c =
     (let allowHeaders = joinStrings '', '' (AllowHeaders cfg);
          reqHeaders = GetHeader ''Access-Control-Request-Headers'' c;
          c1 = cx_SetHeader ''Access-Control-Allow-Methods'' (joinStrings '', '' (AllowMethods cfg)) c;
          c2 = (if allowHeaders \<noteq> [] then cx_SetHeader ''Access-Control-Allow-Headers'' allowHeaders c1
                else if reqHeaders \<noteq> [] then cx_SetHeader ''Access-Control-Allow-Headers'' reqHeaders c1
                else c1)
      in if 0 < MaxAge cfg then cx_SetHeader ''Access-Control-Max-Age'' (itoa (MaxAge cfg)) c2 else c2)"

definition CORSWithConfig :: "corsConfig \<Rightarrow> handler" where
  "CORSWithConfig cfg0 =
     (let cfg = corsDefaults cfg0
      in Effect (\<lambda>c. let c1 = corsOrigin cfg c in if isPreflight c then corsPreflight cfg c1 else c1)
           (\<lambda>c. if isPreflight c then DoAbort (Effect (cxWriteHeader 204) (\<lambda>_. Return None)) else returnNext))"

definition CORS :: handler where
  "CORS = CORSWithConfig DefaultCORSConfig"

section \<open>Security headers\<close>

record secureConfig =
  XContentTypeOptions :: string
  XFrameOptions :: string
  ContentSecurityPolicy :: string
  ReferrerPolicy :: string
  HSTSMaxAge :: int
  HSTSIncludeSubdomains :: bool
  HSTSPreload :: bool

definition DefaultSecureHeadersConfig :: secureConfig where
  "DefaultSecureHeadersConfig =
     \<lparr>XContentTypeOptions = ''nosniff'', XFrameOptions = ''SAMEORIGIN'', ContentSecurityPolicy = [],
      ReferrerPolicy = [], HSTSMaxAge = 0, HSTSIncludeSubdomains = False, HSTSPreload = False\<rparr>"

definition hstsValue :: "secureConfig \<Rightarrow> string" where
  "hstsValue cfg =
     (if 0 < HSTSMaxAge cfg
      then ''max-age='' @ itoa (HSTSMaxAge cfg) @
           (if HSTSIncludeSubdomains cfg then ''; includeSubDomains'' else []) @
           (if HSTSPreload cfg then ''; preload'' else [])
      else [])"

definition secureHeader :: "string \<Rightarrow> string \<Rightarrow> ctx \<Rightarrow> ctx" where
  "secureHeader key val c = (if val \<noteq> [] then cx_SetHeader key val c else c)"

definition SecureHeadersWithConfig :: "secureConfig \<Rightarrow> handler" where
  "SecureHeadersWithConfig cfg =
     Effect
       (\<lambda>c. let c1 = secureHeader ''X-Content-Type-Options'' (XContentTypeOptions cfg) c;
                c2 = secureHeader ''X-Frame-Options'' (XFrameOptions cfg) c1;
                c3 = secureHeader ''Content-Security-Policy'' (ContentSecurityPolicy cfg) c2;
                c4 = secureHeader ''Referrer-Policy'' (ReferrerPolicy cfg) c3
            in if hstsValue cfg \<noteq> [] \<and> reqTLS (cxRequest c4)
               then cx_SetHeader ''Strict-Transport-Security'' (hstsValue cfg) c4 else c4)
       (\<lambda>_. returnNext)"

definition SecureHeaders :: handler where
  "SecureHeaders = SecureHeadersWithConfig DefaultSecureHeadersConfig"

section \<open>Basic authentication\<close>

text \<open>\<^verbatim>\<open>Request.BasicAuth\<close>, with the base64 decoder as an argument.\<close>

definition parseBasicAuth :: "(string \<Rightarrow> string option) \<Rightarrow> string \<Rightarrow> (string \<times> string) option" where
  "parseBasicAuth decode auth =
     (if length auth < 6 \<or> \<not> equalFold (take 6 auth) ''Basic '' then None
      else case decode (drop 6 auth) of
             None \<Rightarrow> None
           | Some cs \<Rightarrow>
               (case indexOf (CHR '':'') cs of
                  None \<Rightarrow> None
                | Some i \<Rightarrow> Some (take i cs, drop (Suc i) cs)))"

record basicAuthConfig =
  Validator :: "(string \<Rightarrow> string \<Rightarrow> ctx \<Rightarrow> bool) option"
  Realm :: string

definition authAccepts ::
    "(string \<Rightarrow> string option) \<Rightarrow> (string \<Rightarrow> string \<Rightarrow> ctx \<Rightarrow> bool) \<Rightarrow> ctx \<Rightarrow> bool" where
  "authAccepts decode valid c =
     (case parseBasicAuth decode (GetHeader ''Authorization'' c) of
        None \<Rightarrow> False
      | Some (user, pass) \<Rightarrow> valid user pass c)"

definition authChallenge :: "(string \<Rightarrow> string) \<Rightarrow> basicAuthConfig \<Rightarrow> string" where
  "authChallenge quote cfg = ''Basic realm='' @ quote (if Realm cfg = [] then ''Restricted'' else Realm cfg)"

definition BasicAuthWithConfig ::
    "(string \<Rightarrow> string option) \<Rightarrow> (string \<Rightarrow> string) \<Rightarrow> basicAuthConfig \<Rightarrow> gopanic + handler" where
  "BasicAuthWithConfig decode quote cfg =
     (case Validator cfg of
        None \<Rightarrow> Inl (PanicMsg ''goxpress/middleware: BasicAuth requires a Validator'')
      | Some valid \<Rightarrow>
          Inr (Effect
                 (\<lambda>c. if authAccepts decode valid c then c
                      else cx_SetHeader ''WWW-Authenticate'' (authChallenge quote cfg) c)
                 (\<lambda>c. if authAccepts decode valid c then returnNext
                      else Return (Some (NewHTTPError 401 [])))))"

definition BasicAuth ::
    "(string \<Rightarrow> string option) \<Rightarrow> (string \<Rightarrow> string) \<Rightarrow> (string \<Rightarrow> string \<Rightarrow> ctx \<Rightarrow> bool) option \<Rightarrow>
     gopanic + handler" where
  "BasicAuth decode quote validator =
     BasicAuthWithConfig decode quote \<lparr>Validator = validator, Realm = []\<rparr>"

section \<open>Client address and request identifier\<close>

text \<open>\<open>parseIP\<close> stands for \<^verbatim>\<open>net.ParseIP\<close> followed by \<^verbatim>\<open>String\<close>.\<close>

definition clientIP :: "(string \<Rightarrow> string option) \<Rightarrow> ctx \<Rightarrow> string" where
  "clientIP parseIP c =
     (let xrip = GetHeader ''X-Real-IP'' c; xff = GetHeader ''X-Forwarded-For'' c;
          first = takeWhile (\<lambda>ch. ch \<noteq> CHR '','') xff
      in case (if xrip \<noteq> [] then parseIP (trimSpace xrip) else None) of
           Some ip \<Rightarrow> ip
         | None \<Rightarrow>
             (case (if xff \<noteq> [] then parseIP (trimSpace first) else None) of
                Some ip \<Rightarrow> ip
              | None \<Rightarrow> []))"

definition RealIP :: "(string \<Rightarrow> string option) \<Rightarrow> handler" where
  "RealIP parseIP =
     Effect (\<lambda>c. let ip = clientIP parseIP c
                 in if ip \<noteq> [] then setRequest (\<lambda>r. r\<lparr>reqRemoteAddr := ip\<rparr>) c else c)
       (\<lambda>_. returnNext)"

definition requestIDKey :: string where
  "requestIDKey = ''request_id''"

text \<open>\<open>random\<close> is what \<^verbatim>\<open>crypto/rand\<close> delivers, \<open>None\<close> its error.\<close>

definition hexEncode :: "string \<Rightarrow> string" where
  "hexEncode b = concat (map (\<lambda>c. [hexDigit (of_char c div 16), hexDigit (of_char c mod 16)]) b)"

definition newRequestID :: "string option \<Rightarrow> string" where
  "newRequestID random = (case random of None \<Rightarrow> ''0000000000000000'' | Some b \<Rightarrow> hexEncode b)"

definition RequestID :: "string option \<Rightarrow> handler" where
  "RequestID random =
     Effect (\<lambda>c. let h = GetHeader ''X-Request-ID'' c;
                     id = (if h = [] then newRequestID random else h)
                 in cx_SetHeader ''X-Request-ID'' id (cx_Set requestIDKey (AString id) c))
       (\<lambda>_. returnNext)"

definition GetRequestID :: "ctx \<Rightarrow> string" where
  "GetRequestID c = cx_GetString requestIDKey c"

section \<open>Request bodies\<close>

definition BodyLimit :: "int \<Rightarrow> handler" where
  "BodyLimit limit =
     Effect (\<lambda>c. if limit < reqContentLength (cxRequest c) then c
                 else setRequest (\<lambda>r. r\<lparr>reqBody := map_option (BodyMax limit) (reqBody r)\<rparr>) c)
       (\<lambda>c. if limit < reqContentLength (cxRequest c) then Return (Some (NewHTTPError 413 []))
            else returnNext)"

text \<open>\<open>gzipOK\<close> tells whether \<^verbatim>\<open>gzip.NewReader\<close> accepts the body it is given.\<close>

definition Decompress :: "(bodyReader option \<Rightarrow> bool) \<Rightarrow> handler" where
  "Decompress gzipOK =
     Effect
       (\<lambda>c. if equalFold (GetHeader ''Content-Encoding'' c) ''gzip'' \<and> gzipOK (reqBody (cxRequest c))
            then setRequest (\<lambda>r. r\<lparr>reqBody := map_option BodyGunzip (reqBody r),
                                    reqHeader := hDel ''Content-Encoding'' (reqHeader r),
                                    reqContentLength := -1\<rparr>) c
            else c)
       (\<lambda>c. if equalFold (GetHeader ''Content-Encoding'' c) ''gzip'' \<and> \<not> gzipOK (reqBody (cxRequest c))
            then Return (Some (NewHTTPError 400 [''invalid gzip request body'']))
            else returnNext)"

end
