(* ===== verification/Runes.thy ===== *)
theory Runes
  imports Prelude
begin

text \<open>
  The number of runes of a byte string, for the widths of the banner and of log lines: Go's decoding of
  UTF-8, with one rune for every byte that does not begin a valid sequence.
\<close>

definition byteIn :: "nat \<Rightarrow> nat \<Rightarrow> char \<Rightarrow> bool" where
  "byteIn lo hi c \<longleftrightarrow> lo \<le> of_char c \<and> of_char c \<le> hi"

fun runeWidth :: "string \<Rightarrow> nat" where
  "runeWidth (a # b # c # d # s) =
     (if byteIn 0xC2 0xDF a \<and> byteIn 0x80 0xBF b then 2
      else if byteIn 0xE0 0xEF a \<and> byteIn (if of_char a = (0xE0 :: nat) then 0xA0 else 0x80) (if of_char a = (0xED :: nat) then 0x9F else 0xBF) b \<and>
        byteIn 0x80 0xBF c then 3
      else if byteIn 0xF0 0xF4 a \<and> byteIn (if of_char a = (0xF0 :: nat) then 0x90 else 0x80) (if of_char a = (0xF4 :: nat) then 0x8F else 0xBF) b \<and>
        byteIn 0x80 0xBF c \<and> byteIn 0x80 0xBF d then 4
      else 1)"
| "runeWidth [a, b, c] =
     (if byteIn 0xC2 0xDF a \<and> byteIn 0x80 0xBF b then 2
      else if byteIn 0xE0 0xEF a \<and> byteIn (if of_char a = (0xE0 :: nat) then 0xA0 else 0x80) (if of_char a = (0xED :: nat) then 0x9F else 0xBF) b \<and>
        byteIn 0x80 0xBF c then 3
      else 1)"
| "runeWidth [a, b] = (if byteIn 0xC2 0xDF a \<and> byteIn 0x80 0xBF b then 2 else 1)"
| "runeWidth [a] = 1"
| "runeWidth [] = 1"

lemma runeWidth_pos: "0 < runeWidth s"
  by (cases s rule: runeWidth.cases) simp_all

function runeCount :: "string \<Rightarrow> int" where
  "runeCount s = (if s = [] then 0 else 1 + runeCount (drop (runeWidth s) s))"
  by auto
termination
  by (relation "measure length") (use runeWidth_pos in \<open>auto simp: neq_Nil_conv\<close>)

declare runeCount.simps [simp del]

lemma runeCount_Nil [simp]: "runeCount [] = 0"
  by (simp add: runeCount.simps)

lemma runeWidth_ascii: "(of_char c :: nat) < 128 \<Longrightarrow> runeWidth (c # s) = 1"
  by (cases "c # s" rule: runeWidth.cases) (auto simp: byteIn_def)

lemma runeCount_ascii: "(of_char c :: nat) < 128 \<Longrightarrow> runeCount (c # s) = 1 + runeCount s"
  by (subst runeCount.simps) (simp add: runeWidth_ascii)

end
