(* ===== verification/Observers.thy ===== *)
theory Observers
  imports Middleware Runes
begin

text \<open>
  The middleware that watches the rest of the chain: \<^verbatim>\<open>Recoverer\<close> and \<^verbatim>\<open>Logger\<close> (their state is the log,
  a list of the strings written to \<^verbatim>\<open>Output\<close>, beside the context) and \<^verbatim>\<open>Compress\<close> (its state is the stack
  of writers it puts in front of the context's).  The clock, the formats of times and durations, the
  stack trace and the gzip compressor are arguments.
\<close>

section \<open>Recoverer\<close>

type_synonym logged = "string list \<times> ctx"

definition writeLog :: "string \<Rightarrow> logged \<Rightarrow> logged" where
  "writeLog line s = (fst s @ [line], snd s)"

text \<open>What the deferred function does with a panic that is not \<^verbatim>\<open>http.ErrAbortHandler\<close>.\<close>

definition logPanic :: "bool \<Rightarrow> string \<Rightarrow> pval \<Rightarrow> logged \<Rightarrow> logged" where
  "logPanic stackTrace stack v s =
     (let s1 = writeLog (''[goxpress] panic recovered: '' @ showPanic v @ [LF]) s
      in if stackTrace then writeLog stack s1 else s1)"

definition failResponse :: "logged \<Rightarrow> logged" where
  "failResponse s = (if \<not> cxWritten (snd s) then (fst s, cxWriteHeader 500 (snd s)) else s)"

definition RecovererWithConfig :: "bool \<Rightarrow> string \<Rightarrow> logged hprog" where
  "RecovererWithConfig stackTrace stack =
     CallNext (\<lambda>out. case out of
         Inr err \<Rightarrow> Return err
       | Inl v \<Rightarrow>
           if v = ErrAbortHandler then Raise v
           else Effect (logPanic stackTrace stack v)
                  (\<lambda>_. Effect failResponse (\<lambda>_. DoAbort (Return None))))"

definition Recoverer :: "string \<Rightarrow> logged hprog" where
  "Recoverer = RecovererWithConfig True"

section \<open>Logger\<close>

text \<open>The widths of a format count runes: a latency in microseconds has one of two bytes.\<close>

definition padLeft :: "nat \<Rightarrow> string \<Rightarrow> string" where
  "padLeft n s = replicate (n - nat (runeCount s)) (CHR '' '') @ s"

definition padRight :: "nat \<Rightarrow> string \<Rightarrow> string" where
  "padRight n s = s @ replicate (n - nat (runeCount s)) (CHR '' '')"

definition logLine :: "string \<Rightarrow> int \<Rightarrow> string \<Rightarrow> string \<Rightarrow> string \<Rightarrow> string" where
  "logLine time status latency method path =
     ''[goxpress] '' @ time @ '' | '' @ padLeft 3 (itoa status) @ '' | '' @ padLeft 12 latency @
     '' | '' @ padRight 7 method @ '' '' @ path @ [LF]"

definition LoggerWithConfig :: "(int \<Rightarrow> string) \<Rightarrow> (int \<Rightarrow> string) \<Rightarrow> int \<Rightarrow> int \<Rightarrow> logged hprog" where
  "LoggerWithConfig showTime showLatency start finish =
     Effect id (\<lambda>s0. CallNext (\<lambda>out. case out of
         Inl v \<Rightarrow> Raise v
       | Inr err \<Rightarrow>
           Effect (\<lambda>s. let st = rw_Status (cxWriter (snd s));
                           status = (if st = 0 then 200 else st)
                       in writeLog (logLine (showTime start) status (showLatency (timeSub finish start))
                            (cx_Method (snd s0)) (cx_Path (snd s0))) s)
             (\<lambda>_. Return err)))"

section \<open>Compress\<close>

text \<open>A compressor: its state after a reset, the bytes a write of some input passes on, and the bytes
  that closing it passes on.\<close>

record 'g gzipLib =
  gzNew :: 'g
  gzWrite :: "'g \<Rightarrow> string \<Rightarrow> string \<times> 'g"
  gzClose :: "'g \<Rightarrow> string"

text \<open>The context's writer: the compressors in front of the pooled writer, the outermost first.\<close>

type_synonym 'g layered = "'g list \<times> ctx"

fun layHeader :: "int \<Rightarrow> 'g layered \<Rightarrow> 'g layered" where
  "layHeader code ([], c) = ([], cxWriteHeader code c)"
| "layHeader code (z # zs, c) =
     (case layHeader code (zs, mapHeader (hDel ''Content-Length'') c) of (zs', c') \<Rightarrow> (z # zs', c'))"

fun layWrite :: "'g gzipLib \<Rightarrow> string \<Rightarrow> 'g layered \<Rightarrow> goerr option \<times> 'g layered" where
  "layWrite lib b ([], c) = (case cxWrite b c of (err, c') \<Rightarrow> (err, ([], c')))"
| "layWrite lib b (z # zs, c) =
     (case (if cxWritten c then (z # zs, c) else layHeader 200 (z # zs, c)) of
        (ys, c1) \<Rightarrow>
          (case gzWrite lib z b of
             (out, z') \<Rightarrow>
               if out = [] then (None, (z' # tl ys, c1))
               else (case layWrite lib out (zs, c1) of (err, (zs', c')) \<Rightarrow> (err, (z' # zs', c')))))"

definition openGzip :: "'g gzipLib \<Rightarrow> 'g layered \<Rightarrow> 'g layered" where
  "openGzip lib s =
     (gzNew lib # fst s,
      cx_SetHeader ''Vary'' ''Accept-Encoding'' (cx_SetHeader ''Content-Encoding'' ''gzip'' (snd s)))"

text \<open>After the chain: the compressor is closed and the writer restored.\<close>

definition closeGzip :: "'g gzipLib \<Rightarrow> 'g layered \<Rightarrow> 'g layered" where
  "closeGzip lib s =
     (case fst s of
        [] \<Rightarrow> s
      | z # zs \<Rightarrow> if gzClose lib z = [] then (zs, snd s) else snd (layWrite lib (gzClose lib z) (zs, snd s)))"

definition Compress :: "'g gzipLib \<Rightarrow> 'g layered hprog" where
  "Compress lib =
     Effect (\<lambda>s. if sublist ''gzip'' (GetHeader ''Accept-Encoding'' (snd s)) then openGzip lib s else s)
       (\<lambda>s0. if sublist ''gzip'' (GetHeader ''Accept-Encoding'' (snd s0))
             then CallNext (\<lambda>out. case out of
                      Inl v \<Rightarrow> Raise v
                    | Inr err \<Rightarrow> Effect (closeGzip lib) (\<lambda>_. Return err))
             else returnNext)"

end
