(* ===== verification/MiddlewareProps.thy ===== *)
theory MiddlewareProps
  imports Observers
begin

text \<open>
  What the middleware of \<open>Middleware\<close> and \<open>Observers\<close> does to a request in a chain: how a handler that
  ends in \<^verbatim>\<open>return c.Next()\<close> passes a request on, who gets a CORS grant, who reaches a handler behind
  Basic authentication, where a panic goes, and what becomes of an error behind \<^verbatim>\<open>Compress\<close>.
\<close>

section \<open>Handlers that pass a request on\<close>

definition outcome :: "'c result option \<Rightarrow> ((pval + goerr option) \<times> 'c) option" where
  "outcome = map_option (\<lambda>(out, s). (out, cctx s))"

lemma exec_returnNext [chain_simps]: "exec nxt returnNext s = nxt s"
  by (cases "nxt s") (auto simp: returnNext_def split: sum.splits)

lemma nextLoop_ended: "nextLoop fuel hs s = Some (Inr None, s') \<Longrightarrow> int (length hs) \<le> cindex s'"
proof (induction fuel arbitrary: s)
  case (Suc fuel)
  then show ?case by (auto split: if_splits option.splits sum.splits)
qed simp

lemma Next_ended: "Next hs s = Some (Inr None, s') \<Longrightarrow> Next hs s' = Some (Inr None, advance s')"
proof -
  assume "Next hs s = Some (Inr None, s')"
  then have "int (length hs) \<le> cindex s'" unfolding Next_def NextFuel_def by (rule nextLoop_ended)
  then show "Next hs s' = Some (Inr None, advance s')" by (intro Next_end) simp
qed

text \<open>The position of a handler in the chain, when the one before it calls \<^verbatim>\<open>Next\<close>.\<close>

definition atHandler :: "'c hprog list \<Rightarrow> 'c cstate \<Rightarrow> 'c hprog \<Rightarrow> bool" where
  "atHandler hs s h \<longleftrightarrow>
     int (length hs) \<le> abortIndex \<and> - 1 \<le> cindex s \<and> cindex s + 1 < int (length hs) \<and>
     hs ! nat (cindex s + 1) = h"

lemma Next_at:
  assumes "atHandler hs s h"
  shows "Next hs s =
    (case exec (Next hs) h (advance s) of
       None \<Rightarrow> None
     | Some (Inr None, s') \<Rightarrow> Next hs s'
     | Some (out, s') \<Rightarrow> Some (out, s'))"
  using Next_unfold [of hs s] assms by (simp add: atHandler_def)

lemma outcome_at:
  assumes "atHandler hs s h" "exec (Next hs) h (advance s) = Next hs t"
  shows "outcome (Next hs s) = outcome (Next hs t)"
proof (cases "Next hs t")
  case (Some r)
  obtain out s' where r: "r = (out, s')" by force
  show ?thesis
  proof (cases "out = Inr None")
    case True
    then have "Next hs s' = Some (Inr None, advance s')" using Next_ended Some r by blast
    then show ?thesis using Next_at [OF assms(1)] assms(2) Some r True by (simp add: outcome_def)
  next
    case False
    then show ?thesis
      using Next_at [OF assms(1)] assms(2) Some r by (auto simp: outcome_def split: sum.splits option.splits)
  qed
qed (use Next_at [OF assms(1)] assms(2) in simp)

lemma advance_same [simp]: "(advance s)\<lparr>cctx := cctx s\<rparr> = advance s"
  by (cases s) (simp add: advance_def)

lemma outcome_passes:
  assumes "atHandler hs s (Effect f (\<lambda>_. returnNext))"
  shows "outcome (Next hs s) = outcome (Next hs ((advance s)\<lparr>cctx := f (cctx s)\<rparr>))"
  by (rule outcome_at [OF assms]) (simp add: exec_returnNext)

lemma outcome_fails:
  assumes "atHandler hs s h" "exec (Next hs) h (advance s) = Some (Inr (Some err), t)"
  shows "outcome (Next hs s) = Some (Inr (Some err), cctx t)"
  using Next_at [OF assms(1)] assms(2) by (simp add: outcome_def)

text \<open>A handler that aborts and returns nil ends the chain.\<close>

lemma outcome_aborts:
  assumes "atHandler hs s h" "exec (Next hs) h (advance s) = Some (Inr None, t)" "IsAborted t"
  shows "outcome (Next hs s) = Some (Inr None, cctx t)"
  using Next_at [OF assms(1)] assms Next_aborted [of hs t] by (simp add: outcome_def atHandler_def)

section \<open>Headers\<close>

lemma hGet_cx_SetHeader:
  "hGet (cxHeader (cx_SetHeader k v c)) k' = (if canonicalKey k' = canonicalKey k then v else hGet (cxHeader c) k')"
  by (simp add: cx_SetHeader_def http_simps)

lemma cx_SetHeader_frame [simp]:
  "cxRequest (cx_SetHeader k v c) = cxRequest c" "cxWritten (cx_SetHeader k v c) = cxWritten c"
  "wSent (rwUnder (cxWriter (cx_SetHeader k v c))) = wSent (rwUnder (cxWriter c))"
  by (simp_all add: cx_SetHeader_def)

abbreviation ACAO :: string where
  "ACAO \<equiv> ''Access-Control-Allow-Origin''"

lemma cors_keys:
  "canonicalKey ACAO = ACAO" "canonicalKey ''Vary'' = ''Vary''"
  "canonicalKey ''Access-Control-Allow-Credentials'' = ''Access-Control-Allow-Credentials''"
  "canonicalKey ''Access-Control-Expose-Headers'' = ''Access-Control-Expose-Headers''"
  "canonicalKey ''Access-Control-Allow-Methods'' = ''Access-Control-Allow-Methods''"
  "canonicalKey ''Access-Control-Allow-Headers'' = ''Access-Control-Allow-Headers''"
  "canonicalKey ''Access-Control-Max-Age'' = ''Access-Control-Max-Age''"
  by code_simp+

section \<open>CORS\<close>

definition originAllowed :: "corsConfig \<Rightarrow> string \<Rightarrow> bool" where
  "originAllowed cfg origin \<longleftrightarrow>
     origin \<noteq> [] \<and> (AllowOrigins cfg = [] \<or> (\<exists>a\<in>set (AllowOrigins cfg). a = ''*'' \<or> equalFold a origin))"

definition grantOK :: "corsConfig \<Rightarrow> string \<Rightarrow> string \<Rightarrow> bool" where
  "grantOK cfg origin grant \<longleftrightarrow>
     (grant \<noteq> [] \<longleftrightarrow> originAllowed cfg origin) \<and>
     (grant = [] \<or> grant = origin \<or> (grant = ''*'' \<and> \<not> AllowCredentials cfg))"

lemma matchOrigin_grant:
  "origin \<noteq> [] \<Longrightarrow>
   (matchOrigin cred origin as \<noteq> [] \<longleftrightarrow> (\<exists>a\<in>set as. a = ''*'' \<or> equalFold a origin)) \<and>
   (matchOrigin cred origin as \<in> {[], origin} \<or> (matchOrigin cred origin as = ''*'' \<and> \<not> cred))"
  by (induction as) auto

lemma corsDefaults_simps:
  "AllowCredentials (corsDefaults cfg) = AllowCredentials cfg"
  "AllowOrigins (corsDefaults cfg) = (if AllowOrigins cfg = [] then [''*''] else AllowOrigins cfg)"
  by (simp_all add: corsDefaults_def Let_def DefaultCORSConfig_def)

lemma resolveOrigin_grant: "grantOK cfg origin (resolveOrigin (corsDefaults cfg) origin)"
  using matchOrigin_grant [of origin "AllowCredentials cfg" "AllowOrigins (corsDefaults cfg)"]
  by (auto simp: grantOK_def originAllowed_def resolveOrigin_def corsDefaults_simps split: if_splits)

lemma corsOrigin_frame:
  "cxRequest (corsOrigin cfg c) = cxRequest c" "cxWritten (corsOrigin cfg c) = cxWritten c"
  "wSent (rwUnder (cxWriter (corsOrigin cfg c))) = wSent (rwUnder (cxWriter c))"
  by (simp_all add: corsOrigin_def Let_def)

lemma corsOrigin_grant:
  "hGet (cxHeader c) ACAO = [] \<Longrightarrow>
     hGet (cxHeader (corsOrigin cfg c)) ACAO = resolveOrigin cfg (GetHeader ''Origin'' c)"
  by (simp add: corsOrigin_def Let_def hGet_cx_SetHeader cors_keys)

lemma corsPreflight_frame:
  "cxRequest (corsPreflight cfg c) = cxRequest c" "cxWritten (corsPreflight cfg c) = cxWritten c"
  "wSent (rwUnder (cxWriter (corsPreflight cfg c))) = wSent (rwUnder (cxWriter c))"
  "hGet (cxHeader (corsPreflight cfg c)) ACAO = hGet (cxHeader c) ACAO"
  by (simp_all add: corsPreflight_def Let_def hGet_cx_SetHeader cors_keys)

lemma CORS_preflight:
  assumes "atHandler hs s (CORSWithConfig cfg)" "isPreflight (cctx s)"
  shows "outcome (Next hs s) =
    Some (Inr None, cxWriteHeader 204 (corsPreflight (corsDefaults cfg) (corsOrigin (corsDefaults cfg) (cctx s))))"
proof -
  obtain t where "exec (Next hs) (CORSWithConfig cfg) (advance s) = Some (Inr None, t)"
    "cctx t = cxWriteHeader 204 (corsPreflight (corsDefaults cfg) (corsOrigin (corsDefaults cfg) (cctx s)))"
    "IsAborted t"
    using assms(2) by (simp add: CORSWithConfig_def Let_def IsAborted_def)
  then show ?thesis using outcome_aborts [OF assms(1)] by simp
qed

lemma CORS_passes:
  assumes "atHandler hs s (CORSWithConfig cfg)" "\<not> isPreflight (cctx s)"
  shows "outcome (Next hs s) = outcome (Next hs ((advance s)\<lparr>cctx := corsOrigin (corsDefaults cfg) (cctx s)\<rparr>))"
  by (rule outcome_at [OF assms(1)]) (use assms(2) in \<open>simp add: CORSWithConfig_def Let_def exec_returnNext\<close>)

section \<open>Recovering, compressing\<close>

lemma failResponse_written: "v \<noteq> ErrAbortHandler \<Longrightarrow> cxWritten (snd (failResponse s))"
  by (simp add: failResponse_def cxWritten_def rw_Written_def cxWriteHeader_def rw_WriteHeader_def noStatus_def)

lemma cxWrite_fresh:
  assumes "\<not> cxWritten c" "wSent (rwUnder (cxWriter c)) = None" "\<not> rwSuppress (cxWriter c)"
  shows "map_option fst (wSent (rwUnder (cxWriter (snd (cxWrite b c))))) = Some 200" "cxWritten (snd (cxWrite b c))"
proof -
  let ?u = "std_WriteHeader 200 (rwUnder (cxWriter c))"
  have w: "rwStatus (cxWriter c) = noStatus" using assms(1) by (simp add: cxWritten_def rw_Written_def)
  obtain n err u where s: "std_Write b ?u = ((n, err), u)" by (metis prod.exhaust)
  have "wSent u = Some (200, wHeader (rwUnder (cxWriter c)))"
    using arg_cong [OF s, of "\<lambda>r. wSent (snd r)"] assms(2)
    by (simp add: std_Write_sent std_WriteHeader_sent informational_def)
  then show "map_option fst (wSent (rwUnder (cxWriter (snd (cxWrite b c))))) = Some 200" "cxWritten (snd (cxWrite b c))"
    using w s assms(3)
    by (simp_all add: cxWrite_def rw_Write_def rw_WriteHeader_def cxWritten_def rw_Written_def noStatus_def Let_def)
qed

section \<open>Properties\<close>

definition corsSample :: corsConfig where
  "corsSample = DefaultCORSConfig\<lparr>AllowOrigins := [''https://a.example''], AllowCredentials := True\<rparr>"

definition corsRequest :: "string \<Rightarrow> ctx cstate" where
  "corsRequest m =
     \<lparr>cctx = \<lparr>cxWriter = rw_reset freshWriter recycled,
        cxRequest = \<lparr>reqMethod = m, reqPath = ''/'', reqRawPath = [], reqQueryText = [], reqHost = [], reqRemoteAddr = [], reqTLS = False,
          reqQuery = None, reqForm = Inr (\<lambda>k. None),
          reqHeader = hSet ''Origin'' ''https://a.example'' (hSet ''Access-Control-Request-Method'' ''PUT'' (\<lambda>k. None)),
          reqCookies = [], reqContentLength = 0, reqBody = None\<rparr>,
        cxParams = [], cxQueryCache = None, cxStore = (\<lambda>k. None), cxRenderer = None\<rparr>, cindex = - 1\<rparr>"

text \<open>C14. Before anything is written, a cross-origin grant goes to the configured origins only, never as a
  wildcard with credentials (unless the \<^verbatim>\<open>Origin\<close> header is a wildcard itself); a preflight is answered with 204 and that grant, and no handler behind runs; any
  other request goes on with that grant in its response headers.\<close>

theorem cors_policy:
  assumes "atHandler hs s (CORSWithConfig cfg)" "hGet (cxHeader (cctx s)) ACAO = []"
    and "\<not> cxWritten (cctx s)" "wSent (rwUnder (cxWriter (cctx s))) = None"
  shows "\<exists>c. grantOK cfg (GetHeader ''Origin'' (cctx s)) (hGet (cxHeader c) ACAO) \<and>
    (if isPreflight (cctx s)
     then outcome (Next hs s) = Some (Inr None, c) \<and> wSent (rwUnder (cxWriter c)) = Some (204, cxHeader c)
     else outcome (Next hs s) = outcome (Next hs ((advance s)\<lparr>cctx := c\<rparr>)))"
proof -
  let ?cfg = "corsDefaults cfg" and ?c = "cctx s"
  have g: "hGet (cxHeader (corsOrigin ?cfg ?c)) ACAO = resolveOrigin ?cfg (GetHeader ''Origin'' ?c)"
    by (rule corsOrigin_grant [OF assms(2)])
  show ?thesis
  proof (cases "isPreflight ?c")
    case True
    let ?d = "cxWriteHeader 204 (corsPreflight ?cfg (corsOrigin ?cfg ?c))"
    have "wSent (rwUnder (cxWriter ?d)) = Some (204, cxHeader ?d)"
      using cxWriteHeader_sent(1) [of "corsPreflight ?cfg (corsOrigin ?cfg ?c)" 204] assms(3,4)
      by (simp add: corsPreflight_frame corsOrigin_frame)
    then show ?thesis
      using True CORS_preflight [OF assms(1) True] g resolveOrigin_grant [of cfg]
      by (intro exI [of _ ?d]) (simp add: corsPreflight_frame)
  next
    case False
    then show ?thesis
      using CORS_passes [OF assms(1)] g resolveOrigin_grant [of cfg]
      by (intro exI [of _ "corsOrigin ?cfg ?c"]) simp
  qed
qed

theorem cors_policy_witness:
  "\<exists>c. grantOK corsSample ''https://a.example'' (hGet (cxHeader c) ACAO) \<and>
     outcome (Next [CORSWithConfig corsSample, Raise ErrAbortHandler] (corsRequest ''OPTIONS'')) = Some (Inr None, c) \<and>
     wSent (rwUnder (cxWriter c)) = Some (204, cxHeader c)"
proof -
  have k: "canonicalKey ''Origin'' = ''Origin''"
    "canonicalKey ''Access-Control-Request-Method'' = ''Access-Control-Request-Method''" by code_simp+
  then have "isPreflight (cctx (corsRequest ''OPTIONS''))"
    "GetHeader ''Origin'' (cctx (corsRequest ''OPTIONS'')) = ''https://a.example''"
    by (simp_all add: corsRequest_def isPreflight_def cx_Method_def GetHeader_def http_simps)
  then show ?thesis
    using cors_policy [of "[CORSWithConfig corsSample, Raise ErrAbortHandler]" "corsRequest ''OPTIONS''" corsSample]
    by (simp add: atHandler_def corsRequest_def abortIndex_def cxHeader_def cxWritten_def rw_Written_def rw_reset_def
        freshWriter_def recycled_def noStatus_def hGet_def)
qed

text \<open>Behind Basic authentication a handler runs only with credentials the validator
  accepts; any other request ends there, with 401 and a challenge.\<close>

theorem auth_required:
  assumes "BasicAuthWithConfig decode quote cfg = Inr h" "atHandler hs s h" "Validator cfg = Some valid"
  shows "outcome (Next hs s) =
    (if \<exists>user pass. parseBasicAuth decode (GetHeader ''Authorization'' (cctx s)) = Some (user, pass) \<and> valid user pass (cctx s)
     then outcome (Next hs (advance s))
     else Some (Inr (Some (HTTPError 401 ''Unauthorized'' None)),
            cx_SetHeader ''WWW-Authenticate'' (authChallenge quote cfg) (cctx s)))"
proof -
  have h: "h = Effect
      (\<lambda>c. if authAccepts decode valid c then c else cx_SetHeader ''WWW-Authenticate'' (authChallenge quote cfg) c)
      (\<lambda>c. if authAccepts decode valid c then returnNext else Return (Some (NewHTTPError 401 [])))"
    using assms(1,3) by (simp add: BasicAuthWithConfig_def)
  have acc: "authAccepts decode valid (cctx s) \<longleftrightarrow>
      (\<exists>user pass. parseBasicAuth decode (GetHeader ''Authorization'' (cctx s)) = Some (user, pass) \<and> valid user pass (cctx s))"
    by (auto simp: authAccepts_def split: option.splits)
  show ?thesis
  proof (cases "authAccepts decode valid (cctx s)")
    case True
    then have "exec (Next hs) h (advance s) = Next hs (advance s)"
      unfolding h by (simp add: exec_returnNext)
    from outcome_at [OF assms(2) this] True show ?thesis unfolding acc [symmetric] by simp
  next
    case False
    then have "exec (Next hs) h (advance s) =
        Some (Inr (Some (HTTPError 401 ''Unauthorized'' None)),
          (advance s)\<lparr>cctx := cx_SetHeader ''WWW-Authenticate'' (authChallenge quote cfg) (cctx s)\<rparr>)"
      unfolding h by (simp add: StatusText_def statusTable_def)
    from outcome_fails [OF assms(2) this] False show ?thesis unfolding acc [symmetric] by simp
  qed
qed

text \<open>C16. A panic behind \<^verbatim>\<open>Recoverer\<close> ends as a response: it is logged, a response
  that has not started becomes a 500, one that has started is left as it is, and the chain ends
  without an error.  Only \<^verbatim>\<open>http.ErrAbortHandler\<close> goes through.\<close>

theorem recoverer_contains:
  assumes "atHandler hs s (RecovererWithConfig trace stack)" "Next hs (advance s) = Some (Inl v, t)"
  shows "outcome (Next hs s) =
    (if v = ErrAbortHandler then Some (Inl v, cctx t)
     else Some (Inr None,
       (fst (cctx t) @ [''[goxpress] panic recovered: '' @ showPanic v @ [LF]] @ (if trace then [stack] else []),
        if cxWritten (snd (cctx t)) then snd (cctx t) else cxWriteHeader 500 (snd (cctx t)))))"
proof (cases "v = ErrAbortHandler")
  case True
  then have "exec (Next hs) (RecovererWithConfig trace stack) (advance s) = Some (Inl v, t)"
    using assms(2) by (simp add: RecovererWithConfig_def)
  then show ?thesis using Next_at [OF assms(1)] True by (simp add: outcome_def)
next
  case False
  let ?c = "failResponse (logPanic trace stack v (cctx t))"
  have e: "exec (Next hs) (RecovererWithConfig trace stack) (advance s) = Some (Inr None, Abort (t\<lparr>cctx := ?c\<rparr>))"
    using assms(2) False by (simp add: RecovererWithConfig_def)
  have "outcome (Next hs s) = Some (Inr None, ?c)"
    using outcome_aborts [OF assms(1) e] by (simp add: IsAborted_def)
  moreover have "?c = (fst (cctx t) @ [''[goxpress] panic recovered: '' @ showPanic v @ [LF]] @ (if trace then [stack] else []),
      if cxWritten (snd (cctx t)) then snd (cctx t) else cxWriteHeader 500 (snd (cctx t)))"
    by (cases "cctx t") (simp add: failResponse_def logPanic_def writeLog_def Let_def)
  ultimately show ?thesis using False by simp
qed

definition sampleAuth :: basicAuthConfig where
  "sampleAuth = \<lparr>Validator = Some (\<lambda>user pass c. user = pass), Realm = []\<rparr>"

theorem auth_required_witness:
  "\<exists>h. BasicAuthWithConfig Some id sampleAuth = Inr h \<and>
     outcome (Next [h] (corsRequest ''GET'')) =
       Some (Inr (Some (HTTPError 401 ''Unauthorized'' None)),
         cx_SetHeader ''WWW-Authenticate'' ''Basic realm=Restricted'' (cctx (corsRequest ''GET'')))"
proof -
  obtain h where h: "BasicAuthWithConfig Some id sampleAuth = Inr h"
    by (simp add: BasicAuthWithConfig_def sampleAuth_def)
  have "parseBasicAuth Some (GetHeader ''Authorization'' (cctx (corsRequest ''GET''))) = None" by code_simp
  then show ?thesis
    using auth_required [OF h, of "[h]" "corsRequest ''GET''"] h
    by (simp add: atHandler_def corsRequest_def abortIndex_def authChallenge_def sampleAuth_def)
qed

definition panicChain :: "logged hprog list" where
  "panicChain = [RecovererWithConfig True ''stack'', Raise (PValue ''boom'')]"

definition loggedRequest :: "logged cstate" where
  "loggedRequest = \<lparr>cctx = ([], cctx (corsRequest ''GET'')), cindex = - 1\<rparr>"

theorem recoverer_contains_witness:
  "outcome (Next panicChain loggedRequest) =
     Some (Inr None,
       ([''[goxpress] panic recovered: boom'' @ [LF], ''stack''], cxWriteHeader 500 (cctx (corsRequest ''GET''))))"
proof -
  have "Next panicChain (advance loggedRequest) = Some (Inl (PValue ''boom''), advance (advance loggedRequest))"
    using Next_unfold [of panicChain "advance loggedRequest"]
    by (simp add: panicChain_def loggedRequest_def abortIndex_def)
  moreover have "\<not> cxWritten (cctx (corsRequest ''GET''))"
    by (simp add: corsRequest_def cxWritten_def rw_Written_def rw_reset_def)
  ultimately show ?thesis
    using recoverer_contains [of panicChain loggedRequest True "''stack''" "PValue ''boom''" "advance (advance loggedRequest)"]
    by (simp add: atHandler_def panicChain_def loggedRequest_def abortIndex_def)
qed

text \<open>An error that a handler behind \<^verbatim>\<open>Compress\<close> returns without having
  written anything is answered with status 200: closing the compressor writes its trailer, which
  starts the response, and the error handler then leaves it alone.\<close>

theorem compress_hides_errors:
  assumes "atHandler hs s (Compress lib)" "sublist ''gzip'' (GetHeader ''Accept-Encoding'' (snd (cctx s)))"
    and "Next hs ((advance s)\<lparr>cctx := openGzip lib (cctx s)\<rparr>) = Some (Inr (Some err), t)" "cctx t = ([z], c)"
    and "gzClose lib z \<noteq> []" "\<not> cxWritten c" "wSent (rwUnder (cxWriter c)) = None" "\<not> rwSuppress (cxWriter c)"
  shows "\<exists>c'. outcome (Next hs s) = Some (Inr (Some err), ([], c')) \<and>
    (\<forall>std. DefaultErrorHandler std c' err = (None, c')) \<and> map_option fst (wSent (rwUnder (cxWriter c'))) = Some 200"
proof -
  let ?c = "snd (cxWrite (gzClose lib z) c)"
  have "closeGzip lib (cctx t) = ([], ?c)" using assms(4,5) by (simp add: closeGzip_def split: prod.splits)
  then have "exec (Next hs) (Compress lib) (advance s) = Some (Inr (Some err), t\<lparr>cctx := ([], ?c)\<rparr>)"
    using assms(2,3) by (simp add: Compress_def)
  from outcome_fails [OF assms(1) this] have "outcome (Next hs s) = Some (Inr (Some err), ([], ?c))" by simp
  then show ?thesis using cxWrite_fresh [OF assms(6-8), of "gzClose lib z"] by (simp add: DefaultErrorHandler_def)
qed

definition bufferGzip :: "string gzipLib" where
  "bufferGzip = \<lparr>gzNew = [], gzWrite = (\<lambda>z b. ([], z @ b)), gzClose = (\<lambda>z. ''gzip('' @ z @ '')'')\<rparr>"

definition gzipRequest :: "string layered cstate" where
  "gzipRequest =
     \<lparr>cctx = ([], setRequest (\<lambda>r. r\<lparr>reqHeader := hSet ''Accept-Encoding'' ''gzip, br'' (reqHeader r)\<rparr>)
        (cctx (corsRequest ''GET''))), cindex = - 1\<rparr>"

theorem compress_hides_errors_witness:
  "\<exists>c'. outcome (Next [Compress bufferGzip, leaf id (Some (NewHTTPError 404 []))] gzipRequest) =
      Some (Inr (Some (NewHTTPError 404 [])), ([], c')) \<and>
    (\<forall>std. DefaultErrorHandler std c' (NewHTTPError 404 []) = (None, c')) \<and>
    map_option fst (wSent (rwUnder (cxWriter c'))) = Some 200"
proof -
  let ?hs = "[Compress bufferGzip, leaf id (Some (NewHTTPError 404 []))]"
  let ?t = "(advance gzipRequest)\<lparr>cctx := openGzip bufferGzip (cctx gzipRequest)\<rparr>"
  have k: "canonicalKey ''Accept-Encoding'' = ''Accept-Encoding''" by code_simp
  have s: "sublist ''gzip'' (''gzip'' @ '', br'')" unfolding sublist_def by (metis append_Nil)
  have n: "Next ?hs ?t = Some (Inr (Some (NewHTTPError 404 [])), advance ?t)"
    using Next_unfold [of ?hs ?t] by (simp add: gzipRequest_def abortIndex_def leaf_def id_def)
  have c: "cctx (advance ?t) = ([[]], snd (openGzip bufferGzip (cctx gzipRequest)))"
    by (simp add: openGzip_def bufferGzip_def gzipRequest_def)
  show ?thesis
    by (rule compress_hides_errors [OF _ _ n c])
      (use s k in \<open>simp_all add: atHandler_def gzipRequest_def abortIndex_def setRequest_def GetHeader_def http_simps
        bufferGzip_def openGzip_def corsRequest_def cxWritten_def rw_Written_def rw_reset_def freshWriter_def cx_SetHeader_def
        mapHeader_def\<close>)
qed

text \<open>The logger writes its line before the error handler runs: a request whose handler returns an error
  without writing is logged with status 200, whatever status the error handler then sends.\<close>

lemma logger_before_error_handler:
  assumes "atHandler hs s (LoggerWithConfig showTime showLatency start finish)"
    and "Next hs (advance s) = Some (Inr (Some err), t)" "\<not> cxWritten (snd (cctx t))"
  shows "outcome (Next hs s) = Some (Inr (Some err),
    writeLog (logLine (showTime start) 200 (showLatency (timeSub finish start))
      (cx_Method (snd (cctx s))) (cx_Path (snd (cctx s)))) (cctx t))"
proof -
  have st: "rwStatus (cxWriter (snd (cctx t))) = 0"
    using assms(3) by (simp add: cxWritten_def rw_Written_def noStatus_def)
  have "exec (Next hs) (LoggerWithConfig showTime showLatency start finish) (advance s) = Some (Inr (Some err),
      t\<lparr>cctx := writeLog (logLine (showTime start) 200 (showLatency (timeSub finish start))
        (cx_Method (snd (cctx s))) (cx_Path (snd (cctx s)))) (cctx t)\<rparr>)"
    using assms(2) st by (simp add: LoggerWithConfig_def rw_Status_def Let_def)
  from outcome_fails [OF assms(1) this] show ?thesis by simp
qed

text \<open>No more of a limited body is read than the limit.\<close>

lemma body_limited: "length (fst (readAll gunzip (BodyMax n r))) \<le> nat n"
  by (cases "readAll gunzip r") auto

end
