(* ===== verification/Float64.thy ===== *)
theory Float64
  imports Complex_Main "HOL-Library.Log_Nat" "HOL-Library.Signed_Division"
begin

text \<open>
  Go's \<^verbatim>\<open>float64\<close>, as far as the rate limiter computes with it.  A finite value is the rational it
  stands for; every operation rounds its exact result to the nearest binary64 number, ties to even
  (\<open>rnd\<close>), with 53 significant bits and the smallest exponent of the format.  Overflow to an infinity
  and NaN are left out: no computation of the limiter gets near \<open>2 ^ 1024\<close> from a finite rate.

  Shown here: rounding is monotone and idempotent, keeps integers up to \<open>2 ^ 53\<close>, and is off by at most
  one part in \<open>2 ^ 53\<close>.
\<close>

section \<open>Powers of two\<close>

definition pow2 :: "int \<Rightarrow> rat" where
  "pow2 e = (if 0 \<le> e then 2 ^ nat e else 1 / 2 ^ nat (- e))"

lemma pow2_pos [simp]: "0 < pow2 e"
  by (simp add: pow2_def)

lemma pow2_nonneg [simp]: "0 \<le> pow2 e"
  by (rule less_imp_le [OF pow2_pos])

lemma pow2_nonzero [simp]: "pow2 e \<noteq> 0"
  using pow2_pos less_irrefl by metis

lemma pow2_nat [simp]: "0 \<le> e \<Longrightarrow> pow2 e = of_int (2 ^ nat e)"
  by (simp add: pow2_def)

lemma pow2_Suc: "pow2 (e + 1) = 2 * pow2 e"
proof -
  consider "0 \<le> e" | "e = - 1" | "e < - 1" by linarith
  then show ?thesis
  proof cases
    case 1
    then have "nat (e + 1) = Suc (nat e)" by simp
    then show ?thesis using 1 by (simp add: pow2_def)
  next
    case 3
    then have "nat (- e) = Suc (nat (- (e + 1)))" by simp
    then show ?thesis using 3 by (simp add: pow2_def)
  qed (simp add: pow2_def)
qed

lemma pow2_add_nat: "pow2 (e + int n) = pow2 e * 2 ^ n"
proof (induction n)
  case (Suc n)
  then show ?case using pow2_Suc [of "e + int n"] by (simp add: algebra_simps)
qed simp

lemma pow2_le: "e \<le> e' \<Longrightarrow> pow2 e \<le> pow2 e'"
  using pow2_add_nat [of e "nat (e' - e)"] by simp

lemma pow2_less: "pow2 e < pow2 e' \<Longrightarrow> e < e'"
  using pow2_le [of e' e] by linarith

section \<open>The exponent of a positive number\<close>

definition ilog2 :: "rat \<Rightarrow> int" where
  "ilog2 x =
     (case quotient_of x of
        (n, d) \<Rightarrow> let k = bitlen n - bitlen d in if pow2 k \<le> x then k else k - 1)"

lemma bitlen_pow2:
  assumes "0 < n"
  shows "pow2 (bitlen n - 1) \<le> of_int n" and "of_int n < pow2 (bitlen n)"
proof -
  have l: "2 ^ nat (bitlen n - 1) \<le> n \<and> n < 2 ^ nat (bitlen n)" using bitlen_bounds [OF assms] .
  then have b: "0 < bitlen n" using assms by (cases "bitlen n \<le> 0") simp_all
  from l have "(of_int (2 ^ nat (bitlen n - 1)) :: rat) \<le> of_int n" "(of_int n :: rat) < of_int (2 ^ nat (bitlen n))"
    using of_int_le_iff of_int_less_iff by blast+
  then show "pow2 (bitlen n - 1) \<le> of_int n" "of_int n < pow2 (bitlen n)" using b by simp_all
qed

lemma ilog2_bounds:
  assumes "0 < x"
  shows "pow2 (ilog2 x) \<le> x" and "x < pow2 (ilog2 x + 1)"
proof -
  obtain n d where q: "quotient_of x = (n, d)" by force
  have d: "0 < d" using quotient_of_denom_pos [OF q] .
  have x: "x = of_int n / of_int d" using quotient_of_div [OF q] .
  then have n: "0 < n" using assms d by (simp add: zero_less_divide_iff)
  let ?k = "bitlen n - bitlen d"
  have up: "x < pow2 (?k + 1)"
  proof -
    have "pow2 (bitlen n) = pow2 (bitlen d - 1) * pow2 (?k + 1)"
      using pow2_add_nat [of "bitlen d - 1" "nat (?k + 1)"] pow2_add_nat [of "bitlen n" "nat (- (?k + 1))"]
      by (cases "0 \<le> ?k + 1") (simp_all add: pow2_def field_simps)
    also have "\<dots> \<le> of_int d * pow2 (?k + 1)" using bitlen_pow2(1) [OF d] by simp
    finally show ?thesis using bitlen_pow2(2) [OF n] d by (simp add: x field_simps)
  qed
  have lo: "pow2 (?k - 1) \<le> x"
  proof -
    have "of_int d * pow2 (?k - 1) \<le> pow2 (bitlen d) * pow2 (?k - 1)" using bitlen_pow2(2) [OF d] by simp
    also have "\<dots> = pow2 (bitlen n - 1)"
      using pow2_add_nat [of "bitlen d" "nat (?k - 1)"] pow2_add_nat [of "bitlen n - 1" "nat (- (?k - 1))"]
      by (cases "0 \<le> ?k - 1") (simp_all add: pow2_def field_simps)
    finally show ?thesis using bitlen_pow2(1) [OF n] d by (simp add: x field_simps)
  qed
  show "pow2 (ilog2 x) \<le> x" "x < pow2 (ilog2 x + 1)" using up lo by (simp_all add: ilog2_def q Let_def)
qed

lemma ilog2_mono: "0 < x \<Longrightarrow> x \<le> y \<Longrightarrow> ilog2 x \<le> ilog2 y"
  using pow2_less [of "ilog2 x" "ilog2 y + 1"] ilog2_bounds [of x] ilog2_bounds [of y] by simp

lemma ilog2_less: "0 < x \<Longrightarrow> x < pow2 e \<Longrightarrow> ilog2 x < e"
  using pow2_less [of "ilog2 x" e] ilog2_bounds [of x] by simp

section \<open>Rounding\<close>

definition roundEven :: "rat \<Rightarrow> int" where
  "roundEven x =
     (let f = \<lfloor>x\<rfloor>; r = x - of_int f
      in if r < 1 / 2 then f else if 1 / 2 < r then f + 1 else if even f then f else f + 1)"

definition ulpExp :: "rat \<Rightarrow> int" where
  "ulpExp x = max (ilog2 \<bar>x\<bar> - 52) (- 1074)"

definition rnd :: "rat \<Rightarrow> rat" where
  "rnd x = (if x = 0 then 0 else of_int (roundEven (x / pow2 (ulpExp x))) * pow2 (ulpExp x))"

lemma roundEven_of_int [simp]: "roundEven (of_int i) = i"
  by (simp add: roundEven_def)

lemma roundEven_close: "\<bar>of_int (roundEven x) - x\<bar> \<le> 1 / 2"
  using of_int_floor_le [of x] floor_correct [of x] by (auto simp: roundEven_def Let_def abs_le_iff)

lemma roundEven_mono:
  assumes "x \<le> y"
  shows "roundEven x \<le> roundEven y"
proof (cases "\<lfloor>x\<rfloor> = \<lfloor>y\<rfloor>")
  case True
  then show ?thesis using assms by (auto simp: roundEven_def Let_def)
next
  case False
  then have "\<lfloor>x\<rfloor> + 1 \<le> \<lfloor>y\<rfloor>" using floor_mono [OF assms] by simp
  moreover have "roundEven x \<le> \<lfloor>x\<rfloor> + 1" "\<lfloor>y\<rfloor> \<le> roundEven y" by (auto simp: roundEven_def Let_def)
  ultimately show ?thesis by linarith
qed

lemma rnd_0 [simp]: "rnd 0 = 0"
  by (simp add: rnd_def)

lemma rnd_pos: "0 < x \<Longrightarrow> rnd x = of_int (roundEven (x / pow2 (ulpExp x))) * pow2 (ulpExp x)"
  by (simp add: rnd_def)

lemma ulp_scale:
  assumes "0 < x"
  shows "x / pow2 (ulpExp x) < 2 ^ 53"
proof -
  have "x < pow2 (ilog2 x + 1)" using ilog2_bounds [OF assms] by simp
  also have "\<dots> \<le> pow2 (ulpExp x + int 53)" using assms by (intro pow2_le) (simp add: ulpExp_def)
  finally show ?thesis unfolding pow2_add_nat by (simp add: field_simps)
qed

lemma rnd_mono:
  assumes "0 \<le> x" "x \<le> y"
  shows "rnd x \<le> rnd y"
proof (cases "x = 0")
  case True
  have "roundEven 0 \<le> roundEven (y / pow2 (ulpExp y))" using assms True by (intro roundEven_mono) simp
  then show ?thesis using True roundEven_of_int [of 0] by (simp add: rnd_def)
next
  case False
  then have pos: "0 < x" "0 < y" using assms by simp_all
  let ?e = "ulpExp x" and ?f = "ulpExp y"
  have le: "?e \<le> ?f" using ilog2_mono [OF pos(1) assms(2)] pos by (simp add: ulpExp_def)
  show ?thesis
  proof (cases "?e = ?f")
    case True
    have "roundEven (x / pow2 ?f) \<le> roundEven (y / pow2 ?f)"
      using assms by (intro roundEven_mono divide_right_mono) (simp_all add: less_imp_le)
    then show ?thesis using pos True by (simp add: rnd_def)
  next
    case False
    have "x / pow2 ?e \<le> of_int (2 ^ 53)" using ulp_scale [OF pos(1)] by simp
    from roundEven_mono [OF this] have "rnd x \<le> of_int (2 ^ 53) * pow2 ?e"
      unfolding rnd_pos [OF pos(1)] roundEven_of_int
      by (intro mult_right_mono) (simp_all only: of_int_le_iff pow2_nonneg)
    also have "\<dots> = pow2 (?e + int 53)" unfolding pow2_add_nat by simp
    also have "\<dots> \<le> pow2 (?f + int 52)" using le False by (intro pow2_le) simp
    also have "\<dots> = of_int (2 ^ 52) * pow2 ?f" unfolding pow2_add_nat by simp
    also have "\<dots> \<le> rnd y"
    proof -
      have "?f = ilog2 y - 52" using le False pos by (auto simp: ulpExp_def max_def split: if_splits)
      then have "pow2 (?f + int 52) \<le> y" using ilog2_bounds(1) [OF pos(2)] by simp
      then have "of_int (2 ^ 52) \<le> y / pow2 ?f" unfolding pow2_add_nat by (simp add: field_simps)
      from roundEven_mono [OF this] show ?thesis
        unfolding rnd_pos [OF pos(2)] roundEven_of_int
        by (intro mult_right_mono) (simp_all only: of_int_le_iff pow2_nonneg)
    qed
    finally show ?thesis .
  qed
qed

lemma rnd_nonneg [simp]: "0 \<le> x \<Longrightarrow> 0 \<le> rnd x"
  using rnd_mono [of 0 x] by simp

text \<open>A multiple of a power of two at least the last place of a number is representable.\<close>

lemma rnd_multiple:
  assumes "0 < x" "x = of_int m * pow2 e" "ulpExp x \<le> e"
  shows "rnd x = x"
proof -
  obtain u where u: "ulpExp x = u" by simp
  have "pow2 e = pow2 u * 2 ^ nat (e - u)"
    using pow2_add_nat [of u "nat (e - u)"] assms(3) u by simp
  then have x: "x = of_int (m * 2 ^ nat (e - u)) * pow2 u" using assms(2) by simp
  then have "roundEven (x / pow2 u) = m * 2 ^ nat (e - u)" by (simp only: roundEven_of_int nonzero_mult_div_cancel_right [OF pow2_nonzero])
  then show ?thesis using x rnd_pos [OF assms(1)] u by simp
qed

lemma rnd_of_int:
  assumes "0 \<le> i" "i \<le> 2 ^ 53"
  shows "rnd (of_int i) = of_int i"
proof -
  consider "i = 0" | "i = 2 ^ 53" | "0 < i" "i < 2 ^ 53" using assms by linarith
  then show ?thesis
  proof cases
    case 2
    have "ilog2 (of_int i) < 54" by (rule ilog2_less) (simp_all add: 2 pow2_def)
    then show ?thesis by (intro rnd_multiple [of _ "2 ^ 51" 2]) (simp_all add: 2 ulpExp_def pow2_def)
  next
    case 3
    have "(of_int i :: rat) < of_int (2 ^ 53)" using 3(2) by (simp only: of_int_less_iff)
    then have "ilog2 (of_int i) < 53" using 3 by (intro ilog2_less) (simp_all add: pow2_def)
    then show ?thesis using 3 by (intro rnd_multiple [of _ i 0]) (simp_all add: ulpExp_def pow2_def)
  qed simp
qed

text \<open>The error of rounding.\<close>

lemma rnd_error:
  assumes "0 < x" "x \<le> y" "pow2 (- 1022) \<le> y"
  shows "rnd x \<le> x + y / 2 ^ 53"
proof -
  have y: "0 < y" using assms(1,2) by simp
  have "- 1022 \<le> ilog2 y"
    using pow2_less [of "- 1022" "ilog2 y + 1"] ilog2_bounds(2) [OF y] assms(3) by linarith
  then have "ulpExp x \<le> ilog2 y - 52"
    using ilog2_mono [OF assms(1,2)] assms(1) by (simp add: ulpExp_def)
  then have "pow2 (ulpExp x) \<le> pow2 (ilog2 y - 52)" by (rule pow2_le)
  moreover have "pow2 (ilog2 y) = pow2 (ilog2 y - 52) * 2 ^ 52"
    using pow2_add_nat [of "ilog2 y - 52" 52] by simp
  ultimately have q: "pow2 (ulpExp x) \<le> y / 2 ^ 52" using ilog2_bounds(1) [OF y] by (simp add: field_simps)
  let ?q = "pow2 (ulpExp x)"
  have "of_int (roundEven (x / ?q)) \<le> x / ?q + 1 / 2" using roundEven_close [of "x / ?q"] by linarith
  then have "of_int (roundEven (x / ?q)) * ?q \<le> (x / ?q + 1 / 2) * ?q"
    by (rule mult_right_mono) simp
  then have "rnd x \<le> x + ?q / 2" unfolding rnd_pos [OF assms(1)] by (simp add: distrib_right)
  then show ?thesis using q by simp
qed

lemma pow2_small: "pow2 (- 1022) \<le> pow2 (- 40)"
  by (rule pow2_le) simp

corollary rnd_relative: "pow2 (- 40) \<le> x \<Longrightarrow> rnd x \<le> x * (1 + 1 / 2 ^ 53)"
  using rnd_error [of x x] pow2_small pow2_pos [of "- 40"] by (simp add: distrib_left)

corollary rnd_absolute: "0 \<le> x \<Longrightarrow> x \<le> y \<Longrightarrow> 1 \<le> y \<Longrightarrow> rnd x \<le> x + y / 2 ^ 53"
  using rnd_error [of x y] pow2_le [of "- 1022" 0] by (cases "x = 0") (simp_all add: pow2_def)

end
