(* ===== verification/RateLimit.thy ===== *)
theory RateLimit
  imports Middleware Float64
begin

text \<open>
  Rate limiting (\<^verbatim>\<open>middleware/ratelimit.go\<close>): one token bucket per key, refilled with the time that
  passed, and a sweep that forgets idle keys.

  Token counts are \<open>float64\<close> values (\<open>Float64\<close>), times and durations are nanoseconds as integers, and
  the clock is an argument.  The conversion of a float outside of the range of a 64-bit integer is
  implementation-defined in Go: its result is the argument \<open>oor\<close>.  The mutex makes \<^verbatim>\<open>allow\<close> atomic
  (\<open>Locks\<close>), so the limiter is a state that \<^verbatim>\<open>allow\<close> takes and returns.

  The abstraction is a bucket that is never forgotten (\<open>bucketRun\<close>): for each key the limiter decides
  as such a bucket does, and a bucket lets through what it held plus what it earned.
\<close>

section \<open>Durations\<close>

definition second :: int where "second = 1000000000"

text \<open>\<^verbatim>\<open>Duration.Seconds\<close> adds the whole seconds and the rest.\<close>

definition durSeconds :: "int \<Rightarrow> rat" where
  "durSeconds d = rnd (rnd (of_int (d sdiv second)) + rnd (rnd (of_int (d smod second)) / 1000000000))"

definition truncToInt64 :: "int \<Rightarrow> rat \<Rightarrow> int" where
  "truncToInt64 oor x =
     (let i = (if x < 0 then \<lceil>x\<rceil> else \<lfloor>x\<rfloor>) in if minInt64 \<le> i \<and> i \<le> maxInt64 then i else oor)"

section \<open>The limiter\<close>

definition sweepInterval :: int where
  "sweepInterval = 10 * 60 * second"

record tokenBucket =
  tkTokens :: rat
  tkLast :: int

record rateLimiter =
  lmBuckets :: "string \<Rightarrow> tokenBucket option"
  lmRate :: rat
  lmBurst :: rat
  lmLastSweep :: int

definition sweep :: "int \<Rightarrow> rateLimiter \<Rightarrow> rateLimiter" where
  "sweep now l =
     l\<lparr>lmBuckets := (\<lambda>k. case lmBuckets l k of
                           None \<Rightarrow> None
                         | Some b \<Rightarrow> if sweepInterval \<le> timeSub now (tkLast b) then None else Some b)\<rparr>"

definition refill :: "rat \<Rightarrow> rat \<Rightarrow> int \<Rightarrow> tokenBucket \<Rightarrow> rat" where
  "refill rate burst now b =
     min burst (rnd (tkTokens b + rnd (durSeconds (timeSub now (tkLast b)) * rate)))"

definition allow :: "int \<Rightarrow> string \<Rightarrow> int \<Rightarrow> rateLimiter \<Rightarrow> (bool \<times> int) \<times> rateLimiter" where
  "allow oor key now l =
     (let l1 = (if sweepInterval \<le> timeSub now (lmLastSweep l)
                then (sweep now l)\<lparr>lmLastSweep := now\<rparr> else l);
          b = (case lmBuckets l1 key of
                 None \<Rightarrow> \<lparr>tkTokens = lmBurst l1, tkLast = now\<rparr>
               | Some b \<Rightarrow> b\<lparr>tkTokens := refill (lmRate l1) (lmBurst l1) now b, tkLast := now\<rparr>)
      in if tkTokens b < 1
         then ((False, truncToInt64 oor (rnd (rnd (rnd (1 - tkTokens b) / lmRate l1) * rnd (of_int second)))),
               l1\<lparr>lmBuckets := (lmBuckets l1)(key \<mapsto> b)\<rparr>)
         else ((True, 0),
               l1\<lparr>lmBuckets := (lmBuckets l1)(key \<mapsto> b\<lparr>tkTokens := rnd (tkTokens b - 1)\<rparr>)\<rparr>))"

section \<open>The middleware\<close>

definition ipKey :: "ctx \<Rightarrow> string" where
  "ipKey c =
     (case splitHost (reqRemoteAddr (cxRequest c)) of
        None \<Rightarrow> reqRemoteAddr (cxRequest c)
      | Some host \<Rightarrow> host)"

record rateLimitConfig =
  cfRate :: rat
  cfBurst :: int
  cfKeyFunc :: "(ctx \<Rightarrow> string) option"

text \<open>The handler runs on the context and the limiter it closes over.\<close>

definition rateLimitHandler :: "int \<Rightarrow> (ctx \<Rightarrow> string) \<Rightarrow> int \<Rightarrow> (rateLimiter \<times> ctx) hprog" where
  "rateLimitHandler oor key now =
     Effect
       (\<lambda>(l, c). case allow oor (key c) now l of
                   ((allowed, retry), l') \<Rightarrow>
                     (l', if allowed then c
                          else cx_SetHeader ''Retry-After'' (itoa \<lceil>durSeconds retry\<rceil>) c))
       (\<lambda>(l, c). if fst (fst (allow oor (key c) now l)) then returnNext
                 else Return (Some (NewHTTPError 429 [])))"

text \<open>\<^verbatim>\<open>RateLimitWithConfig\<close> gives the limiter and the key function; \<open>rateLimitHandler\<close> is the handler it
  returns.\<close>

definition RateLimitWithConfig :: "rateLimitConfig \<Rightarrow> int \<Rightarrow> gopanic + rateLimiter \<times> (ctx \<Rightarrow> string)" where
  "RateLimitWithConfig cfg now =
     (if cfRate cfg \<le> 0 then Inl (PanicMsg ''goxpress/middleware: RateLimit requires a positive Rate'')
      else
        let burst0 = rnd (of_int (cfBurst cfg));
            burst = (if burst0 < 1 then max 1 (of_int \<lceil>cfRate cfg\<rceil>) else burst0);
            key = (case cfKeyFunc cfg of None \<Rightarrow> ipKey | Some f \<Rightarrow> f)
        in Inr (\<lparr>lmBuckets = (\<lambda>k. None), lmRate = cfRate cfg, lmBurst = burst, lmLastSweep = now\<rparr>, key))"

definition RateLimit :: "rat \<Rightarrow> int \<Rightarrow> gopanic + rateLimiter \<times> (ctx \<Rightarrow> string)" where
  "RateLimit rate = RateLimitWithConfig \<lparr>cfRate = rate, cfBurst = 0, cfKeyFunc = None\<rparr>"

text \<open>The decisions on a sequence of requests.\<close>

fun limiterRun :: "int \<Rightarrow> rateLimiter \<Rightarrow> (string \<times> int) list \<Rightarrow> (string \<times> bool) list" where
  "limiterRun oor l [] = []"
| "limiterRun oor l ((key, now) # reqs) =
     (case allow oor key now l of ((ok, retry), l') \<Rightarrow> (key, ok) # limiterRun oor l' reqs)"

section \<open>A bucket that is never forgotten\<close>

definition bucketStep :: "rat \<Rightarrow> rat \<Rightarrow> int \<Rightarrow> tokenBucket option \<Rightarrow> bool \<times> tokenBucket" where
  "bucketStep rate burst now ob =
     (let t = (case ob of None \<Rightarrow> burst | Some b \<Rightarrow> refill rate burst now b)
      in (1 \<le> t, \<lparr>tkTokens = (if 1 \<le> t then rnd (t - 1) else t), tkLast = now\<rparr>))"

fun bucketRun :: "rat \<Rightarrow> rat \<Rightarrow> tokenBucket option \<Rightarrow> int list \<Rightarrow> bool list" where
  "bucketRun rate burst ob [] = []"
| "bucketRun rate burst ob (now # ts) =
     (case bucketStep rate burst now ob of (ok, b) \<Rightarrow> ok # bucketRun rate burst (Some b) ts)"

definition ofKey :: "string \<Rightarrow> (string \<times> 'a) list \<Rightarrow> 'a list" where
  "ofKey k ps = map snd (filter (\<lambda>p. fst p = k) ps)"

lemma ofKey_simps [simp]:
  "ofKey k [] = []" "ofKey k ((k', x) # ps) = (if k' = k then x # ofKey k ps else ofKey k ps)"
  "ofKey k (ps @ qs) = ofKey k ps @ ofKey k qs"
  by (simp_all add: ofKey_def)

section \<open>Durations as floats\<close>

lemma timeSub_ge: "sweepInterval \<le> timeSub t u \<longleftrightarrow> sweepInterval \<le> t - u"
  by (auto simp: timeSub_def sweepInterval_def second_def maxInt64_def minInt64_def)

lemma timeSub_nonneg: "u \<le> t \<Longrightarrow> 0 \<le> timeSub t u \<and> timeSub t u \<le> maxInt64 \<and> timeSub t u \<le> t - u"
  by (auto simp: timeSub_def maxInt64_def minInt64_def)

lemma durSeconds_parts:
  assumes "0 \<le> d" "d \<le> maxInt64"
  shows "durSeconds d = rnd (of_int (d div second) + rnd (of_int (d mod second) / 1000000000))"
proof -
  have "d sdiv second = d div second" "d smod second = d mod second"
    using assms by (auto simp: second_def signed_divide_int_def signed_modulo_int_def sgn_if)
  moreover have "rnd (of_int (d div second)) = of_int (d div second)"
    using assms by (intro rnd_of_int) (simp_all add: second_def maxInt64_def)
  moreover have "rnd (of_int (d mod second)) = of_int (d mod second)"
    by (intro rnd_of_int) (simp_all add: second_def order.trans [OF less_imp_le [OF pos_mod_bound]])
  ultimately show ?thesis by (simp add: durSeconds_def)
qed

lemma durSeconds_nonneg: "0 \<le> d \<Longrightarrow> d \<le> maxInt64 \<Longrightarrow> 0 \<le> durSeconds d"
  by (simp add: durSeconds_parts second_def)

lemma durSeconds_whole:
  assumes "n * second \<le> d" "0 \<le> n" "d \<le> maxInt64"
  shows "of_int n \<le> durSeconds d"
proof -
  have n: "n \<le> d div second" using zdiv_mono1 [OF assms(1), of second] by (simp add: second_def)
  then have "(of_int n :: rat) \<le> of_int (d div second)" by (simp only: of_int_le_iff)
  moreover have "0 \<le> rnd (of_int (d mod second) / 1000000000 :: rat)" by (simp add: second_def)
  ultimately have "rnd (of_int n) \<le> rnd (of_int (d div second) + rnd (of_int (d mod second) / 1000000000))"
    using assms(2) by (intro rnd_mono) simp_all
  moreover have "rnd (of_int n) = of_int n"
    using n assms(2,3) by (intro rnd_of_int) (simp_all add: second_def maxInt64_def)
  moreover have "0 \<le> d" using assms(1,2) mult_nonneg_nonneg [of n second] by (simp add: second_def)
  ultimately show ?thesis using durSeconds_parts assms(3) by simp
qed

lemma durSeconds_idle: "sweepInterval \<le> d \<Longrightarrow> d \<le> maxInt64 \<Longrightarrow> 600 \<le> durSeconds d"
  using durSeconds_whole [of 600 d] by (simp add: sweepInterval_def)

abbreviation seconds :: "int \<Rightarrow> rat" where
  "seconds d \<equiv> of_int d / 1000000000"

abbreviation ulp :: rat where
  "ulp \<equiv> 1 / 2 ^ 53"

lemma durSeconds_error:
  assumes "0 \<le> d" "d \<le> maxInt64"
  shows "durSeconds d \<le> seconds d * (1 + ulp) ^ 2"
proof (cases "d = 0")
  case False
  let ?s = "of_int (d div second) :: rat" and ?r = "of_int (d mod second) / 1000000000 :: rat"
  have small: "pow2 (- 40) \<le> 1 / 1000000000" by (simp add: pow2_def)
  have r: "rnd ?r \<le> ?r * (1 + ulp)"
  proof (cases "d mod second = 0")
    case False
    then have "(1 :: rat) \<le> of_int (d mod second)"
      using pos_mod_sign [of second d] by (simp add: second_def)
    then show ?thesis using small by (intro rnd_relative) simp
  qed simp
  have d: "?s + ?r = seconds d"
  proof -
    have "d = d div second * 1000000000 + d mod second" by (simp add: second_def)
    then have "(of_int d :: rat) = ?s * 1000000000 + of_int (d mod second)"
      by (metis of_int_add of_int_mult of_int_numeral)
    then show ?thesis by (simp add: field_simps)
  qed
  have "0 \<le> ?s" using assms(1) by (simp add: second_def)
  then have "?s + rnd ?r \<le> (?s + ?r) * (1 + ulp)" using r by (simp add: distrib_right distrib_left)
  then have up: "?s + rnd ?r \<le> seconds d * (1 + ulp)" using d by simp
  have "(1 :: rat) \<le> of_int d" using False assms(1) by simp
  then have "pow2 (- 40) \<le> seconds d * (1 + ulp)" using small by (simp add: distrib_left)
  then have "rnd (seconds d * (1 + ulp)) \<le> seconds d * (1 + ulp) * (1 + ulp)" by (rule rnd_relative)
  moreover have "durSeconds d \<le> rnd (seconds d * (1 + ulp))"
    unfolding durSeconds_parts [OF assms]
    by (rule rnd_mono [OF _ up]) (use \<open>0 \<le> ?s\<close> in \<open>simp add: second_def\<close>)
  ultimately show ?thesis by (simp add: power2_eq_square)
qed (simp add: durSeconds_parts maxInt64_def second_def)

section \<open>Refilling\<close>

definition soundBurst :: "rat \<Rightarrow> bool" where
  "soundBurst burst \<longleftrightarrow> 1 \<le> burst \<and> rnd burst = burst"

definition validBucket :: "rat \<Rightarrow> int \<Rightarrow> tokenBucket option \<Rightarrow> bool" where
  "validBucket burst now ob \<longleftrightarrow>
     (case ob of None \<Rightarrow> True | Some b \<Rightarrow> 0 \<le> tkTokens b \<and> tkTokens b \<le> burst \<and> tkLast b \<le> now)"

lemma validBucket_simps [simp]:
  "validBucket burst now None"
  "validBucket burst now (Some b) \<longleftrightarrow> 0 \<le> tkTokens b \<and> tkTokens b \<le> burst \<and> tkLast b \<le> now"
  by (simp_all add: validBucket_def)

lemma validBucket_later: "validBucket burst now ob \<Longrightarrow> now \<le> now' \<Longrightarrow> validBucket burst now' ob"
  by (cases ob) simp_all

lemma refill_range:
  assumes "0 < rate" "0 \<le> burst" "0 \<le> tkTokens b" "tkLast b \<le> now"
  shows "0 \<le> refill rate burst now b" "refill rate burst now b \<le> burst"
  using assms timeSub_nonneg [OF assms(4)] durSeconds_nonneg by (simp_all add: refill_def)

lemma refill_idle:
  assumes "0 < rate" "soundBurst burst" "burst \<le> 600 * rate"
    and "0 \<le> tkTokens b" "sweepInterval \<le> now - tkLast b"
  shows "refill rate burst now b = burst"
proof -
  have le: "tkLast b \<le> now" using assms(5) by (simp add: sweepInterval_def second_def)
  let ?d = "timeSub now (tkLast b)"
  have "600 \<le> durSeconds ?d"
    using durSeconds_idle [of ?d] timeSub_ge assms(5) timeSub_nonneg [OF le] by blast
  then have "600 * rate \<le> durSeconds ?d * rate" using assms(1) by simp
  then have "burst \<le> durSeconds ?d * rate" using assms(3) by linarith
  then have "rnd burst \<le> rnd (durSeconds ?d * rate)"
    using assms(2) by (intro rnd_mono) (simp_all add: soundBurst_def)
  then have "rnd burst \<le> rnd (tkTokens b + rnd (durSeconds ?d * rate))"
    using assms(2,4) by (intro rnd_mono) (simp_all add: soundBurst_def)
  then show ?thesis using assms(2) by (simp add: refill_def soundBurst_def)
qed


lemma refill_gain:
  assumes "0 < rate" "1 \<le> burst" "0 \<le> tkTokens b" "tkTokens b \<le> burst" "tkLast b \<le> now"
  shows "refill rate burst now b \<le> tkTokens b + rate * seconds (now - tkLast b) + 9 * burst * ulp"
proof (cases "rate * seconds (now - tkLast b) \<le> burst")
  case False
  have "0 \<le> 9 * burst * ulp" using assms(2) by simp
  then show ?thesis using False refill_range(2) [OF assms(1) _ assms(3,5), of burst] assms(2,3) by linarith
next
  case True
  let ?d = "timeSub now (tkLast b)" and ?s = "rate * seconds (now - tkLast b)"
  have d: "0 \<le> ?d" "?d \<le> maxInt64" "?d \<le> now - tkLast b" using timeSub_nonneg [OF assms(5)] by auto
  have "(of_int ?d :: rat) \<le> of_int (now - tkLast b)" using d(3) by (simp only: of_int_le_iff)
  then have "seconds ?d * (1 + ulp) ^ 2 \<le> seconds (now - tkLast b) * (1 + ulp) ^ 2"
    by (intro mult_right_mono divide_right_mono) simp_all
  then have "durSeconds ?d \<le> seconds (now - tkLast b) * (1 + ulp) ^ 2"
    using durSeconds_error [OF d(1,2)] by linarith
  then have "durSeconds ?d * rate \<le> seconds (now - tkLast b) * (1 + ulp) ^ 2 * rate"
    using assms(1) by (intro mult_right_mono) simp_all
  also have "\<dots> = ?s * (1 + ulp) ^ 2" by simp
  also have "\<dots> \<le> ?s * (1 + 3 * ulp)"
    by (intro mult_left_mono) (use assms(1,5) in \<open>simp_all add: power2_eq_square\<close>)
  also have "\<dots> = ?s + ?s * (3 * ulp)" by (simp only: distrib_left mult_1_right)
  also have "\<dots> \<le> ?s + burst * (3 * ulp)" using True by (intro add_left_mono mult_right_mono) simp_all
  finally have g: "durSeconds ?d * rate \<le> ?s + burst * (3 * ulp)" .
  have "burst * (3 * ulp) \<le> burst * 1" using assms(2) by (intro mult_left_mono) simp_all
  then have g2: "durSeconds ?d * rate \<le> 2 * burst" using g True by linarith
  have g0: "0 \<le> durSeconds ?d * rate" using durSeconds_nonneg [OF d(1,2)] assms(1) by simp
  have r: "rnd (durSeconds ?d * rate) \<le> durSeconds ?d * rate + 2 * burst / 2 ^ 53"
    by (rule rnd_absolute [OF g0 g2]) (use assms(2) in simp)
  then have g3: "tkTokens b + rnd (durSeconds ?d * rate) \<le> 4 * burst"
    using g2 assms(2,4) by simp
  have "rnd (tkTokens b + rnd (durSeconds ?d * rate)) \<le> tkTokens b + rnd (durSeconds ?d * rate) + 4 * burst / 2 ^ 53"
    by (rule rnd_absolute [OF _ g3]) (use assms(2,3) g0 in simp_all)
  then show ?thesis using r g by (simp add: refill_def min_le_iff_disj)
qed

section \<open>The limiter is a bucket per key\<close>

definition forgets :: "int \<Rightarrow> tokenBucket option \<Rightarrow> tokenBucket option \<Rightarrow> bool" where
  "forgets now ob ib \<longleftrightarrow> ob = ib \<or> (ob = None \<and> (\<exists>b. ib = Some b \<and> sweepInterval \<le> now - tkLast b))"

lemma forgets_later: "forgets now ob ib \<Longrightarrow> now \<le> now' \<Longrightarrow> forgets now' ob ib"
  by (force simp: forgets_def)

lemma forgets_sweep: "forgets now (lmBuckets l k) ib \<Longrightarrow> forgets now (lmBuckets (sweep now l) k) ib"
  by (auto simp: forgets_def sweep_def timeSub_ge split: option.splits)

lemma bucketStep_forgets:
  assumes "0 < rate" "soundBurst burst" "burst \<le> 600 * rate" "forgets now ob ib" "validBucket burst now ib"
  shows "bucketStep rate burst now ob = bucketStep rate burst now ib"
  using assms refill_idle [OF assms(1-3)] by (auto simp: forgets_def bucketStep_def)

lemma bucket_update:
  "b\<lparr>tkTokens := x, tkLast := now\<rparr> = \<lparr>tkTokens = x, tkLast = now\<rparr>"
  "\<lparr>tkTokens = x, tkLast = now\<rparr>\<lparr>tkTokens := y\<rparr> = \<lparr>tkTokens = y, tkLast = now\<rparr>" for b :: tokenBucket
  by (cases b) simp_all

lemma allow_bucketStep:
  defines "l1 \<equiv> (\<lambda>now l. if sweepInterval \<le> timeSub now (lmLastSweep l) then (sweep now l)\<lparr>lmLastSweep := now\<rparr> else l)"
    and "stp \<equiv> (\<lambda>key now l. bucketStep (lmRate l) (lmBurst l) now (lmBuckets l key))"
  shows "fst (fst (allow oor key now l)) = fst (stp key now (l1 now l))"
    and "snd (allow oor key now l) =
      (l1 now l)\<lparr>lmBuckets := (lmBuckets (l1 now l))(key \<mapsto> snd (stp key now (l1 now l)))\<rparr>"
proof -
  obtain m where m: "l1 now l = m" by simp
  then have m': "(if sweepInterval \<le> timeSub now (lmLastSweep l) then (sweep now l)\<lparr>lmLastSweep := now\<rparr> else l) = m"
    by (simp add: l1_def)
  show "fst (fst (allow oor key now l)) = fst (stp key now (l1 now l))"
    unfolding allow_def m' m Let_def stp_def bucketStep_def
    by (cases "lmBuckets m key") auto
  show "snd (allow oor key now l) =
      (l1 now l)\<lparr>lmBuckets := (lmBuckets (l1 now l))(key \<mapsto> snd (stp key now (l1 now l)))\<rparr>"
    unfolding allow_def m' m Let_def stp_def bucketStep_def
    by (cases "lmBuckets m key") (auto simp: bucket_update simp del: tokenBucket.update_convs)
qed

lemma allow_bucket:
  assumes "allow oor key now l = ((ok, retry), l')" "0 < lmRate l" "soundBurst (lmBurst l)" "lmBurst l \<le> 600 * lmRate l"
    and "forgets now (lmBuckets l k) ib" "validBucket (lmBurst l) now ib"
  shows "lmRate l' = lmRate l" "lmBurst l' = lmBurst l"
    and "key \<noteq> k \<Longrightarrow> forgets now (lmBuckets l' k) ib"
    and "key = k \<Longrightarrow> \<exists>b. bucketStep (lmRate l) (lmBurst l) now ib = (ok, b) \<and> lmBuckets l' k = Some b"
proof -
  let ?l1 = "if sweepInterval \<le> timeSub now (lmLastSweep l) then (sweep now l)\<lparr>lmLastSweep := now\<rparr> else l"
  have l1: "lmRate ?l1 = lmRate l" "lmBurst ?l1 = lmBurst l" by (simp_all add: sweep_def)
  have f: "forgets now (lmBuckets ?l1 k) ib" using assms(5) forgets_sweep by simp
  have step: "fst (fst (allow oor key now l)) = fst (bucketStep (lmRate l) (lmBurst l) now (lmBuckets ?l1 key))"
    "snd (allow oor key now l) =
       ?l1\<lparr>lmBuckets := (lmBuckets ?l1)(key \<mapsto> snd (bucketStep (lmRate l) (lmBurst l) now (lmBuckets ?l1 key)))\<rparr>"
    using allow_bucketStep [of oor key now l] l1 by simp_all
  show "lmRate l' = lmRate l" "lmBurst l' = lmBurst l" using step(2) assms(1) l1 by simp_all
  show "forgets now (lmBuckets l' k) ib" if "key \<noteq> k" using step(2) assms(1) f that by simp
  show "\<exists>b. bucketStep (lmRate l) (lmBurst l) now ib = (ok, b) \<and> lmBuckets l' k = Some b" if "key = k"
    using step assms(1) that bucketStep_forgets [OF assms(2-4) f assms(6)]
    by (auto intro!: prod_eqI)
qed

lemma bucketStep_valid:
  assumes "bucketStep rate burst now ob = (ok, b)" "0 < rate" "soundBurst burst" "validBucket burst now ob"
  shows "validBucket burst now (Some b)" "tkLast b = now"
proof -
  let ?t = "case ob of None \<Rightarrow> burst | Some b \<Rightarrow> refill rate burst now b"
  have t: "0 \<le> ?t" "?t \<le> burst"
    using assms(2-4) refill_range [OF assms(2), of burst] by (auto simp: soundBurst_def split: option.splits)
  have "rnd (?t - 1) \<le> burst" if "1 \<le> ?t"
    using rnd_mono [of "?t - 1" burst] that t assms(3) by (simp add: soundBurst_def)
  then show "validBucket burst now (Some b)" "tkLast b = now"
    using assms(1) t by (auto simp: bucketStep_def Let_def)
qed



lemma limiterRun_bucketRun:
  assumes "0 < lmRate l" "soundBurst (lmBurst l)" "lmBurst l \<le> 600 * lmRate l"
    and "forgets now (lmBuckets l k) ib" "validBucket (lmBurst l) now ib" "sorted (now # map snd reqs)"
  shows "ofKey k (limiterRun oor l reqs) = bucketRun (lmRate l) (lmBurst l) ib (ofKey k reqs)"
  using assms
proof (induction reqs arbitrary: l now ib)
  case (Cons r reqs)
  obtain key t where r: "r = (key, t)" by force
  obtain ok retry l' where a: "allow oor key t l = ((ok, retry), l')" by (metis prod.exhaust)
  have t: "now \<le> t" "sorted (t # map snd reqs)" using Cons.prems(6) r by simp_all
  note al = allow_bucket [OF a Cons.prems(1-3) forgets_later [OF Cons.prems(4) t(1)] validBucket_later [OF Cons.prems(5) t(1)]]
  show ?case
  proof (cases "key = k")
    case True
    then obtain b where b: "bucketStep (lmRate l) (lmBurst l) t ib = (ok, b)" "lmBuckets l' k = Some b"
      using al(4) by blast
    have "validBucket (lmBurst l) t (Some b)"
      by (rule bucketStep_valid(1) [OF b(1) Cons.prems(1,2) validBucket_later [OF Cons.prems(5) t(1)]])
    then show ?thesis
      using True r a b al(1,2) t(2) Cons.prems Cons.IH [of l' t "Some b"] by (simp add: forgets_def)
  next
    case False
    then show ?thesis
      using r a al(1,2) al(3) [OF False] t(2) Cons.prems Cons.IH [of l' t ib] validBucket_later [OF Cons.prems(5) t(1)]
      by simp
  qed
qed simp

section \<open>How much a bucket lets through\<close>

abbreviation granted :: "bool list \<Rightarrow> rat" where
  "granted oks \<equiv> of_nat (count_list oks True)"

lemma bucketStep_spends:
  assumes "bucketStep rate burst now ob = (ok, b)" "0 < rate" "soundBurst burst" "validBucket burst now ob"
  shows "tkTokens b + (if ok then 1 else 0) \<le>
    (case ob of None \<Rightarrow> burst | Some b0 \<Rightarrow> refill rate burst now b0) + burst * ulp"
proof -
  let ?t = "case ob of None \<Rightarrow> burst | Some b \<Rightarrow> refill rate burst now b"
  have t: "?t \<le> burst"
    using assms(2-4) refill_range [OF assms(2), of burst] by (auto simp: soundBurst_def split: option.splits)
  have "rnd (?t - 1) \<le> ?t - 1 + burst / 2 ^ 53" if "1 \<le> ?t"
    by (rule rnd_absolute) (use that t assms(3) in \<open>simp_all add: soundBurst_def\<close>)
  moreover have "0 \<le> burst / 2 ^ 53" using assms(3) by (simp add: soundBurst_def)
  ultimately show ?thesis using assms(1) by (auto simp: bucketStep_def Let_def)
qed

lemma bucketRun_gain:
  assumes "0 < rate" "soundBurst burst" "0 \<le> tkTokens b" "tkTokens b \<le> burst" "sorted (tkLast b # ts)"
  shows "granted (bucketRun rate burst (Some b) ts) \<le>
    tkTokens b + rate * seconds (last (tkLast b # ts) - tkLast b) + 10 * burst * ulp * of_nat (length ts)"
  using assms
proof (induction ts arbitrary: b)
  case (Cons t ts)
  obtain ok b' where s: "bucketStep rate burst t (Some b) = (ok, b')" by force
  have v: "validBucket burst t (Some b)" using Cons.prems by simp
  note b' = bucketStep_valid [OF s Cons.prems(1,2) v]
  have one: "1 \<le> burst" and le: "tkLast b \<le> t" using Cons.prems by (simp_all add: soundBurst_def)
  have IH: "granted (bucketRun rate burst (Some b') ts) \<le>
      tkTokens b' + rate * seconds (last (t # ts) - t) + 10 * burst * ulp * of_nat (length ts)"
    using Cons.IH [of b'] b' Cons.prems by simp
  have g: "tkTokens b' + (if ok then 1 else 0) \<le>
      tkTokens b + rate * seconds (t - tkLast b) + 10 * burst * ulp"
    using bucketStep_spends [OF s Cons.prems(1,2) v] refill_gain [OF Cons.prems(1) one Cons.prems(3,4) le] by simp
  have x: "rate * seconds (last (t # ts) - t) + rate * seconds (t - tkLast b) = rate * seconds (last (t # ts) - tkLast b)"
    by (simp add: add_divide_distrib diff_divide_distrib distrib_left right_diff_distrib)
  have n: "10 * burst * ulp * of_nat (length (t # ts)) = 10 * burst * ulp * of_nat (length ts) + 10 * burst * ulp"
    by (simp add: distrib_left)
  have c: "granted (bucketRun rate burst (Some b) (t # ts)) =
      granted (bucketRun rate burst (Some b') ts) + (if ok then 1 else 0)"
    using s by simp
  show ?case using IH g x unfolding n c by simp
qed simp

lemma bucketRun_window:
  assumes "0 < rate" "soundBurst burst" "validBucket burst t ob" "sorted (t # ts)"
  shows "granted (bucketRun rate burst ob (t # ts)) \<le>
    burst + rate * seconds (last (t # ts) - t) + 10 * burst * ulp * of_nat (length (t # ts))"
proof -
  obtain ok b where s: "bucketStep rate burst t ob = (ok, b)" by force
  note b = bucketStep_valid [OF s assms(1-3)]
  have r: "(case ob of None \<Rightarrow> burst | Some b0 \<Rightarrow> refill rate burst t b0) \<le> burst"
    using assms(1-3) refill_range(2) [OF assms(1), of burst] by (auto simp: soundBurst_def split: option.splits)
  have IH: "granted (bucketRun rate burst (Some b) ts) \<le>
      tkTokens b + rate * seconds (last (t # ts) - t) + 10 * burst * ulp * of_nat (length ts)"
    using bucketRun_gain [OF assms(1,2), of b ts] b assms(4) by simp
  have n: "10 * burst * ulp * of_nat (length (t # ts)) = 10 * burst * ulp * of_nat (length ts) + 10 * burst * ulp"
    by (simp add: distrib_left)
  have c: "granted (bucketRun rate burst ob (t # ts)) = granted (bucketRun rate burst (Some b) ts) + (if ok then 1 else 0)"
    using s by simp
  have p: "0 \<le> burst * ulp" using assms(2) by (simp add: soundBurst_def)
  show ?thesis using IH r p bucketStep_spends [OF s assms(1-3)] unfolding n c by linarith
qed

text \<open>Splitting a run.\<close>

lemma bucketRun_append:
  assumes "0 < rate" "soundBurst burst" "validBucket burst now ob" "sorted (now # xs)"
  shows "\<exists>ob'. validBucket burst (last (now # xs)) ob' \<and>
    (\<forall>ys. bucketRun rate burst ob (xs @ ys) = bucketRun rate burst ob xs @ bucketRun rate burst ob' ys)"
  using assms
proof (induction xs arbitrary: now ob)
  case (Cons x xs)
  obtain ok b where s: "bucketStep rate burst x ob = (ok, b)" by force
  have "now \<le> x" using Cons.prems(4) by simp
  note v = bucketStep_valid(1) [OF s Cons.prems(1,2) validBucket_later [OF Cons.prems(3) this]]
  have "sorted (x # xs)" using Cons.prems(4) by simp
  from Cons.IH [OF Cons.prems(1,2) v this] obtain ob' where
    "validBucket burst (last (x # xs)) ob'"
    "\<forall>ys. bucketRun rate burst (Some b) (xs @ ys) = bucketRun rate burst (Some b) xs @ bucketRun rate burst ob' ys"
    by blast
  then show ?case using s by (intro exI [of _ ob']) simp
qed auto


lemma length_limiterRun [simp]: "length (limiterRun oor l reqs) = length reqs"
proof (induction reqs arbitrary: l)
  case (Cons r reqs)
  then show ?case by (cases r) (simp split: prod.splits)
qed simp

lemma limiterRun_split: "\<exists>l'. limiterRun oor l (xs @ ys) = limiterRun oor l xs @ limiterRun oor l' ys"
proof (induction xs arbitrary: l)
  case (Cons x xs)
  obtain key t where x: "x = (key, t)" by force
  obtain ok retry l1 where "allow oor key t l = ((ok, retry), l1)" by (metis prod.exhaust)
  with Cons.IH [of l1] x show ?case by auto
qed auto

lemma sorted_ofKey: "sorted (t # map snd reqs) \<Longrightarrow> sorted (t # ofKey k reqs)"
proof (induction reqs arbitrary: t)
  case (Cons r reqs)
  then show ?case by (cases r) (fastforce simp: ofKey_def)
qed simp

section \<open>Configurations\<close>

lemma rnd_nonpos: "x \<le> 0 \<Longrightarrow> rnd x \<le> 0"
proof -
  assume "x \<le> 0"
  then have "x / pow2 (ulpExp x) \<le> of_int 0" by (simp add: divide_nonpos_pos)
  from roundEven_mono [OF this] have "roundEven (x / pow2 (ulpExp x)) \<le> 0" by (simp only: roundEven_of_int)
  then show "rnd x \<le> 0" by (simp add: rnd_def mult_nonpos_nonneg)
qed

lemma config_sound:
  assumes "RateLimitWithConfig cfg t0 = Inr (l, key)" "cfBurst cfg \<le> 2 ^ 53" "cfRate cfg \<le> 2 ^ 53"
  shows "0 < lmRate l" "soundBurst (lmBurst l)" "lmRate l = cfRate cfg" "lmBuckets l k = None"
proof -
  have pos: "0 < cfRate cfg" using assms(1) by (simp add: RateLimitWithConfig_def Let_def split: if_splits)
  have l: "lmRate l = cfRate cfg" "lmBuckets l = (\<lambda>k. None)"
    "lmBurst l = (if rnd (of_int (cfBurst cfg)) < 1 then max 1 (of_int \<lceil>cfRate cfg\<rceil>) else rnd (of_int (cfBurst cfg)))"
    using assms(1) pos by (auto simp: RateLimitWithConfig_def Let_def)
  show "0 < lmRate l" "lmRate l = cfRate cfg" "lmBuckets l k = None" using l pos by simp_all
  show "soundBurst (lmBurst l)"
  proof (cases "rnd (of_int (cfBurst cfg)) < 1")
    case True
    have "cfRate cfg \<le> of_int (2 ^ 53)" using assms(3) by simp
    then have c: "\<lceil>cfRate cfg\<rceil> \<le> 2 ^ 53" by (simp only: ceiling_le_iff)
    have "max 1 (of_int \<lceil>cfRate cfg\<rceil>) = (of_int (max 1 \<lceil>cfRate cfg\<rceil>) :: rat)" by (simp add: max_def)
    then have b: "lmBurst l = of_int (max 1 \<lceil>cfRate cfg\<rceil>)" using True l(3) by simp
    have "rnd (of_int (max 1 \<lceil>cfRate cfg\<rceil>)) = of_int (max 1 \<lceil>cfRate cfg\<rceil>)"
      using c by (intro rnd_of_int) auto
    moreover have "(of_int 1 :: rat) \<le> of_int (max 1 \<lceil>cfRate cfg\<rceil>)" by (simp only: of_int_le_iff max.cobounded1)
    ultimately show ?thesis unfolding soundBurst_def b by simp
  next
    case False
    then have "\<not> cfBurst cfg \<le> 0" using rnd_nonpos [of "of_int (cfBurst cfg)"] by auto
    then have "rnd (of_int (cfBurst cfg)) = of_int (cfBurst cfg)"
      using assms(2) by (intro rnd_of_int) simp_all
    then show ?thesis using False l(3) by (simp add: soundBurst_def)
  qed
qed

definition sampleConfig :: rateLimitConfig where
  "sampleConfig = \<lparr>cfRate = 2, cfBurst = 3, cfKeyFunc = None\<rparr>"

definition sampleLimiter :: rateLimiter where
  "sampleLimiter = \<lparr>lmBuckets = (\<lambda>k. None), lmRate = 2, lmBurst = 3, lmLastSweep = 0\<rparr>"

lemma sampleConfig_gives: "RateLimitWithConfig sampleConfig 0 = Inr (sampleLimiter, ipKey)"
  using rnd_of_int [of 3] by (simp add: RateLimitWithConfig_def sampleConfig_def sampleLimiter_def)

section \<open>Properties\<close>

text \<open>C10. With clock readings in order, burst and rate at most 2^53 and a burst of at most 600 times the rate
  (a bucket then refills within the sweep interval), the limiter decides for each key like a bucket of its
  own that is never forgotten: other keys do not matter, and sweeping is invisible.\<close>

theorem limiter_is_token_bucket:
  assumes "RateLimitWithConfig cfg t0 = Inr (l, key)" "cfBurst cfg \<le> 2 ^ 53" "cfRate cfg \<le> 2 ^ 53"
    and "lmBurst l \<le> 600 * cfRate cfg" "sorted (t0 # map snd reqs)"
  shows "ofKey k (limiterRun oor l reqs) = bucketRun (cfRate cfg) (lmBurst l) None (ofKey k reqs)"
  using limiterRun_bucketRun [of l t0 k None reqs oor] config_sound [OF assms(1-3)] assms(4,5)
  by (simp add: forgets_def)

theorem limiter_is_token_bucket_witness:
  "ofKey ''a'' (limiterRun 0 sampleLimiter [(''a'', 1), (''b'', 2), (''a'', 3), (''a'', 700 * second)]) =
     bucketRun 2 3 None [1, 3, 700 * second]"
  using limiter_is_token_bucket [OF sampleConfig_gives, of "[(''a'', 1), (''b'', 2), (''a'', 3), (''a'', 700 * second)]" "''a''" 0]
  by (simp add: sampleConfig_def sampleLimiter_def second_def)

text \<open>C11. With clock readings in order, burst and rate at most 2^53 and a burst of at most 600 times the rate,
  the requests let through for a key in any window of a run are at most the burst and what the rate earns
  over the window, up to the rounding of \<open>float64\<close>.\<close>

theorem limiter_window:
  assumes "RateLimitWithConfig cfg t0 = Inr (l, key)" "cfBurst cfg \<le> 2 ^ 53" "cfRate cfg \<le> 2 ^ 53"
    and "lmBurst l \<le> 600 * cfRate cfg" "sorted (t0 # map snd (before @ window))" "ofKey k window = t # ts"
  shows "granted (ofKey k (drop (length before) (limiterRun oor l (before @ window)))) \<le>
    lmBurst l + cfRate cfg * seconds (last (t # ts) - t) + 10 * lmBurst l * ulp * of_nat (length (t # ts))"
proof -
  note c = config_sound [OF assms(1-3)]
  have none: "forgets t0 (lmBuckets l k) None" using c(4) by (simp add: forgets_def)
  have s: "sorted (t0 # map snd before)" "sorted (t0 # ofKey k before)" "sorted (t # ts)"
    "\<forall>x\<in>set (t0 # ofKey k before). x \<le> t"
    using assms(5) sorted_ofKey [of t0 "before @ window" k] assms(6) by (auto simp: sorted_append)
  obtain ob where ob: "validBucket (lmBurst l) (last (t0 # ofKey k before)) ob"
    "\<forall>ys. bucketRun (lmRate l) (lmBurst l) None (ofKey k before @ ys) =
       bucketRun (lmRate l) (lmBurst l) None (ofKey k before) @ bucketRun (lmRate l) (lmBurst l) ob ys"
    using bucketRun_append [OF c(1,2) validBucket_simps(1) s(2)] by blast
  have "last (t0 # ofKey k before) \<in> set (t0 # ofKey k before)" by (rule last_in_set) simp
  then have v: "validBucket (lmBurst l) t ob" using validBucket_later [OF ob(1)] s(4) by blast
  obtain l' where l': "limiterRun oor l (before @ window) = limiterRun oor l before @ limiterRun oor l' window"
    using limiterRun_split by blast
  have run: "ofKey k (limiterRun oor l reqs) = bucketRun (lmRate l) (lmBurst l) None (ofKey k reqs)"
    if "sorted (t0 # map snd reqs)" for reqs
    using limiterRun_bucketRun [OF c(1,2) _ none _ that] c(3) assms(4) by simp
  have "ofKey k (limiterRun oor l before) = bucketRun (lmRate l) (lmBurst l) None (ofKey k before)"
    "ofKey k (limiterRun oor l (before @ window)) = bucketRun (lmRate l) (lmBurst l) None (ofKey k (before @ window))"
    by (rule run [OF s(1)], rule run [OF assms(5)])
  then have "ofKey k (limiterRun oor l' window) = bucketRun (lmRate l) (lmBurst l) ob (t # ts)"
    using l' ob(2) assms(6) by simp
  then show ?thesis using bucketRun_window [OF c(1,2) v s(3)] l' c(3) by simp
qed

theorem limiter_window_witness:
  "granted (ofKey ''a'' (drop 1 (limiterRun 0 sampleLimiter ([(''a'', 1)] @ [(''a'', 3), (''b'', 4), (''a'', second)])))) \<le>
     3 + 2 * seconds (second - 3) + 10 * 3 * ulp * 2"
  using limiter_window [OF sampleConfig_gives, of "[(''a'', 1)]" "[(''a'', 3), (''b'', 4), (''a'', second)]" "''a''" 3 "[second]" 0]
  by (simp add: sampleConfig_def sampleLimiter_def second_def)



text \<open>A bucket that the rate refills more slowly than the sweep interval is full again after being
  forgotten: with a burst of 2 and one token in 1024 seconds, four requests pass in ten minutes.\<close>

definition slowLimiter :: rateLimiter where
  "slowLimiter = \<lparr>lmBuckets = (\<lambda>k. None), lmRate = 1 / 1024, lmBurst = 2, lmLastSweep = 0\<rparr>"

lemma durSeconds_second: "0 \<le> n \<Longrightarrow> n \<le> 2 ^ 33 \<Longrightarrow> durSeconds (n * second) = of_int n"
  using rnd_of_int [of n] by (simp add: durSeconds_parts second_def maxInt64_def)

lemma slow_values:
  "rnd 1 = 1" "rnd (75 / 128) = 75 / 128" "durSeconds 0 = 0" "durSeconds 600000000000 = 600"
  using rnd_of_int [of 1] durSeconds_second [of 0] durSeconds_second [of 600]
  by (simp_all add: second_def) code_simp

lemmas slow_simps = slowLimiter_def allow_def bucketStep_def refill_def sweep_def Let_def slow_values

text \<open>Without that proviso the sweep hands out tokens the rate has not earned.\<close>

theorem sweep_refills:
  "map snd (limiterRun 0 slowLimiter [(''a'', 0), (''a'', 0), (''a'', 0), (''a'', 600 * second), (''a'', 600 * second)]) =
     [True, True, False, True, True] \<and>
   bucketRun (1 / 1024) 2 None [0, 0, 0, 600 * second, 600 * second] = [True, True, False, False, False]"
  by (simp_all add: slow_simps sweepInterval_def second_def timeSub_def maxInt64_def minInt64_def)

text \<open>The handler reads the clock before \<^verbatim>\<open>allow\<close> takes the lock, so of two concurrent requests the later
  reading may enter first.  The earlier one then takes time away from the bucket: the second of two requests
  is refused although the burst has room for both.\<close>

lemma late_values:
  "rnd 1 = 1" "rnd (1 / 512) = 1 / 512" "rnd (513 / 512) = 513 / 512" "rnd (511 / 512) = 511 / 512"
  "rnd (- (1 / 512)) = - (1 / 512)" "durSeconds 1953125 = 1 / 512" "durSeconds (- 1953125) = - (1 / 512)"
  by code_simp+

definition smallLimiter :: rateLimiter where
  "smallLimiter = \<lparr>lmBuckets = (\<lambda>k. None), lmRate = 1, lmBurst = 2, lmLastSweep = 0\<rparr>"

lemmas late_simps = smallLimiter_def allow_def refill_def Let_def late_values timeSub_def maxInt64_def minInt64_def
  sweepInterval_def second_def

lemma late_reading_refused:
  "map snd (limiterRun 0 smallLimiter [(''a'', 0), (''a'', 1953125)]) = [True, True]"
  "map snd (limiterRun 0 smallLimiter [(''a'', 1953125), (''a'', 0)]) = [True, False]"
  by (simp_all add: late_simps)

section \<open>The middleware in a chain\<close>

lemma returnNext_exec: "nxt s = Some (out, s') \<Longrightarrow> exec nxt returnNext s = Some (out, s')"
  by (cases out) (auto simp: returnNext_def split: sum.splits)

lemma rate_limited_request:
  assumes "int (length hs) \<le> abortIndex" "hs ! nat (cindex s + 1) = rateLimitHandler oor key now"
    and "- 1 \<le> cindex s" "cindex s + 1 < int (length hs)" "cctx s = (l, c)"
    and "allow oor (key c) now l = ((False, retry), l')"
  shows "\<exists>s'. Next hs s = Some (Inr (Some (HTTPError 429 ''Too Many Requests'' None)), s') \<and>
    cctx s' = (l', cx_SetHeader ''Retry-After'' (itoa \<lceil>durSeconds retry\<rceil>) c)"
  using Next_unfold [OF assms(1), of s] assms(2-6)
  by (simp add: rateLimitHandler_def StatusText_def statusTable_def)

end
