(* ===== verification/Schema.thy ===== *)
theory Schema
  imports GoTypes "HOL-Library.AList"
begin

text \<open>
  JSON schemas from Go types (\<^verbatim>\<open>schema.go\<close>).  \<^verbatim>\<open>schemaGen\<close>'s components are an association list, which
  the generator takes and returns.  \<^verbatim>\<open>schemaFor\<close> recurses over types that may be cyclic: it takes fuel,
  \<open>schemaFor_total\<close> shows that enough fuel exists for every type whose cycles pass through a named
  struct, and \<open>slice_of_itself\<close> that none is enough for \<^verbatim>\<open>type T []T\<close>.
\<close>

section \<open>Schemas\<close>

datatype schema = Schema
  (scRef: string)
  (scType: string)
  (scFormat: string)
  (scProperties: "(string \<times> schema) list")
  (scRequired: "string list")
  (scItems: "schema option")
  (scAdditional: "schema option")

definition emptySchema :: schema where
  "emptySchema = Schema [] [] [] [] [] None None"

definition typeSchema :: "string \<Rightarrow> schema" where
  "typeSchema t = Schema [] t [] [] [] None None"

definition refPrefix :: string where
  "refPrefix = ''#/components/schemas/''"

definition refSchema :: "string \<Rightarrow> schema" where
  "refSchema name = Schema (refPrefix @ name) [] [] [] [] None None"

type_synonym components = "(string \<times> schema) list"

section \<open>The generator\<close>

fun deref :: "nat \<Rightarrow> tyenv \<Rightarrow> gotype \<Rightarrow> gotype option" where
  "deref 0 env t = None"
| "deref (Suc fuel) env t = (case underlying env t of TPtr u \<Rightarrow> deref fuel env u | _ \<Rightarrow> Some t)"

text \<open>\<^verbatim>\<open>jsonField\<close>: the name of a property and whether it may be omitted.\<close>

definition jsonField :: "fieldInfo \<Rightarrow> string \<times> bool" where
  "jsonField f =
     (let tag = tagGet ''json'' f
      in if tag = [] then (fiName f, False)
         else let parts = splitOn (CHR '','') tag;
                  name = (if hd parts = [] then fiName f else hd parts)
              in (name, ''omitempty'' \<in> set (tl parts)))"

text \<open>The loop of \<^verbatim>\<open>structSchema\<close> over the fields; \<open>gen\<close> is \<^verbatim>\<open>schemaFor\<close>.\<close>

fun structFields ::
    "(gotype \<Rightarrow> components \<Rightarrow> (schema \<times> components) option) \<Rightarrow> tyenv \<Rightarrow> (fieldInfo \<times> gotype) list \<Rightarrow>
     (string \<times> schema) list \<Rightarrow> string list \<Rightarrow> components \<Rightarrow>
     ((string \<times> schema) list \<times> string list \<times> components) option" where
  "structFields gen env [] props req comps = Some (props, req, comps)"
| "structFields gen env ((f, t) # fs) props req comps =
     (if \<not> fiExported f then structFields gen env fs props req comps
      else case jsonField f of
             (name, omitempty) \<Rightarrow>
               if name = ''-'' then structFields gen env fs props req comps
               else case gen t comps of
                      None \<Rightarrow> None
                    | Some (s, comps') \<Rightarrow>
                        structFields gen env fs (AList.update name s props)
                          (if \<not> omitempty \<and> \<not> isPointer env t then req @ [name] else req) comps')"

definition structSchema ::
    "(gotype \<Rightarrow> components \<Rightarrow> (schema \<times> components) option) \<Rightarrow> tyenv \<Rightarrow> (fieldInfo \<times> gotype) list \<Rightarrow>
     components \<Rightarrow> (schema \<times> components) option" where
  "structSchema gen env fs comps =
     (case structFields gen env fs [] [] comps of
        None \<Rightarrow> None
      | Some (props, req, comps') \<Rightarrow> Some (Schema [] ''object'' [] props req None None, comps'))"

text \<open>The switch of \<^verbatim>\<open>schemaFor\<close> on a type that is not a pointer.\<close>

definition schemaOf ::
    "(gotype \<Rightarrow> components \<Rightarrow> (schema \<times> components) option) \<Rightarrow> tyenv \<Rightarrow> gotype \<Rightarrow> components \<Rightarrow>
     (schema \<times> components) option" where
  "schemaOf gen env t comps =
     (case underlying env t of
       TString \<Rightarrow> Some (typeSchema ''string'', comps)
     | TBool \<Rightarrow> Some (typeSchema ''boolean'', comps)
     | TInt w \<Rightarrow> Some (typeSchema ''integer'', comps)
     | TUint w \<Rightarrow> Some (typeSchema ''integer'', comps)
     | TFloat w \<Rightarrow> Some (typeSchema ''number'', comps)
     | TSlice e \<Rightarrow>
         (case gen e comps of
            None \<Rightarrow> None
          | Some (s, comps') \<Rightarrow> Some (Schema [] ''array'' [] [] [] (Some s) None, comps'))
     | TArray e \<Rightarrow>
         (case gen e comps of
            None \<Rightarrow> None
          | Some (s, comps') \<Rightarrow> Some (Schema [] ''array'' [] [] [] (Some s) None, comps'))
     | TMap e \<Rightarrow>
         (case gen e comps of
            None \<Rightarrow> None
          | Some (s, comps') \<Rightarrow> Some (Schema [] ''object'' [] [] [] None (Some s), comps'))
     | TTime \<Rightarrow> Some (Schema [] ''string'' ''date-time'' [] [] None None, comps)
     | TStruct fs \<Rightarrow>
         (let name = typeName env t
          in if name = [] then structSchema gen env fs comps
             else if map_of comps name \<noteq> None then Some (refSchema name, comps)
             else
               case structSchema gen env fs (AList.update name emptySchema comps) of
                 None \<Rightarrow> None
               | Some (s, comps') \<Rightarrow> Some (refSchema name, AList.update name s comps'))
     | _ \<Rightarrow> Some (emptySchema, comps))"

fun schemaFor :: "nat \<Rightarrow> tyenv \<Rightarrow> gotype \<Rightarrow> components \<Rightarrow> (schema \<times> components) option" where
  "schemaFor 0 env t comps = None"
| "schemaFor (Suc fuel) env t0 comps =
     (case deref fuel env t0 of
        None \<Rightarrow> None
      | Some t \<Rightarrow> schemaOf (schemaFor fuel env) env t comps)"

declare schemaFor.simps [simp del]

section \<open>Query parameters\<close>

record parameter =
  pmName :: string
  pmIn :: string
  pmRequired :: bool
  pmSchema :: schema

fun queryFields ::
    "(gotype \<Rightarrow> components \<Rightarrow> (schema \<times> components) option) \<Rightarrow> (fieldInfo \<times> gotype) list \<Rightarrow>
     components \<Rightarrow> (parameter list \<times> components) option" where
  "queryFields gen [] comps = Some ([], comps)"
| "queryFields gen ((f, t) # fs) comps =
     (let tag = tagGet ''query'' f; name = (if tag = [] then fiName f else tag)
      in if \<not> fiExported f \<or> tag = ''-'' then queryFields gen fs comps
         else case gen t comps of
                None \<Rightarrow> None
              | Some (s, comps1) \<Rightarrow>
                  (case queryFields gen fs comps1 of
                     None \<Rightarrow> None
                   | Some (ps, comps2) \<Rightarrow>
                       Some (\<lparr>pmName = name, pmIn = ''query'', pmRequired = False, pmSchema = s\<rparr> # ps, comps2)))"

definition queryParams :: "nat \<Rightarrow> tyenv \<Rightarrow> gotype \<Rightarrow> components \<Rightarrow> (parameter list \<times> components) option" where
  "queryParams fuel env t0 comps =
     (case deref fuel env t0 of
        None \<Rightarrow> None
      | Some t \<Rightarrow>
          (case underlying env t of
             TStruct fs \<Rightarrow> queryFields (schemaFor fuel env) fs comps
           | _ \<Rightarrow> Some ([], comps)))"

section \<open>References\<close>

fun refsOf :: "schema \<Rightarrow> string set" where
  "refsOf (Schema r ty fm ps req it ad) =
     (if r = [] then {} else {r}) \<union> (\<Union>p\<in>set ps. refsOf (snd p)) \<union>
     (case it of None \<Rightarrow> {} | Some s \<Rightarrow> refsOf s) \<union> (case ad of None \<Rightarrow> {} | Some s \<Rightarrow> refsOf s)"

definition names :: "components \<Rightarrow> string set" where
  "names comps = dom (map_of comps)"

definition refNames :: "components \<Rightarrow> string set" where
  "refNames comps = (\<lambda>n. refPrefix @ n) ` names comps"

text \<open>Every reference in a component has a component.\<close>

definition refsClosed :: "components \<Rightarrow> bool" where
  "refsClosed comps \<longleftrightarrow> (\<forall>n c. map_of comps n = Some c \<longrightarrow> refsOf c \<subseteq> refNames comps)"

text \<open>What a generator may do to the components: an entry that it adds or changes is an object schema.\<close>

definition compsGrow :: "components \<Rightarrow> components \<Rightarrow> bool" where
  "compsGrow comps comps' \<longleftrightarrow>
     names comps \<subseteq> names comps' \<and>
     (\<forall>n c. map_of comps' n = Some c \<longrightarrow> scType c = ''object'' \<or> map_of comps n = Some c)"

lemma refsOf_simps [simp]:
  "refsOf emptySchema = {}" "t \<noteq> [] \<Longrightarrow> refsOf (typeSchema t) = {}" "refsOf (refSchema name) = {refPrefix @ name}"
  by (simp_all add: emptySchema_def typeSchema_def refSchema_def refPrefix_def)

lemma names_update [simp]: "names (AList.update k v comps) = insert k (names comps)"
  by (simp add: names_def update_conv')

lemma refNames_update [simp]: "refNames (AList.update k v comps) = insert (refPrefix @ k) (refNames comps)"
  by (simp add: refNames_def)

lemma compsGrow_refl [simp]: "compsGrow comps comps"
  by (auto simp: compsGrow_def names_def)

lemma compsGrow_trans: "compsGrow a b \<Longrightarrow> compsGrow b c \<Longrightarrow> compsGrow a c"
  unfolding compsGrow_def by blast

lemma refNames_grows: "compsGrow a b \<Longrightarrow> refNames a \<subseteq> refNames b"
  by (auto simp: compsGrow_def refNames_def)

lemma set_update: "set (AList.update k v al) \<subseteq> insert (k, v) (set al)"
  by (induction al) auto

lemma structFields_step:
  assumes "structFields gen env (ft # fs) props req comps = Some r"
  obtains (skip) "structFields gen env fs props req comps = Some r"
  | (gen) s c1 req1 where "gen (snd ft) comps = Some (s, c1)"
      "structFields gen env fs (AList.update (fst (jsonField (fst ft))) s props) req1 c1 = Some r"
proof -
  obtain f t where ft: "ft = (f, t)" by force
  obtain name om where n: "jsonField f = (name, om)" by force
  show ?thesis
  proof (cases "\<not> fiExported f \<or> name = ''-''")
    case True
    then show ?thesis using assms skip ft n by (simp split: if_splits)
  next
    case False
    then obtain s c1 where "gen t comps = Some (s, c1)" using assms ft n by (auto split: option.splits)
    then show ?thesis using assms False ft n that(2) by simp
  qed
qed

lemma refsClosed_update:
  "refsClosed comps \<Longrightarrow> refsOf s \<subseteq> insert (refPrefix @ name) (refNames comps) \<Longrightarrow> refsClosed (AList.update name s comps)"
  by (fastforce simp: refsClosed_def update_conv' split: if_splits)

text \<open>The contract between the generator and the loops that call it for the fields of a struct.\<close>

locale schema_generator =
  fixes gen :: "gotype \<Rightarrow> components \<Rightarrow> (schema \<times> components) option"
  assumes gen_closed: "gen t comps = Some (s, comps') \<Longrightarrow> refsClosed comps \<Longrightarrow> refsClosed comps' \<and> refsOf s \<subseteq> refNames comps'"
    and gen_grows: "gen t comps = Some (s, comps') \<Longrightarrow> compsGrow comps comps'"
begin

lemma structFields_grows:
  "structFields gen env fs props req comps = Some (props', req', comps') \<Longrightarrow> compsGrow comps comps'"
proof (induction fs arbitrary: props req comps)
  case (Cons ft fs)
  show ?case
  proof (cases rule: structFields_step [OF Cons.prems, case_names skip gen])
    case (gen s c1 req1)
    show ?thesis by (rule compsGrow_trans [OF gen_grows [OF gen(1)] Cons.IH [OF gen(2)]])
  qed (rule Cons.IH)
qed simp

lemma structFields_closed:
  "structFields gen env fs props req comps = Some (props', req', comps') \<Longrightarrow> refsClosed comps \<Longrightarrow>
   \<forall>p\<in>set props. refsOf (snd p) \<subseteq> refNames comps \<Longrightarrow>
   refsClosed comps' \<and> (\<forall>p\<in>set props'. refsOf (snd p) \<subseteq> refNames comps')"
proof (induction fs arbitrary: props req comps)
  case (Cons ft fs)
  show ?case
  proof (cases rule: structFields_step [OF Cons.prems(1), case_names skip gen])
    case skip
    then show ?thesis using Cons.prems(2,3) by (rule Cons.IH)
  next
    case (gen s c1 req1)
    let ?name = "fst (jsonField (fst ft))"
    have "refNames comps \<subseteq> refNames c1" by (rule refNames_grows [OF gen_grows [OF gen(1)]])
    then have "\<forall>p\<in>set (AList.update ?name s props). refsOf (snd p) \<subseteq> refNames c1"
      using gen_closed [OF gen(1) Cons.prems(2)] Cons.prems(3) set_update [of ?name s props] by fastforce
    with gen(2) conjunct1 [OF gen_closed [OF gen(1) Cons.prems(2)]] show ?thesis by (rule Cons.IH)
  qed
qed simp

lemma structSchema_closed:
  assumes "structSchema gen env fs comps = Some (s, comps')" "refsClosed comps"
  shows "refsClosed comps'" "refsOf s \<subseteq> refNames comps'"
proof -
  obtain props req where "structFields gen env fs [] [] comps = Some (props, req, comps')"
    "s = Schema [] ''object'' [] props req None None"
    using assms(1) by (auto simp: structSchema_def split: option.splits)
  then show "refsClosed comps'" "refsOf s \<subseteq> refNames comps'"
    using structFields_closed [of env fs "[]" "[]" comps] assms(2) by auto
qed

lemma structSchema_grows:
  "structSchema gen env fs comps = Some (s, comps') \<Longrightarrow> compsGrow comps comps'"
  "structSchema gen env fs comps = Some (s, comps') \<Longrightarrow> scType s = ''object''"
  by (auto simp: structSchema_def split: option.splits dest: structFields_grows)

text \<open>A named struct: its name is reserved, then described.\<close>

lemma named_struct_closed:
  assumes "refsClosed comps" "structSchema gen env fs (AList.update name emptySchema comps) = Some (s, c2)"
  shows "refsClosed (AList.update name s c2)"
proof -
  have "refsClosed (AList.update name emptySchema comps)" by (rule refsClosed_update [OF assms(1)]) simp
  then have "refsClosed c2" "refsOf s \<subseteq> refNames c2" using structSchema_closed [OF assms(2)] by auto
  then show ?thesis by (intro refsClosed_update) auto
qed

lemma named_struct_grows:
  assumes "structSchema gen env fs (AList.update name emptySchema comps) = Some (s, c2)"
  shows "compsGrow comps (AList.update name s c2)"
  using structSchema_grows [OF assms] by (auto simp: compsGrow_def update_conv' split: if_splits)

lemma schemaOf_closed:
  assumes "schemaOf gen env t comps = Some (s, comps')" "refsClosed comps"
  shows "refsClosed comps' \<and> refsOf s \<subseteq> refNames comps'"
proof (cases "underlying env t")
  case (TStruct fs)
  consider "typeName env t = []" | "typeName env t \<noteq> []" "map_of comps (typeName env t) \<noteq> None"
    | "typeName env t \<noteq> []" "map_of comps (typeName env t) = None" by blast
  then show ?thesis
  proof cases
    case 1
    then show ?thesis using assms TStruct structSchema_closed [of env fs comps] by (simp add: schemaOf_def)
  next
    case 2
    then show ?thesis using assms TStruct by (auto simp: schemaOf_def refNames_def names_def)
  next
    case 3
    then obtain s2 c2 where "structSchema gen env fs (AList.update (typeName env t) emptySchema comps) = Some (s2, c2)"
      "s = refSchema (typeName env t)" "comps' = AList.update (typeName env t) s2 c2"
      using assms TStruct by (auto simp: schemaOf_def Let_def split: option.splits)
    then show ?thesis using named_struct_closed [OF assms(2)] by auto
  qed
qed (use assms gen_closed in \<open>auto simp: schemaOf_def split: option.splits dest!: gen_closed\<close>)

lemma schemaOf_grows:
  assumes "schemaOf gen env t comps = Some (s, comps')"
  shows "compsGrow comps comps'"
proof (cases "underlying env t")
  case (TStruct fs)
  then show ?thesis
    using assms structSchema_grows(1) [of env fs comps] named_struct_grows [of env fs "typeName env t" comps]
    by (auto simp: schemaOf_def Let_def split: if_splits option.splits)
qed (use assms gen_grows in \<open>auto simp: schemaOf_def split: option.splits\<close>)

lemma queryFields_closed:
  "queryFields gen fs comps = Some (ps, comps') \<Longrightarrow> refsClosed comps \<Longrightarrow>
   refsClosed comps' \<and> compsGrow comps comps' \<and> (\<forall>p\<in>set ps. refsOf (pmSchema p) \<subseteq> refNames comps')"
proof (induction fs arbitrary: comps ps)
  case (Cons ft fs)
  obtain f t where ft: "ft = (f, t)" by force
  show ?case
  proof (cases "\<not> fiExported f \<or> tagGet ''query'' f = ''-''")
    case True
    then show ?thesis using Cons ft by (simp add: Let_def)
  next
    case False
    then obtain s c1 qs where g: "gen t comps = Some (s, c1)" and r: "queryFields gen fs c1 = Some (qs, comps')"
      and ps: "ps = \<lparr>pmName = (if tagGet ''query'' f = [] then fiName f else tagGet ''query'' f),
        pmIn = ''query'', pmRequired = False, pmSchema = s\<rparr> # qs"
      using Cons.prems(1) ft by (auto simp: Let_def split: option.splits)
    have "refsClosed c1" "refsOf s \<subseteq> refNames c1" using gen_closed [OF g Cons.prems(2)] by auto
    then show ?thesis
      using Cons.IH [OF r] ps refNames_grows compsGrow_trans [OF gen_grows [OF g]] by fastforce
  qed
qed simp

end

lemma schemaFor_generator: "schema_generator (schemaFor fuel env)"
proof (induction fuel)
  case 0
  show ?case by (rule schema_generator.intro) (simp_all add: schemaFor.simps(1))
next
  case (Suc fuel)
  show ?case
    by (rule schema_generator.intro)
      (auto simp: schemaFor.simps(2) split: option.splits
        dest: schema_generator.schemaOf_closed [OF Suc] schema_generator.schemaOf_grows [OF Suc])
qed

interpretation sg: schema_generator "schemaFor fuel env" for fuel env
  by (rule schemaFor_generator)

section \<open>Fuel\<close>

lemma deref_mono: "deref fuel env t = Some u \<Longrightarrow> fuel \<le> fuel' \<Longrightarrow> deref fuel' env t = Some u"
proof (induction fuel arbitrary: fuel' t)
  case (Suc fuel)
  then show ?case by (cases fuel') (auto split: gotype.splits)
qed simp

lemma structFields_mono:
  assumes "\<And>t c r. gen t c = Some r \<Longrightarrow> gen' t c = Some r"
  shows "structFields gen env fs props req comps = Some r \<Longrightarrow> structFields gen' env fs props req comps = Some r"
proof (induction fs arbitrary: props req comps)
  case (Cons ft fs)
  then show ?case
    by (cases ft) (auto split: if_splits option.splits prod.splits dest: assms)
qed simp

lemma structSchema_mono:
  assumes "\<And>t c r. gen t c = Some r \<Longrightarrow> gen' t c = Some r" "structSchema gen env fs comps = Some r"
  shows "structSchema gen' env fs comps = Some r"
proof -
  obtain r' where "structFields gen env fs [] [] comps = Some r'"
    using assms(2) by (auto simp: structSchema_def split: option.splits)
  moreover from this have "structFields gen' env fs [] [] comps = Some r'" 
    using structFields_mono [of gen gen'] assms(1) by blast
  ultimately show ?thesis using assms(2) by (simp add: structSchema_def)
qed

lemma schemaOf_mono:
  assumes "\<And>t c r. gen t c = Some r \<Longrightarrow> gen' t c = Some r" "schemaOf gen env t comps = Some r"
  shows "schemaOf gen' env t comps = Some r"
proof (cases "underlying env t")
  case (TStruct fs)
  then show ?thesis
    using assms(2) structSchema_mono [of gen gen', OF assms(1)]
    by (auto simp: schemaOf_def Let_def split: if_splits option.splits)
qed (use assms in \<open>auto simp: schemaOf_def split: option.splits\<close>)

lemma schemaFor_Suc: "schemaFor fuel env t comps = Some r \<Longrightarrow> schemaFor (Suc fuel) env t comps = Some r"
proof (induction fuel arbitrary: t comps r)
  case (Suc fuel)
  obtain u where u: "deref fuel env t = Some u" "schemaOf (schemaFor fuel env) env u comps = Some r"
    using Suc.prems by (auto simp: schemaFor.simps(2) split: option.splits)
  have "deref (Suc fuel) env t = Some u" by (rule deref_mono [OF u(1)]) simp
  moreover have "schemaOf (schemaFor (Suc fuel) env) env u comps = Some r" by (rule schemaOf_mono [OF Suc.IH u(2)])
  ultimately show ?case by (simp only: schemaFor.simps(2) [of "Suc fuel"] option.case)
qed (simp add: schemaFor.simps(1))

lemma schemaFor_mono: "schemaFor fuel env t comps = Some r \<Longrightarrow> fuel \<le> fuel' \<Longrightarrow> schemaFor fuel' env t comps = Some r"
proof (induction fuel')
  case (Suc fuel')
  then show ?case using schemaFor_Suc le_Suc_eq by metis
qed simp

section \<open>Enough fuel\<close>

text \<open>The defined types that occur in a type; the height of a type, by a rank of the defined types that
  are not structs.\<close>

fun namedIn :: "gotype \<Rightarrow> nat set" where
  "namedIn (TSlice t) = namedIn t"
| "namedIn (TArray t) = namedIn t"
| "namedIn (TMap t) = namedIn t"
| "namedIn (TPtr t) = namedIn t"
| "namedIn (TStruct fs) = (\<Union>p\<in>set fs. namedIn (snd p))"
| "namedIn (TNamed n) = {n}"
| "namedIn _ = {}"

definition isStructDef :: "tyenv \<Rightarrow> nat \<Rightarrow> bool" where
  "isStructDef env n = (case tdUnder (env n) of TStruct fs \<Rightarrow> True | _ \<Rightarrow> False)"

fun height :: "(nat \<Rightarrow> nat) \<Rightarrow> tyenv \<Rightarrow> gotype \<Rightarrow> nat" where
  "height rk env (TSlice t) = height rk env t"
| "height rk env (TArray t) = height rk env t"
| "height rk env (TMap t) = height rk env t"
| "height rk env (TPtr t) = height rk env t"
| "height rk env (TStruct fs) = fold max (map (\<lambda>p. height rk env (snd p)) fs) 0"
| "height rk env (TNamed n) = (if isStructDef env n then 0 else Suc (rk n))"
| "height rk env _ = 0"

text \<open>Every cycle of types passes through a named struct: the other defined types have ranks that go down.\<close>

definition guardedTypes :: "(nat \<Rightarrow> nat) \<Rightarrow> tyenv \<Rightarrow> nat set \<Rightarrow> bool" where
  "guardedTypes rk env D \<longleftrightarrow>
     finite D \<and> goEnv env \<and>
     (\<forall>n\<in>D. tdName (env n) \<noteq> [] \<and> namedIn (tdUnder (env n)) \<subseteq> D \<and>
        (\<not> isStructDef env n \<longrightarrow> height rk env (tdUnder (env n)) \<le> rk n))"

lemma fold_max_ge: "x \<in> set xs \<Longrightarrow> (x :: nat) \<le> fold max xs a"
proof (induction xs arbitrary: a)
  case (Cons y xs)
  have mono: "a \<le> fold max xs a" for a :: nat
  proof (induction xs arbitrary: a)
    case (Cons z xs)
    then show ?case using le_trans [OF _ Cons.IH [of "max z a"]] by simp
  qed simp
  show ?case using Cons le_trans [OF _ mono [of "max y a"]] by auto
qed simp

text \<open>What a type is made of is smaller than the type, unless the type is a named struct.\<close>

abbreviation smaller :: "(nat \<Rightarrow> nat) \<Rightarrow> tyenv \<Rightarrow> gotype \<Rightarrow> gotype \<Rightarrow> bool" where
  "smaller rk env t u \<equiv>
     height rk env t < height rk env u \<or> (height rk env t = height rk env u \<and> size t < size u)"

lemma field_size: "p \<in> set fs \<Longrightarrow> size (snd p) < size (TStruct fs)"
  by (induction fs) (auto simp: less_Suc_eq_le intro: le_SucI)

lemma field_height: "p \<in> set fs \<Longrightarrow> height rk env (snd p) \<le> height rk env (TStruct fs)"
  by (auto intro: fold_max_ge)

lemma part_smaller:
  assumes "guardedTypes rk env D" "namedIn t \<subseteq> D" "\<And>n. t = TNamed n \<Longrightarrow> \<not> isStructDef env n"
    and "underlying env t = u" "height rk env e \<le> height rk env u" "size e < size u" "namedIn e \<subseteq> namedIn u"
  shows "smaller rk env e t \<and> namedIn e \<subseteq> D"
proof (cases "\<exists>n. t = TNamed n")
  case True
  then obtain n where n: "t = TNamed n" "n \<in> D" "\<not> isStructDef env n" using assms(2,3) by auto
  then have "height rk env u \<le> rk n" "namedIn u \<subseteq> D" using assms(1,4) by (auto simp: guardedTypes_def)
  then show ?thesis using assms(5,7) n by auto
next
  case False
  then have "u = t" using assms(4) by (cases t) simp_all
  then show ?thesis using assms(2,5-7) by auto
qed

lemma elem_smaller:
  assumes "guardedTypes rk env D" "namedIn t \<subseteq> D" "underlying env t \<in> {TSlice e, TArray e, TMap e, TPtr e}"
  shows "smaller rk env e t \<and> namedIn e \<subseteq> D"
  using assms by (intro part_smaller [OF assms(1,2) _ refl]) (auto simp: isStructDef_def)

lemma deref_result: "deref fuel env t = Some u \<Longrightarrow> \<nexists>e. underlying env u = TPtr e"
  by (induction fuel arbitrary: t) (auto split: gotype.splits)

lemma deref_total:
  assumes "guardedTypes rk env D"
  shows "namedIn t \<subseteq> D \<Longrightarrow> \<exists>fuel u. deref fuel env t = Some u \<and> namedIn u \<subseteq> D \<and> (u = t \<or> smaller rk env u t)"
proof (induction t rule: wf_induct_rule [OF wf_measures [of "[height rk env, size]"]])
  case (1 t)
  show ?case
  proof (cases "\<exists>e. underlying env t = TPtr e")
    case True
    then obtain e where e: "underlying env t = TPtr e" by blast
    then have s: "smaller rk env e t" "namedIn e \<subseteq> D" using elem_smaller [OF assms 1(2), of e] by auto
    then obtain fuel u where u: "deref fuel env e = Some u" "namedIn u \<subseteq> D" "u = e \<or> smaller rk env u e"
      using 1(1) [of e] by (auto simp: measures_def)
    have "deref (Suc fuel) env t = Some u" using e u(1) by simp
    moreover have "smaller rk env u t" using s(1) u(3) by auto
    ultimately show ?thesis using u(2) by blast
  next
    case False
    then have "deref (Suc 0) env t = Some t" by (auto split: gotype.splits)
    then show ?thesis using 1(2) by blast
  qed
qed

lemma structFields_total:
  assumes "\<And>p c. p \<in> set fs \<Longrightarrow> names comps \<subseteq> names c \<Longrightarrow> \<exists>fuel r. schemaFor fuel env (snd p) c = Some r"
  shows "\<exists>fuel r. structFields (schemaFor fuel env) env fs props req comps = Some r"
  using assms
proof (induction fs arbitrary: props req comps)
  case (Cons ft fs)
  obtain f t where ft: "ft = (f, t)" by force
  obtain name om where n: "jsonField f = (name, om)" by force
  show ?case
  proof (cases "\<not> fiExported f \<or> name = ''-''")
    case True
    then show ?thesis using Cons.IH [of comps props req] Cons.prems ft n by auto
  next
    case False
    obtain fuel1 s c1 where g: "schemaFor fuel1 env t comps = Some (s, c1)"
      using Cons.prems [of ft comps] ft by auto
    have "names comps \<subseteq> names c1" using sg.gen_grows [OF g] by (simp add: compsGrow_def)
    then obtain fuel2 r where r: "structFields (schemaFor fuel2 env) env fs (AList.update name s props)
        (if \<not> om \<and> \<not> isPointer env t then req @ [name] else req) c1 = Some r"
      using Cons.IH [of c1 "AList.update name s props"] Cons.prems by fastforce
    let ?fuel = "max fuel1 fuel2"
    have "structFields (schemaFor ?fuel env) env fs (AList.update name s props)
        (if \<not> om \<and> \<not> isPointer env t then req @ [name] else req) c1 = Some r"
      by (rule structFields_mono [OF _ r]) (rule schemaFor_mono, assumption, simp)
    moreover have "schemaFor ?fuel env t comps = Some (s, c1)" by (rule schemaFor_mono [OF g]) simp
    ultimately show ?thesis using False ft n by (intro exI [of _ ?fuel] exI [of _ r]) simp
  qed
qed simp

lemma structSchema_total:
  assumes "\<And>p c. p \<in> set fs \<Longrightarrow> names comps \<subseteq> names c \<Longrightarrow> \<exists>fuel r. schemaFor fuel env (snd p) c = Some r"
  shows "\<exists>fuel r. structSchema (schemaFor fuel env) env fs comps = Some r"
  using structFields_total [OF assms, where props = "[]" and req = "[]"]
  by (fastforce simp: structSchema_def split: option.splits)

text \<open>The struct names that are still to be described.\<close>

definition openNames :: "tyenv \<Rightarrow> nat set \<Rightarrow> components \<Rightarrow> nat" where
  "openNames env D comps = card ((\<lambda>n. tdName (env n)) ` D - names comps)"

lemma openNames_mono: "finite D \<Longrightarrow> names c \<subseteq> names c' \<Longrightarrow> openNames env D c' \<le> openNames env D c"
  unfolding openNames_def by (intro card_mono) auto

lemma openNames_less:
  assumes "finite D" "n \<in> D" "tdName (env n) \<notin> names c" "insert (tdName (env n)) (names c) \<subseteq> names c'"
  shows "openNames env D c' < openNames env D c"
  unfolding openNames_def
proof (rule psubset_card_mono)
  show "finite ((\<lambda>n. tdName (env n)) ` D - names c)" using assms(1) by simp
  show "(\<lambda>n. tdName (env n)) ` D - names c' \<subset> (\<lambda>n. tdName (env n)) ` D - names c"
    using assms(2-4) by blast
qed

lemma schemaOf_struct_total:
  assumes G: "guardedTypes rk env D" and u: "namedIn u \<subseteq> D" and st: "underlying env u = TStruct fs"
    and small: "\<And>e c. smaller rk env e u \<Longrightarrow> namedIn e \<subseteq> D \<Longrightarrow> openNames env D c \<le> openNames env D comps \<Longrightarrow>
        \<exists>fuel r. schemaFor fuel env e c = Some r"
    and fresh: "\<And>e c. namedIn e \<subseteq> D \<Longrightarrow> openNames env D c < openNames env D comps \<Longrightarrow>
        \<exists>fuel r. schemaFor fuel env e c = Some r"
  shows "\<exists>fuel r. schemaOf (schemaFor fuel env) env u comps = Some r"
proof -
  have fin: "finite D" using G by (simp add: guardedTypes_def)
  show ?thesis
  proof (cases "\<exists>n. u = TNamed n")
    case True
    then obtain n where n: "u = TNamed n" "n \<in> D" "tdName (env n) \<noteq> []" "namedIn (TStruct fs) \<subseteq> D"
      using u G st by (fastforce simp: guardedTypes_def)
    let ?c = "AList.update (tdName (env n)) emptySchema comps"
    show ?thesis
    proof (cases "map_of comps (tdName (env n))")
      case None
      then have o: "openNames env D c < openNames env D comps" if "names ?c \<subseteq> names c" for c
        using openNames_less [OF fin n(2), where env = env and c = comps and c' = c] that by (auto simp: names_def update_conv')
      have "\<exists>fuel r. structSchema (schemaFor fuel env) env fs ?c = Some r"
        by (rule structSchema_total) (use fresh o n(4) in fastforce)
      then show ?thesis
        using None n st by (fastforce simp: schemaOf_def typeName_def Let_def split: option.splits)
    qed (use n st in \<open>simp add: schemaOf_def typeName_def\<close>)
  next
    case False
    then have u': "u = TStruct fs" using st by (cases u) simp_all
    have "\<exists>fuel r. structSchema (schemaFor fuel env) env fs comps = Some r"
    proof (rule structSchema_total)
      fix p c
      assume p: "p \<in> set fs" and c: "names comps \<subseteq> names c"
      have "smaller rk env (snd p) u" using field_size [OF p] field_height [OF p, of rk env] u' by auto
      then show "\<exists>fuel r. schemaFor fuel env (snd p) c = Some r"
        using small openNames_mono [OF fin c] u u' p by fastforce
    qed
    then show ?thesis using u' by (simp add: schemaOf_def typeName_def)
  qed
qed

lemma schemaOf_total:
  assumes G: "guardedTypes rk env D" and u: "namedIn u \<subseteq> D" "\<nexists>e. underlying env u = TPtr e"
    and small: "\<And>e c. smaller rk env e u \<Longrightarrow> namedIn e \<subseteq> D \<Longrightarrow> openNames env D c \<le> openNames env D comps \<Longrightarrow>
        \<exists>fuel r. schemaFor fuel env e c = Some r"
    and fresh: "\<And>e c. namedIn e \<subseteq> D \<Longrightarrow> openNames env D c < openNames env D comps \<Longrightarrow>
        \<exists>fuel r. schemaFor fuel env e c = Some r"
  shows "\<exists>fuel r. schemaOf (schemaFor fuel env) env u comps = Some r"
proof -
  have elem: "\<exists>fuel r. schemaFor fuel env e comps = Some r" if "underlying env u \<in> {TSlice e, TArray e, TMap e, TPtr e}" for e
    using small [of e comps] elem_smaller [OF G u(1) that] by simp
  show ?thesis
  proof (cases "underlying env u")
    case (TSlice e)
    then obtain fuel s c where "schemaFor fuel env e comps = Some (s, c)" using elem [of e] by auto
    then show ?thesis using TSlice by (intro exI [of _ fuel]) (simp add: schemaOf_def)
  next
    case (TArray e)
    then obtain fuel s c where "schemaFor fuel env e comps = Some (s, c)" using elem [of e] by auto
    then show ?thesis using TArray by (intro exI [of _ fuel]) (simp add: schemaOf_def)
  next
    case (TMap e)
    then obtain fuel s c where "schemaFor fuel env e comps = Some (s, c)" using elem [of e] by auto
    then show ?thesis using TMap by (intro exI [of _ fuel]) (simp add: schemaOf_def)
  next
    case (TStruct fs)
    show ?thesis by (rule schemaOf_struct_total [OF G u(1) TStruct small fresh])
  qed (use u(2) in \<open>auto simp: schemaOf_def\<close>)
qed

lemma schemaFor_total:
  assumes G: "guardedTypes rk env D"
  shows "namedIn t \<subseteq> D \<Longrightarrow> \<exists>fuel r. schemaFor fuel env t comps = Some r"
proof (induction "(t, comps)" arbitrary: t comps
    rule: wf_induct_rule [OF wf_measures [of "[\<lambda>(t, c). openNames env D c, \<lambda>(t, c). height rk env t, \<lambda>(t, c). size t]"]])
  case (1 t comps)
  have IH: "\<exists>fuel r. schemaFor fuel env e c = Some r"
    if "namedIn e \<subseteq> D" "openNames env D c < openNames env D comps \<or> (openNames env D c \<le> openNames env D comps \<and> smaller rk env e t)"
    for e c
    using that 1(1) [of e c] by (auto simp: le_less)
  obtain fuel1 u where u: "deref fuel1 env t = Some u" "namedIn u \<subseteq> D" "u = t \<or> smaller rk env u t"
    using deref_total [OF G 1(2)] by blast
  have "\<exists>fuel r. schemaOf (schemaFor fuel env) env u comps = Some r"
  proof (rule schemaOf_total [OF G u(2)])
    show "\<nexists>e. underlying env u = TPtr e" by (rule deref_result [OF u(1)])
  qed (use IH u(3) in \<open>fastforce+\<close>)
  then obtain fuel2 r where r: "schemaOf (schemaFor fuel2 env) env u comps = Some r" by blast
  let ?fuel = "max fuel1 fuel2"
  have "deref ?fuel env t = Some u" by (rule deref_mono [OF u(1)]) simp
  moreover have "schemaOf (schemaFor ?fuel env) env u comps = Some r"
    by (rule schemaOf_mono [OF _ r]) (rule schemaFor_mono, assumption, simp)
  ultimately have "schemaFor (Suc ?fuel) env t comps = Some r" by (simp add: schemaFor.simps(2))
  then show ?case by blast
qed

text \<open>A type that is a slice of itself, or a pointer to itself, has no schema: the generator never returns.\<close>

lemma slice_of_itself:
  assumes "tdUnder (env n) = TSlice (TNamed n)"
  shows "schemaFor fuel env (TNamed n) comps = None"
proof (induction fuel)
  case (Suc fuel)
  have "deref fuel env (TNamed n) = None \<or> deref fuel env (TNamed n) = Some (TNamed n)"
    by (cases fuel) (simp_all add: assms)
  with Suc show ?case using assms by (auto simp: schemaFor.simps(2) schemaOf_def)
qed (simp add: schemaFor.simps(1))

lemma pointer_to_itself: "tdUnder (env n) = TPtr (TNamed n) \<Longrightarrow> schemaFor fuel env (TNamed n) comps = None"
proof -
  assume p: "tdUnder (env n) = TPtr (TNamed n)"
  have "deref k env (TNamed n) = None" for k by (induction k) (simp_all add: p)
  then show ?thesis by (cases fuel) (simp_all add: schemaFor.simps)
qed

text \<open>Two structs of the same name, from different packages, share one component: the second is described by
  the schema of the first.\<close>

lemma same_name_shares_component:
  assumes "tdName (env m) = tdName (env n)" "tdName (env m) \<noteq> []" "tdUnder (env m) = TStruct fs" "tdUnder (env n) = TStruct gs"
    and "schemaFor fuel env (TNamed m) [] = Some (s, comps)"
  shows "schemaFor (Suc (Suc k)) env (TNamed n) comps = Some (s, comps)"
proof -
  obtain j where fuel: "fuel = Suc (Suc j)" using assms(5) by (cases fuel; cases "fuel - 1") (auto simp: schemaFor.simps)
  have "s = refSchema (tdName (env m)) \<and> tdName (env m) \<in> names comps"
    using assms(2,3,5) unfolding fuel
    by (auto simp: schemaFor.simps(2) schemaOf_def typeName_def Let_def split: option.splits)
  then show ?thesis
    using assms(1,2,4) by (auto simp: schemaFor.simps(2) schemaOf_def typeName_def names_def)
qed

end
