(* ===== verification/OpenAPI.thy ===== *)
theory OpenAPI
  imports Schema RouterProps
begin

text \<open>
  The OpenAPI document (\<^verbatim>\<open>openapi.go\<close>): operations from route metadata, paths from patterns, and the
  endpoint that serves the document.  JSON objects are association lists; \<^verbatim>\<open>json.MarshalIndent\<close> is an
  argument.  The generator takes the fuel of \<^verbatim>\<open>schemaFor\<close>; \<open>document_exists\<close> shows that enough exists.
\<close>

section \<open>Documents\<close>

record requestBody =
  rbContent :: "(string \<times> schema) list"
  rbRequired :: bool

record oaResponse =
  orDescription :: string
  orContent :: "(string \<times> schema) list"

record operation =
  opSummary :: string
  opDescription :: string
  opTags :: "string list"
  opParameters :: "parameter list"
  opRequestBody :: "requestBody option"
  opResponses :: "(string \<times> oaResponse) list"

record openAPIDoc =
  oaVersion :: string
  oaTitle :: string
  oaInfoVersion :: string
  oaPaths :: "(string \<times> (string \<times> operation) list) list"
  oaComponents :: "components option"

definition DefaultOpenAPIPath :: string where
  "DefaultOpenAPIPath = ''/openapi.json''"

section \<open>Operations\<close>

definition openAPIPath :: "string \<Rightarrow> string" where
  "openAPIPath path =
     joinStrings ''/'' (map (\<lambda>s. if isParamSegment s then ''{'' @ tl s @ ''}'' else s) (splitOn (CHR ''/'') path))"

definition pathParameter :: "string \<Rightarrow> parameter" where
  "pathParameter p = \<lparr>pmName = p, pmIn = ''path'', pmRequired = True, pmSchema = typeSchema ''string''\<rparr>"

definition jsonContent :: "schema \<Rightarrow> (string \<times> schema) list" where
  "jsonContent s = [(''application/json'', s)]"

text \<open>The loop over the documented responses.\<close>

fun responsesFor ::
    "(gotype \<Rightarrow> components \<Rightarrow> (schema \<times> components) option) \<Rightarrow> (int \<times> responseMeta) list \<Rightarrow> components \<Rightarrow>
     ((string \<times> oaResponse) list \<times> components) option" where
  "responsesFor gen [] comps = Some ([], comps)"
| "responsesFor gen ((code, meta) # ms) comps =
     (case (case rmType meta of
              None \<Rightarrow> Some ([], comps)
            | Some t \<Rightarrow> map_option (\<lambda>(s, c). (jsonContent s, c)) (gen t comps)) of
        None \<Rightarrow> None
      | Some (content, comps1) \<Rightarrow>
          (case responsesFor gen ms comps1 of
             None \<Rightarrow> None
           | Some (rs, comps2) \<Rightarrow>
               Some ((itoa code, \<lparr>orDescription = rmDescription meta, orContent = content\<rparr>) # rs, comps2)))"

definition routeOperation :: "nat \<Rightarrow> tyenv \<Rightarrow> route \<Rightarrow> components \<Rightarrow> (operation \<times> components) option" where
  "routeOperation fuel env rt comps =
     (case (case roQueryType rt of None \<Rightarrow> Some ([], comps) | Some t \<Rightarrow> queryParams fuel env t comps) of
        None \<Rightarrow> None
      | Some (queries, comps1) \<Rightarrow>
          (case (case roBodyType rt of
                   None \<Rightarrow> Some (None, comps1)
                 | Some t \<Rightarrow>
                     map_option (\<lambda>(s, c). (Some \<lparr>rbContent = jsonContent s, rbRequired = True\<rparr>, c))
                       (schemaFor fuel env t comps1)) of
             None \<Rightarrow> None
           | Some (body, comps2) \<Rightarrow>
               (case responsesFor (schemaFor fuel env) (roResponses rt) comps2 of
                  None \<Rightarrow> None
                | Some (rs, comps3) \<Rightarrow>
                    Some (\<lparr>opSummary = roSummary rt, opDescription = roDescription rt, opTags = roTags rt,
                           opParameters = map pathParameter (roPathParams rt) @ queries,
                           opRequestBody = body,
                           opResponses = (if rs = [] then [(''200'', \<lparr>orDescription = ''OK'', orContent = []\<rparr>)] else rs)\<rparr>,
                          comps3))))"

section \<open>The document\<close>

definition addOperation ::
    "string \<Rightarrow> string \<Rightarrow> operation \<Rightarrow> (string \<times> (string \<times> operation) list) list \<Rightarrow>
     (string \<times> (string \<times> operation) list) list" where
  "addOperation tmpl verb opn paths =
     (let item = (case map_of paths tmpl of None \<Rightarrow> [] | Some i \<Rightarrow> i)
      in AList.update tmpl (AList.update verb opn item) paths)"

fun buildPaths ::
    "nat \<Rightarrow> tyenv \<Rightarrow> route list \<Rightarrow> (string \<times> (string \<times> operation) list) list \<Rightarrow> components \<Rightarrow>
     ((string \<times> (string \<times> operation) list) list \<times> components) option" where
  "buildPaths fuel env [] paths comps = Some (paths, comps)"
| "buildPaths fuel env (rt # rts) paths comps =
     (if roHidden rt then buildPaths fuel env rts paths comps
      else case routeOperation fuel env rt comps of
             None \<Rightarrow> None
           | Some (opn, comps') \<Rightarrow>
               buildPaths fuel env rts (addOperation (openAPIPath (roPath rt)) (toLower (roMethod rt)) opn paths) comps')"

definition buildOpenAPI :: "nat \<Rightarrow> tyenv \<Rightarrow> router \<Rightarrow> openAPIDoc option" where
  "buildOpenAPI fuel env r =
     map_option (\<lambda>(paths, comps).
         \<lparr>oaVersion = ''3.1.0'', oaTitle = ''goXpress API'', oaInfoVersion = ''0.1.0'', oaPaths = paths,
          oaComponents = (if comps = [] then None else Some comps)\<rparr>)
       (buildPaths fuel env (rtRoutes r) [] [])"

text \<open>\<^verbatim>\<open>Router.OpenAPI\<close>; the outer \<open>None\<close> is a generator or a registration that does not end.\<close>

definition docHandler :: "string \<Rightarrow> handler" where
  "docHandler data = Effect (\<lambda>c. snd (cx_Blob 200 MIMEJSON data c)) (\<lambda>c. Return (fst (cx_Blob 200 MIMEJSON data c)))"

definition rt_OpenAPI :: "(openAPIDoc \<Rightarrow> string) \<Rightarrow> nat \<Rightarrow> tyenv \<Rightarrow> router \<Rightarrow> (gopanic + router) option" where
  "rt_OpenAPI marshal fuel env r =
     (case buildOpenAPI fuel env r of
        None \<Rightarrow> None
      | Some doc \<Rightarrow>
          (case rt_Get DefaultOpenAPIPath [docHandler (marshal doc)] r of
             None \<Rightarrow> None
           | Some (Inl e) \<Rightarrow> Some (Inl e)
           | Some (Inr r') \<Rightarrow> Some (Inr (hideLast r'))))"

section \<open>References\<close>

text \<open>The schemas that occur in an operation, in the paths, in a document.\<close>

definition opSchemas :: "operation \<Rightarrow> schema set" where
  "opSchemas opn =
     pmSchema ` set (opParameters opn) \<union>
     (case opRequestBody opn of None \<Rightarrow> {} | Some b \<Rightarrow> snd ` set (rbContent b)) \<union>
     (\<Union>p\<in>set (opResponses opn). snd ` set (orContent (snd p)))"

definition pathSchemas :: "(string \<times> (string \<times> operation) list) list \<Rightarrow> schema set" where
  "pathSchemas paths = (\<Union>p\<in>set paths. \<Union>q\<in>set (snd p). opSchemas (snd q))"

definition docComponents :: "openAPIDoc \<Rightarrow> components" where
  "docComponents doc = (case oaComponents doc of None \<Rightarrow> [] | Some c \<Rightarrow> c)"

definition refsIn :: "components \<Rightarrow> schema set \<Rightarrow> bool" where
  "refsIn comps S \<longleftrightarrow> (\<forall>s\<in>S. refsOf s \<subseteq> refNames comps)"

lemma refsIn_grows: "refsIn c S \<Longrightarrow> compsGrow c c' \<Longrightarrow> refsIn c' S"
  unfolding refsIn_def using refNames_grows by blast

lemma refsIn_simps [simp]:
  "refsIn c {}" "refsIn c (S \<union> T) \<longleftrightarrow> refsIn c S \<and> refsIn c T" "refsIn c (insert s S) \<longleftrightarrow> refsOf s \<subseteq> refNames c \<and> refsIn c S"
  by (auto simp: refsIn_def)

context schema_generator
begin

lemma responsesFor_closed:
  "responsesFor gen ms comps = Some (rs, comps') \<Longrightarrow> refsClosed comps \<Longrightarrow>
   refsClosed comps' \<and> compsGrow comps comps' \<and> refsIn comps' (\<Union>p\<in>set rs. snd ` set (orContent (snd p)))"
proof (induction ms arbitrary: comps rs)
  case (Cons m ms)
  obtain code meta where m: "m = (code, meta)" by force
  obtain content c1 rs' where
    c: "(case rmType meta of None \<Rightarrow> Some ([], comps)
         | Some t \<Rightarrow> map_option (\<lambda>(s, c). (jsonContent s, c)) (gen t comps)) = Some (content, c1)"
    and r: "responsesFor gen ms c1 = Some (rs', comps')"
    and rs: "rs = (itoa code, \<lparr>orDescription = rmDescription meta, orContent = content\<rparr>) # rs'"
    using Cons.prems(1) m by (auto split: option.splits)
  have "refsClosed c1 \<and> compsGrow comps c1 \<and> refsIn c1 (snd ` set content)"
    using c Cons.prems(2) gen_closed gen_grows
    by (fastforce simp: jsonContent_def split: option.splits)
  then show ?case
    using Cons.IH [OF r] rs compsGrow_trans refsIn_grows by auto
qed simp

end

lemma queryParams_closed:
  assumes "queryParams fuel env t comps = Some (ps, comps')" "refsClosed comps"
  shows "refsClosed comps' \<and> compsGrow comps comps' \<and> refsIn comps' (pmSchema ` set ps)"
  using assms sg.queryFields_closed [of fuel env _ comps ps comps']
  by (auto simp: queryParams_def refsIn_def split: option.splits gotype.splits)

lemma routeOperation_closed:
  assumes "routeOperation fuel env rt comps = Some (opn, comps')" "refsClosed comps"
  shows "refsClosed comps' \<and> compsGrow comps comps' \<and> refsIn comps' (opSchemas opn)"
proof -
  obtain queries c1 body c2 rs where
    q: "(case roQueryType rt of None \<Rightarrow> Some ([], comps) | Some t \<Rightarrow> queryParams fuel env t comps) = Some (queries, c1)"
    and b: "(case roBodyType rt of None \<Rightarrow> Some (None, c1)
        | Some t \<Rightarrow> map_option (\<lambda>(s, c). (Some \<lparr>rbContent = jsonContent s, rbRequired = True\<rparr>, c))
            (schemaFor fuel env t c1)) = Some (body, c2)"
    and r: "responsesFor (schemaFor fuel env) (roResponses rt) c2 = Some (rs, comps')"
    and opn: "opParameters opn = map pathParameter (roPathParams rt) @ queries" "opRequestBody opn = body"
      "opResponses opn = (if rs = [] then [(''200'', \<lparr>orDescription = ''OK'', orContent = []\<rparr>)] else rs)"
    using assms(1) unfolding routeOperation_def by (auto split: option.splits)
  have 1: "refsClosed c1 \<and> compsGrow comps c1 \<and> refsIn c1 (pmSchema ` set queries)"
    using q assms(2) queryParams_closed by (auto split: option.splits)
  then have 2: "refsClosed c2 \<and> compsGrow c1 c2 \<and>
      refsIn c2 (case body of None \<Rightarrow> {} | Some x \<Rightarrow> snd ` set (rbContent x))"
    using b sg.gen_closed [of fuel env _ c1] sg.gen_grows [of fuel env _ c1]
    by (auto simp: jsonContent_def split: option.splits)
  then have 3: "refsClosed comps' \<and> compsGrow c2 comps' \<and> refsIn comps' (\<Union>p\<in>set rs. snd ` set (orContent (snd p)))"
    using sg.responsesFor_closed [OF r] by blast
  have "refsIn comps' (pmSchema ` set queries)" "refsIn comps' (case body of None \<Rightarrow> {} | Some x \<Rightarrow> snd ` set (rbContent x))"
    using 1 2 3 refsIn_grows compsGrow_trans by blast+
  moreover have "refsIn comps' (pmSchema ` pathParameter ` set (roPathParams rt))"
    by (auto simp: refsIn_def pathParameter_def)
  ultimately show ?thesis
    using 1 2 3 compsGrow_trans unfolding opSchemas_def opn by (auto simp: image_Un)
qed

lemma pathSchemas_add:
  "pathSchemas (addOperation tmpl verb opn paths) \<subseteq> opSchemas opn \<union> pathSchemas paths"
proof -
  let ?item = "case map_of paths tmpl of None \<Rightarrow> [] | Some i \<Rightarrow> i"
  have "(\<Union>q\<in>set ?item. opSchemas (snd q)) \<subseteq> pathSchemas paths"
  proof (cases "map_of paths tmpl")
    case (Some i)
    then have "(tmpl, i) \<in> set paths" by (rule map_of_SomeD)
    from SUP_upper [OF this, of "\<lambda>p. \<Union>q\<in>set (snd p). opSchemas (snd q)"]
    show ?thesis by (simp add: pathSchemas_def Some)
  qed simp
  moreover have "(\<Union>q\<in>set (AList.update verb opn ?item). opSchemas (snd q)) \<subseteq>
      opSchemas opn \<union> (\<Union>q\<in>set ?item. opSchemas (snd q))"
    using set_update [of verb opn ?item] by fastforce
  moreover have "pathSchemas (AList.update tmpl i paths) \<subseteq> (\<Union>q\<in>set i. opSchemas (snd q)) \<union> pathSchemas paths" for i
    using set_update [of tmpl i paths] by (fastforce simp: pathSchemas_def)
  ultimately have "pathSchemas (AList.update tmpl (AList.update verb opn ?item) paths) \<subseteq>
      (opSchemas opn \<union> pathSchemas paths) \<union> pathSchemas paths"
    by (meson Un_mono order_refl order_trans)
  then show ?thesis unfolding addOperation_def Let_def by simp
qed

lemma buildPaths_closed:
  "buildPaths fuel env rts paths comps = Some (paths', comps') \<Longrightarrow> refsClosed comps \<Longrightarrow> refsIn comps (pathSchemas paths) \<Longrightarrow>
   refsClosed comps' \<and> compsGrow comps comps' \<and> refsIn comps' (pathSchemas paths')"
proof (induction rts arbitrary: paths comps)
  case (Cons rt rts)
  show ?case
  proof (cases "roHidden rt")
    case True
    then show ?thesis using Cons by simp
  next
    case False
    then obtain opn c1 where o: "routeOperation fuel env rt comps = Some (opn, c1)"
      and r: "buildPaths fuel env rts (addOperation (openAPIPath (roPath rt)) (toLower (roMethod rt)) opn paths) c1 = Some (paths', comps')"
      using Cons.prems(1) by (auto split: option.splits)
    have c1: "refsClosed c1" "compsGrow comps c1" "refsIn c1 (opSchemas opn)"
      using routeOperation_closed [OF o Cons.prems(2)] by auto
    have "refsIn c1 (pathSchemas (addOperation (openAPIPath (roPath rt)) (toLower (roMethod rt)) opn paths))"
      using c1(3) refsIn_grows [OF Cons.prems(3) c1(2)] pathSchemas_add unfolding refsIn_def by blast
    then show ?thesis using Cons.IH [OF r c1(1)] compsGrow_trans [OF c1(2)] by blast
  qed
qed simp

section \<open>Enough fuel\<close>

lemma queryFields_mono:
  assumes "\<And>t c r. gen t c = Some r \<Longrightarrow> gen' t c = Some r"
  shows "queryFields gen fs comps = Some r \<Longrightarrow> queryFields gen' fs comps = Some r"
proof (induction fs arbitrary: comps r)
  case (Cons ft fs)
  obtain f t where ft: "ft = (f, t)" by force
  show ?case
  proof (cases "\<not> fiExported f \<or> tagGet ''query'' f = ''-''")
    case True
    then show ?thesis using Cons ft by (simp add: Let_def)
  next
    case False
    then obtain s c1 ps c2 where "gen t comps = Some (s, c1)" "queryFields gen fs c1 = Some (ps, c2)"
      using Cons.prems ft by (auto simp: Let_def split: option.splits)
    then show ?thesis using Cons.prems False ft assms Cons.IH by (simp add: Let_def)
  qed
qed simp

lemma queryParams_mono:
  assumes "queryParams fuel env t comps = Some r" "fuel \<le> fuel'"
  shows "queryParams fuel' env t comps = Some r"
proof -
  obtain u where u: "deref fuel env t = Some u" using assms(1) by (auto simp: queryParams_def split: option.splits)
  have d: "deref fuel' env t = Some u" by (rule deref_mono [OF u assms(2)])
  show ?thesis
  proof (cases "underlying env u")
    case (TStruct fs)
    have "queryFields (schemaFor fuel env) fs comps = Some r" using assms(1) u TStruct by (simp add: queryParams_def)
    then have "queryFields (schemaFor fuel' env) fs comps = Some r"
      by (rule queryFields_mono [rotated]) (rule schemaFor_mono [OF _ assms(2)])
    then show ?thesis using d TStruct by (simp add: queryParams_def)
  qed (use assms(1) u d in \<open>simp_all add: queryParams_def\<close>)
qed

lemma responsesFor_mono:
  assumes "\<And>t c r. gen t c = Some r \<Longrightarrow> gen' t c = Some r"
  shows "responsesFor gen ms comps = Some r \<Longrightarrow> responsesFor gen' ms comps = Some r"
proof (induction ms arbitrary: comps r)
  case (Cons m ms)
  then show ?case by (cases m) (fastforce split: option.splits dest: assms)
qed simp

lemma queryFields_total:
  assumes "\<And>p c. p \<in> set fs \<Longrightarrow> \<exists>fuel r. schemaFor fuel env (snd p) c = Some r"
  shows "\<exists>fuel r. queryFields (schemaFor fuel env) fs comps = Some r"
  using assms
proof (induction fs arbitrary: comps)
  case (Cons ft fs)
  obtain f t where ft: "ft = (f, t)" by force
  obtain fuel1 s c1 where g: "schemaFor fuel1 env t comps = Some (s, c1)" using Cons.prems [of ft comps] ft by auto
  obtain fuel2 ps c2 where q: "queryFields (schemaFor fuel2 env) fs c1 = Some (ps, c2)"
    using Cons.IH [of c1] Cons.prems by auto
  obtain fuel3 r where s: "queryFields (schemaFor fuel3 env) fs comps = Some r"
    using Cons.IH [of comps] Cons.prems by auto
  let ?f = "max fuel1 (max fuel2 fuel3)"
  have "schemaFor ?f env t comps = Some (s, c1)" by (rule schemaFor_mono [OF g]) simp
  moreover have "queryFields (schemaFor ?f env) fs c1 = Some (ps, c2)"
    by (rule queryFields_mono [OF _ q]) (rule schemaFor_mono, assumption, simp)
  moreover have "queryFields (schemaFor ?f env) fs comps = Some r"
    by (rule queryFields_mono [OF _ s]) (rule schemaFor_mono, assumption, simp)
  ultimately show ?case using ft by (intro exI [of _ ?f]) (simp add: Let_def)
qed simp

lemma queryParams_total:
  assumes "guardedTypes rk env D" "namedIn t \<subseteq> D"
  shows "\<exists>fuel r. queryParams fuel env t comps = Some r"
proof -
  obtain fuel1 u where u: "deref fuel1 env t = Some u" "namedIn u \<subseteq> D" using deref_total [OF assms] by blast
  show ?thesis
  proof (cases "underlying env u")
    case (TStruct fs)
    have "namedIn (TStruct fs) \<subseteq> D"
    proof (cases "\<exists>n. u = TNamed n")
      case True
      then show ?thesis using u(2) assms(1) TStruct by (fastforce simp: guardedTypes_def)
    next
      case False
      then show ?thesis using u(2) TStruct by (cases u) simp_all
    qed
    then obtain fuel2 r where q: "queryFields (schemaFor fuel2 env) fs comps = Some r"
      using queryFields_total [of fs env] schemaFor_total [OF assms(1)] by fastforce
    have "queryFields (schemaFor (max fuel1 fuel2) env) fs comps = Some r"
      by (rule queryFields_mono [OF _ q]) (rule schemaFor_mono, assumption, simp)
    moreover have "deref (max fuel1 fuel2) env t = Some u" by (rule deref_mono [OF u(1)]) simp
    ultimately show ?thesis using TStruct by (intro exI [of _ "max fuel1 fuel2"]) (simp add: queryParams_def)
  qed (use u(1) in \<open>auto simp: queryParams_def intro!: exI [of _ fuel1]\<close>)
qed

lemma responsesFor_total:
  assumes "\<And>m t c. m \<in> set ms \<Longrightarrow> rmType (snd m) = Some t \<Longrightarrow> \<exists>fuel r. schemaFor fuel env t c = Some r"
  shows "\<exists>fuel r. responsesFor (schemaFor fuel env) ms comps = Some r"
  using assms
proof (induction ms arbitrary: comps)
  case (Cons m ms)
  obtain code meta where m: "m = (code, meta)" by force
  let ?content = "\<lambda>fuel. case rmType meta of None \<Rightarrow> Some ([], comps)
    | Some t \<Rightarrow> map_option (\<lambda>(s, c). (jsonContent s, c)) (schemaFor fuel env t comps)"
  obtain fuel1 content c1 where c: "\<And>f. fuel1 \<le> f \<Longrightarrow> ?content f = Some (content, c1)"
  proof (cases "rmType meta")
    case (Some t)
    then obtain fuel s c where "schemaFor fuel env t comps = Some (s, c)" using Cons.prems [of m t comps] m by auto
    then have "schemaFor f env t comps = Some (s, c)" if "fuel \<le> f" for f using schemaFor_mono that by blast
    then show ?thesis using Some that [of fuel "jsonContent s" c] by simp
  qed (use that in simp)
  obtain fuel2 rs c2 where r: "responsesFor (schemaFor fuel2 env) ms c1 = Some (rs, c2)"
    using Cons.IH [of c1] Cons.prems by fastforce
  let ?f = "max fuel1 fuel2"
  have "responsesFor (schemaFor ?f env) ms c1 = Some (rs, c2)"
    by (rule responsesFor_mono [OF _ r]) (rule schemaFor_mono, assumption, simp)
  moreover have "?content ?f = Some (content, c1)" by (rule c) simp
  ultimately show ?case using m by (intro exI [of _ ?f]) (simp del: max.absorb1 max.absorb2)
qed simp

text \<open>The types in the metadata of a route.\<close>

definition routeTypes :: "route \<Rightarrow> gotype set" where
  "routeTypes rt =
     set_option (roQueryType rt) \<union> set_option (roBodyType rt) \<union> (\<Union>m\<in>set (roResponses rt). set_option (rmType (snd m)))"

lemma routeOperation_mono:
  assumes "routeOperation fuel env rt comps = Some r" "fuel \<le> fuel'"
  shows "routeOperation fuel' env rt comps = Some r"
proof -
  obtain queries c1 body c2 rs c3 where
    q: "(case roQueryType rt of None \<Rightarrow> Some ([], comps) | Some t \<Rightarrow> queryParams fuel env t comps) = Some (queries, c1)"
    and b: "(case roBodyType rt of None \<Rightarrow> Some (None, c1)
        | Some t \<Rightarrow> map_option (\<lambda>(s, c). (Some \<lparr>rbContent = jsonContent s, rbRequired = True\<rparr>, c))
            (schemaFor fuel env t c1)) = Some (body, c2)"
    and r: "responsesFor (schemaFor fuel env) (roResponses rt) c2 = Some (rs, c3)"
    using assms(1) unfolding routeOperation_def by (auto split: option.splits)
  have "(case roQueryType rt of None \<Rightarrow> Some ([], comps) | Some t \<Rightarrow> queryParams fuel' env t comps) = Some (queries, c1)"
    using q queryParams_mono [OF _ assms(2)] by (cases "roQueryType rt") simp_all
  moreover have "(case roBodyType rt of None \<Rightarrow> Some (None, c1)
      | Some t \<Rightarrow> map_option (\<lambda>(s, c). (Some \<lparr>rbContent = jsonContent s, rbRequired = True\<rparr>, c))
          (schemaFor fuel' env t c1)) = Some (body, c2)"
    using b schemaFor_mono [OF _ assms(2)] by (cases "roBodyType rt") auto
  moreover have "responsesFor (schemaFor fuel' env) (roResponses rt) c2 = Some (rs, c3)"
    by (rule responsesFor_mono [OF _ r]) (rule schemaFor_mono [OF _ assms(2)])
  ultimately show ?thesis using assms(1) q b r unfolding routeOperation_def by simp
qed

lemma routeOperation_total:
  assumes G: "guardedTypes rk env D" and D: "\<And>t. t \<in> routeTypes rt \<Longrightarrow> namedIn t \<subseteq> D"
  shows "\<exists>fuel r. routeOperation fuel env rt comps = Some r"
proof -
  let ?q = "\<lambda>fuel. case roQueryType rt of None \<Rightarrow> Some ([], comps) | Some t \<Rightarrow> queryParams fuel env t comps"
  obtain fuel1 queries c1 where q: "\<And>f. fuel1 \<le> f \<Longrightarrow> ?q f = Some (queries, c1)"
  proof (cases "roQueryType rt")
    case (Some t)
    then have "namedIn t \<subseteq> D" using D by (simp add: routeTypes_def)
    then obtain fuel qs c where p: "queryParams fuel env t comps = Some (qs, c)"
      using queryParams_total [OF G] surj_pair by metis
    show ?thesis by (rule that [of fuel qs c]) (simp add: Some queryParams_mono [OF p])
  qed (use that in simp)
  let ?b = "\<lambda>fuel. case roBodyType rt of None \<Rightarrow> Some (None, c1)
      | Some t \<Rightarrow> map_option (\<lambda>(s, c). (Some \<lparr>rbContent = jsonContent s, rbRequired = True\<rparr>, c)) (schemaFor fuel env t c1)"
  obtain fuel2 body c2 where b: "\<And>f. fuel2 \<le> f \<Longrightarrow> ?b f = Some (body, c2)"
  proof (cases "roBodyType rt")
    case (Some t)
    then have "namedIn t \<subseteq> D" using D by (simp add: routeTypes_def)
    then obtain fuel s c where "schemaFor fuel env t c1 = Some (s, c)" using schemaFor_total [OF G] surj_pair by metis
    then have "schemaFor f env t c1 = Some (s, c)" if "fuel \<le> f" for f using schemaFor_mono that by blast
    then show ?thesis using Some that [of fuel "Some \<lparr>rbContent = jsonContent s, rbRequired = True\<rparr>" c] by simp
  qed (use that in simp)
  have "\<exists>fuel r. responsesFor (schemaFor fuel env) (roResponses rt) c2 = Some r"
  proof (rule responsesFor_total)
    fix m t c
    assume "m \<in> set (roResponses rt)" "rmType (snd m) = Some t"
    then have "t \<in> routeTypes rt" unfolding routeTypes_def by force
    then show "\<exists>fuel r. schemaFor fuel env t c = Some r" by (intro schemaFor_total [OF G] D)
  qed
  then obtain fuel3 rs c3 where r: "responsesFor (schemaFor fuel3 env) (roResponses rt) c2 = Some (rs, c3)" by force
  let ?f = "max fuel1 (max fuel2 fuel3)"
  have "?q ?f = Some (queries, c1)" "?b ?f = Some (body, c2)" by (rule q, simp) (rule b, simp)
  moreover have "responsesFor (schemaFor ?f env) (roResponses rt) c2 = Some (rs, c3)"
    by (rule responsesFor_mono [OF _ r]) (rule schemaFor_mono, assumption, simp)
  ultimately show ?thesis unfolding routeOperation_def by (intro exI [of _ ?f]) simp
qed

lemma buildPaths_mono:
  "buildPaths fuel env rts paths comps = Some r \<Longrightarrow> fuel \<le> fuel' \<Longrightarrow> buildPaths fuel' env rts paths comps = Some r"
proof (induction rts arbitrary: paths comps)
  case (Cons rt rts)
  then show ?case
    using routeOperation_mono [of fuel env rt comps _ fuel'] by (auto split: if_splits option.splits)
qed simp

lemma buildPaths_total:
  assumes G: "guardedTypes rk env D"
  shows "(\<And>rt t. rt \<in> set rts \<Longrightarrow> t \<in> routeTypes rt \<Longrightarrow> namedIn t \<subseteq> D) \<Longrightarrow>
    \<exists>fuel r. buildPaths fuel env rts paths comps = Some r"
proof (induction rts arbitrary: paths comps)
  case (Cons rt rts)
  obtain fuel1 opn c1 where o: "routeOperation fuel1 env rt comps = Some (opn, c1)"
    using routeOperation_total [OF G, of rt] Cons.prems by fastforce
  let ?paths = "if roHidden rt then paths else addOperation (openAPIPath (roPath rt)) (toLower (roMethod rt)) opn paths"
  let ?comps = "if roHidden rt then comps else c1"
  have "\<exists>fuel r. buildPaths fuel env rts ?paths ?comps = Some r" by (rule Cons.IH) (use Cons.prems in auto)
  then obtain fuel2 r where r: "buildPaths fuel2 env rts ?paths ?comps = Some r" by blast
  let ?f = "max fuel1 fuel2"
  have "routeOperation ?f env rt comps = Some (opn, c1)" by (rule routeOperation_mono [OF o]) simp
  moreover have "buildPaths ?f env rts ?paths ?comps = Some r" by (rule buildPaths_mono [OF r]) simp
  ultimately show ?case by (intro exI [of _ ?f] exI [of _ r]) (cases "roHidden rt"; simp)
qed simp

section \<open>Path templates\<close>

text \<open>The segments of the template are those of the pattern, with the parameters in braces: every recorded
  path parameter occurs in the template.\<close>

lemma openAPIPath_segments:
  "splitOn (CHR ''/'') (openAPIPath path) =
     map (\<lambda>s. if isParamSegment s then ''{'' @ tl s @ ''}'' else s) (splitOn (CHR ''/'') path)"
proof -
  have "CHR ''/'' \<notin> set (if isParamSegment s then ''{'' @ tl s @ ''}'' else s)"
    if "s \<in> set (splitOn (CHR ''/'') path)" for s
    using splitOn_no_sep [OF that] by (cases s) auto
  then show ?thesis
    unfolding openAPIPath_def by (intro splitOn_join) (simp, simp only: set_map ball_simps, blast)
qed

lemma params_in_template:
  "p \<in> set (roPathParams (newRoute verb path)) \<Longrightarrow>
     ''{'' @ p @ ''}'' \<in> set (splitOn (CHR ''/'') (openAPIPath path))"
  unfolding openAPIPath_segments by (force simp: newRoute_def)

text \<open>A parameter in the middle of a segment, which the tree captures, is not documented.\<close>

lemma inner_parameter_undocumented:
  "roPathParams (newRoute ''GET'' ''/files/v:id'') = []" "openAPIPath ''/files/v:id'' = ''/files/v:id''"
  "countParams ''/files/v:id'' = 1"
  by code_simp+

section \<open>Sample\<close>

definition exported :: "string \<Rightarrow> string \<Rightarrow> fieldInfo" where
  "exported name tag = \<lparr>fiName = name, fiExported = True, fiTags = [(''json'', tag)]\<rparr>"

text \<open>A user with friends: a struct that refers to itself through a slice and a pointer.\<close>

definition sampleEnv :: tyenv where
  "sampleEnv n =
     \<lparr>tdName = ''User'',
      tdUnder = TStruct
        [(exported ''ID'' ''id'', TInt 64), (exported ''Name'' ''name,omitempty'', TString),
         (exported ''Friends'' ''friends'', TSlice (TNamed 0)), (exported ''Boss'' ''boss'', TPtr (TNamed 0)),
         (exported ''Since'' ''since'', TTime)]\<rparr>"

definition docRouter :: router where
  "docRouter = (New sampleLib)\<lparr>rtRoutes :=
     [ro_Produces 200 (Some (TSlice (TNamed 0))) (newRoute ''GET'' ''/users''),
      ro_Response 404 ''no such user'' (ro_Produces 200 (Some (TNamed 0)) (newRoute ''GET'' ''/users/:id''))]\<rparr>"

lemma sampleEnv_guarded: "guardedTypes (\<lambda>n. 0) sampleEnv {0}"
  by (simp add: guardedTypes_def goEnv_def sampleEnv_def isStructDef_def)

section \<open>Properties\<close>

text \<open>C17. Every reference in the generated document, in an operation or in a
  component, names a component of the document, and every component is described as an object.\<close>

theorem document_refs_closed:
  assumes "buildOpenAPI fuel env r = Some doc"
  shows "refsIn (docComponents doc) (pathSchemas (oaPaths doc) \<union> ran (map_of (docComponents doc))) \<and>
    (\<forall>s\<in>ran (map_of (docComponents doc)). scType s = ''object'')"
proof -
  obtain paths comps where p: "buildPaths fuel env (rtRoutes r) [] [] = Some (paths, comps)"
    and d: "oaPaths doc = paths" "docComponents doc = comps"
    using assms by (auto simp: buildOpenAPI_def docComponents_def)
  have c: "refsClosed comps \<and> compsGrow [] comps \<and> refsIn comps (pathSchemas paths)"
    using buildPaths_closed [OF p] by (simp add: refsClosed_def pathSchemas_def)
  then show ?thesis
    unfolding d by (auto simp: refsIn_def refsClosed_def compsGrow_def ran_def)
qed

theorem document_refs_closed_witness:
  "\<exists>doc. buildOpenAPI 9 sampleEnv docRouter = Some doc \<and>
     refsIn (docComponents doc) (pathSchemas (oaPaths doc) \<union> ran (map_of (docComponents doc))) \<and>
     (\<forall>s\<in>ran (map_of (docComponents doc)). scType s = ''object'')"
proof -
  have "buildOpenAPI 9 sampleEnv docRouter \<noteq> None" by code_simp
  then obtain doc where d: "buildOpenAPI 9 sampleEnv docRouter = Some doc" by blast
  from document_refs_closed [OF d] d show ?thesis by blast
qed

text \<open>C18. The generator ends, with a document, for every router whose documented types
  reach themselves only through named structs.\<close>

theorem document_exists:
  assumes "guardedTypes rk env D" "\<forall>rt\<in>set (rtRoutes r). \<forall>t\<in>routeTypes rt. namedIn t \<subseteq> D"
  shows "\<exists>fuel doc. \<forall>fuel'\<ge>fuel. buildOpenAPI fuel' env r = Some doc"
proof -
  obtain fuel p where p: "buildPaths fuel env (rtRoutes r) [] [] = Some p"
    using buildPaths_total [OF assms(1), of "rtRoutes r"] assms(2) by blast
  then have "buildPaths fuel' env (rtRoutes r) [] [] = Some p" if "fuel \<le> fuel'" for fuel'
    using buildPaths_mono that by blast
  then show ?thesis unfolding buildOpenAPI_def by (intro exI [of _ fuel]) simp
qed

theorem document_exists_witness:
  "\<exists>fuel doc. \<forall>fuel'\<ge>fuel. buildOpenAPI fuel' sampleEnv docRouter = Some doc"
  by (rule document_exists [OF sampleEnv_guarded])
    (auto simp: docRouter_def routeTypes_def ro_Produces_def ro_Response_def resp_def newRoute_def Let_def)

end
