(* ===== verification/Bind.thy ===== *)
theory Bind
  imports GoTypes Middleware
begin

text \<open>
  Binding (\<^verbatim>\<open>bind.go\<close>, \<^verbatim>\<open>bind_generics.go\<close>): request values into the fields of a struct, by the kinds of
  its fields.  A field's value is a \<open>goval\<close>; fields that the binder does not touch keep theirs, also
  when a later one fails.  \<^verbatim>\<open>strconv.ParseBool\<close>, \<^verbatim>\<open>ParseInt\<close> and \<^verbatim>\<open>ParseUint\<close> are defined; \<^verbatim>\<open>ParseFloat\<close>
  (giving the bits of the float) and the JSON decoder are arguments.
\<close>

section \<open>Values\<close>

datatype goval =
    VString string
  | VBool bool
  | VInt int
  | VUint nat
  | VFloat u64
  | VSlice "goval list"
  | VOther string

text \<open>The values of a type, as far as the binder sets them.\<close>

fun hasType :: "tyenv \<Rightarrow> gotype \<Rightarrow> goval \<Rightarrow> bool" where
  "hasType env t (VString s) = (underlying env t = TString)"
| "hasType env t (VBool b) = (underlying env t = TBool)"
| "hasType env t (VInt i) =
     (case underlying env t of TInt w \<Rightarrow> - (2 ^ (w - 1)) \<le> i \<and> i < 2 ^ (w - 1) | _ \<Rightarrow> False)"
| "hasType env t (VUint n) = (case underlying env t of TUint w \<Rightarrow> n < 2 ^ w | _ \<Rightarrow> False)"
| "hasType env t (VFloat f) = (case underlying env t of TFloat w \<Rightarrow> True | _ \<Rightarrow> False)"
| "hasType env t (VSlice vs) =
     (case underlying env t of TSlice e \<Rightarrow> \<forall>v\<in>set vs. hasType env e v | _ \<Rightarrow> False)"
| "hasType env t (VOther s) =
     (case underlying env t of
        TArray e \<Rightarrow> True | TMap e \<Rightarrow> True | TPtr e \<Rightarrow> True | TStruct fs \<Rightarrow> True | TTime \<Rightarrow> True | TOther k \<Rightarrow> True
      | _ \<Rightarrow> False)"

definition kindString :: "tyenv \<Rightarrow> gotype \<Rightarrow> string" where
  "kindString env t =
     (case underlying env t of
        TSlice e \<Rightarrow> ''slice'' | TArray e \<Rightarrow> ''array'' | TMap e \<Rightarrow> ''map'' | TPtr e \<Rightarrow> ''ptr''
      | TStruct fs \<Rightarrow> ''struct'' | TTime \<Rightarrow> ''struct'' | TOther k \<Rightarrow> k | _ \<Rightarrow> [])"

section \<open>The parsers of \<open>strconv\<close>\<close>

definition ParseBool :: "string \<Rightarrow> bool option" where
  "ParseBool s =
     (if s \<in> {''1'', ''t'', ''T'', ''true'', ''TRUE'', ''True''} then Some True
      else if s \<in> {''0'', ''f'', ''F'', ''false'', ''FALSE'', ''False''} then Some False
      else None)"

definition ParseUint :: "string \<Rightarrow> nat \<Rightarrow> nat option" where
  "ParseUint s bits =
     (if s \<noteq> [] \<and> list_all isDigit s \<and> readNat s < 2 ^ bits then Some (readNat s) else None)"

text \<open>A sign, then digits; the magnitude has to fit.\<close>

definition ParseInt :: "string \<Rightarrow> nat \<Rightarrow> int option" where
  "ParseInt s bits =
     (if s = [] then None
      else
        let neg = (hd s = CHR ''-''); digits = (if neg \<or> hd s = CHR ''+'' then tl s else s)
        in case ParseUint digits bits of
             None \<Rightarrow> None
           | Some un \<Rightarrow>
               if \<not> neg \<and> 2 ^ (bits - 1) \<le> un then None
               else if neg \<and> 2 ^ (bits - 1) < un then None
               else Some (if neg then - int un else int un))"

section \<open>Setting fields\<close>

definition bindError :: "string \<Rightarrow> goerr" where
  "bindError msg = PlainError (''goxpress: '' @ msg)"

type_synonym floatParser = "string \<Rightarrow> nat \<Rightarrow> u64 option"

definition setScalar :: "floatParser \<Rightarrow> tyenv \<Rightarrow> gotype \<Rightarrow> string \<Rightarrow> goerr + goval" where
  "setScalar pf env t s =
     (case underlying env t of
        TString \<Rightarrow> Inr (VString s)
      | TBool \<Rightarrow>
          (case ParseBool s of None \<Rightarrow> Inl (bindError (''invalid bool value: '' @ s)) | Some b \<Rightarrow> Inr (VBool b))
      | TInt w \<Rightarrow>
          (case ParseInt s w of None \<Rightarrow> Inl (bindError (''invalid integer value: '' @ s)) | Some i \<Rightarrow> Inr (VInt i))
      | TUint w \<Rightarrow>
          (case ParseUint s w of
             None \<Rightarrow> Inl (bindError (''invalid unsigned integer value: '' @ s)) | Some n \<Rightarrow> Inr (VUint n))
      | TFloat w \<Rightarrow>
          (case pf s w of None \<Rightarrow> Inl (bindError (''invalid float value: '' @ s)) | Some f \<Rightarrow> Inr (VFloat f))
      | _ \<Rightarrow> Inl (bindError (''unsupported field type: '' @ kindString env t)))"

fun setElems :: "floatParser \<Rightarrow> tyenv \<Rightarrow> gotype \<Rightarrow> string list \<Rightarrow> goerr + goval list" where
  "setElems pf env t [] = Inr []"
| "setElems pf env t (s # ss) =
     (case setScalar pf env t s of
        Inl e \<Rightarrow> Inl e
      | Inr v \<Rightarrow> (case setElems pf env t ss of Inl e \<Rightarrow> Inl e | Inr vs \<Rightarrow> Inr (v # vs)))"

text \<open>\<^verbatim>\<open>setField\<close>, called with at least one value.\<close>

definition setField :: "floatParser \<Rightarrow> tyenv \<Rightarrow> gotype \<Rightarrow> string list \<Rightarrow> goerr + goval" where
  "setField pf env t vals =
     (case underlying env t of
        TSlice e \<Rightarrow> map_sum id VSlice (setElems pf env e vals)
      | _ \<Rightarrow> setScalar pf env t (hd vals))"

definition fieldKey :: "string \<Rightarrow> fieldInfo \<Rightarrow> string" where
  "fieldKey tag f = (if tagGet tag f = [] then fiName f else tagGet tag f)"

text \<open>The loop of \<^verbatim>\<open>bindValues\<close> over the fields and their values.\<close>

fun bindFields ::
    "floatParser \<Rightarrow> tyenv \<Rightarrow> string \<Rightarrow> urlValues \<Rightarrow> (fieldInfo \<times> gotype) list \<Rightarrow> goval list \<Rightarrow>
     goerr option \<times> goval list" where
  "bindFields pf env tag q ((f, t) # fs) (v # vs) =
     (if \<not> fiExported f \<or> tagGet tag f = ''-'' then
        (case bindFields pf env tag q fs vs of (err, vs') \<Rightarrow> (err, v # vs'))
      else case q (fieldKey tag f) of
             Some (s # ss) \<Rightarrow>
               (case setField pf env t (s # ss) of
                  Inl e \<Rightarrow> (Some e, v # vs)
                | Inr v' \<Rightarrow> (case bindFields pf env tag q fs vs of (err, vs') \<Rightarrow> (err, v' # vs')))
           | _ \<Rightarrow> (case bindFields pf env tag q fs vs of (err, vs') \<Rightarrow> (err, v # vs')))"
| "bindFields pf env tag q fs vs = (None, vs)"

text \<open>What the caller passes: a pointer to a struct with the values of its fields, a pointer to something
  else, or no usable pointer.\<close>

datatype target = NoPointer | PointsTo gotype "goval list"

definition bindValues :: "floatParser \<Rightarrow> tyenv \<Rightarrow> target \<Rightarrow> urlValues \<Rightarrow> string \<Rightarrow> goerr option \<times> target" where
  "bindValues pf env ptr q tag =
     (case ptr of
        NoPointer \<Rightarrow> (Some (bindError ''bind target must be a non-nil pointer to a struct''), ptr)
      | PointsTo t vals \<Rightarrow>
          (case underlying env t of
             TStruct fs \<Rightarrow> (case bindFields pf env tag q fs vals of (err, vals') \<Rightarrow> (err, PointsTo t vals'))
           | TTime \<Rightarrow> (None, ptr)
           | _ \<Rightarrow> (Some (bindError ''bind target must point to a struct''), ptr)))"

section \<open>The methods of the context\<close>

definition badRequest :: "string \<Rightarrow> goerr option \<Rightarrow> goerr option" where
  "badRequest msg err =
     (case err of None \<Rightarrow> None | Some e \<Rightarrow> Some (WithInternal (NewHTTPError 400 [msg]) (Some e)))"

definition contentType :: "ctx \<Rightarrow> string" where
  "contentType c = trimSpace (takeWhile (\<lambda>ch. ch \<noteq> CHR '';'') (GetHeader ''Content-Type'' c))"

text \<open>A JSON decoder reads a value from the body into the target and leaves the rest of the body.\<close>

type_synonym jsonDecoder = "bodyReader \<Rightarrow> target \<Rightarrow> (goerr option \<times> target) \<times> bodyReader"

definition BindJSON :: "jsonDecoder \<Rightarrow> target \<Rightarrow> ctx \<Rightarrow> (goerr option \<times> target) \<times> ctx" where
  "BindJSON decode v c =
     (case reqBody (cxRequest c) of
        None \<Rightarrow> ((Some (NewHTTPError 400 [''empty request body'']), v), c)
      | Some body \<Rightarrow>
          (case decode body v of
             ((err, v'), rest) \<Rightarrow>
               ((badRequest ''invalid JSON body'' err, v'), c\<lparr>cxRequest := (cxRequest c)\<lparr>reqBody := Some rest\<rparr>\<rparr>)))"

definition BindQuery :: "floatParser \<Rightarrow> tyenv \<Rightarrow> target \<Rightarrow> ctx \<Rightarrow> (goerr option \<times> target) \<times> ctx" where
  "BindQuery pf env v c =
     (case queryValues c of
        (q, c') \<Rightarrow>
          (case bindValues pf env v q ''query'' of
             (err, v') \<Rightarrow> ((badRequest ''invalid query parameters'' err, v'), c')))"

text \<open>\<^verbatim>\<open>Request.Form\<close> after \<^verbatim>\<open>ParseForm\<close>: the values of the body, then those of the URL.\<close>

definition formValues :: "urlValues \<Rightarrow> request \<Rightarrow> urlValues" where
  "formValues post r k =
     (case (post k, case reqQuery r of None \<Rightarrow> None | Some q \<Rightarrow> q k) of
        (None, u) \<Rightarrow> u
      | (Some p, None) \<Rightarrow> Some p
      | (Some p, Some u) \<Rightarrow> Some (p @ u))"

definition BindForm :: "floatParser \<Rightarrow> tyenv \<Rightarrow> target \<Rightarrow> ctx \<Rightarrow> (goerr option \<times> target) \<times> ctx" where
  "BindForm pf env v c =
     (case reqForm (cxRequest c) of
        Inl e \<Rightarrow> ((badRequest ''invalid form body'' (Some e), v), c)
      | Inr post \<Rightarrow>
          (case bindValues pf env v (formValues post (cxRequest c)) ''form'' of
             (err, v') \<Rightarrow> ((badRequest ''invalid form fields'' err, v'), c)))"

definition Bind :: "jsonDecoder \<Rightarrow> floatParser \<Rightarrow> tyenv \<Rightarrow> target \<Rightarrow> ctx \<Rightarrow> (goerr option \<times> target) \<times> ctx" where
  "Bind decode pf env v c =
     (let ct = contentType c
      in if prefix ''application/json'' ct then BindJSON decode v c
         else if prefix ''application/x-www-form-urlencoded'' ct \<or> prefix ''multipart/form-data'' ct
           then BindForm pf env v c
         else BindQuery pf env v c)"

text \<open>The generic helpers bind into a fresh zero value \<open>zero\<close> of the type.\<close>

definition BindOf :: "jsonDecoder \<Rightarrow> floatParser \<Rightarrow> tyenv \<Rightarrow> gotype \<Rightarrow> goval list \<Rightarrow> ctx \<Rightarrow> (goerr option \<times> target) \<times> ctx" where
  "BindOf decode pf env t zero = Bind decode pf env (PointsTo t zero)"

definition BindJSONOf :: "jsonDecoder \<Rightarrow> gotype \<Rightarrow> goval list \<Rightarrow> ctx \<Rightarrow> (goerr option \<times> target) \<times> ctx" where
  "BindJSONOf decode t zero = BindJSON decode (PointsTo t zero)"

definition BindQueryOf :: "floatParser \<Rightarrow> tyenv \<Rightarrow> gotype \<Rightarrow> goval list \<Rightarrow> ctx \<Rightarrow> (goerr option \<times> target) \<times> ctx" where
  "BindQueryOf pf env t zero = BindQuery pf env (PointsTo t zero)"

definition BindFormOf :: "floatParser \<Rightarrow> tyenv \<Rightarrow> gotype \<Rightarrow> goval list \<Rightarrow> ctx \<Rightarrow> (goerr option \<times> target) \<times> ctx" where
  "BindFormOf pf env t zero = BindForm pf env (PointsTo t zero)"

section \<open>Bound values have the types of their fields\<close>

lemma ParseUint_range: "ParseUint s w = Some n \<Longrightarrow> n < 2 ^ w"
  by (auto simp: ParseUint_def split: if_splits)

text \<open>The digits after the sign; \<open>ParseInt\<close> is a signed reading of them.\<close>

definition magnitude :: "bool \<Rightarrow> nat \<Rightarrow> nat \<Rightarrow> int option" where
  "magnitude neg bits un =
     (if \<not> neg \<and> 2 ^ (bits - 1) \<le> un then None
      else if neg \<and> 2 ^ (bits - 1) < un then None
      else Some (if neg then - int un else int un))"

lemma ParseInt_magnitude:
  "ParseInt s bits =
     (if s = [] then None
      else Option.bind (ParseUint (if hd s = CHR ''-'' \<or> hd s = CHR ''+'' then tl s else s) bits)
             (magnitude (hd s = CHR ''-'') bits))"
  unfolding ParseInt_def magnitude_def Let_def
  by (cases "ParseUint (if hd s = CHR ''-'' \<or> hd s = CHR ''+'' then tl s else s) bits") (simp_all only: option.case bind.simps)

lemma magnitude_range:
  assumes "magnitude neg w un = Some i"
  shows "- (2 ^ (w - 1)) \<le> i \<and> i < 2 ^ (w - 1)"
proof (cases neg)
  case True
  then have i: "i = - int un" "un \<le> 2 ^ (w - 1)" using assms by (simp_all add: magnitude_def split: if_splits)
  then have "int un \<le> 2 ^ (w - 1)" using of_nat_le_iff [of un "2 ^ (w - 1)", where ?'a = int] by simp
  then show ?thesis using i(1) by (simp add: order.strict_trans1 [OF _ zero_less_power])
next
  case False
  then have i: "i = int un" "un < 2 ^ (w - 1)" using assms by (simp_all add: magnitude_def split: if_splits)
  then have "int un < 2 ^ (w - 1)" using of_nat_less_iff [of un "2 ^ (w - 1)", where ?'a = int] by simp
  moreover have "- (2 ^ (w - 1)) \<le> (0 :: int)" by simp
  ultimately show ?thesis using i(1) by linarith
qed

lemma ParseInt_range:
  assumes "ParseInt s w = Some i"
  shows "- (2 ^ (w - 1)) \<le> i \<and> i < 2 ^ (w - 1)"
proof -
  have "s \<noteq> []" using assms by (auto simp: ParseInt_def)
  then have "Option.bind (ParseUint (if hd s = CHR ''-'' \<or> hd s = CHR ''+'' then tl s else s) w)
      (magnitude (hd s = CHR ''-'') w) = Some i"
    using assms by (simp only: ParseInt_magnitude if_False)
  then obtain un where "magnitude (hd s = CHR ''-'') w un = Some i" by (auto simp only: Option.bind_eq_Some_conv)
  then show ?thesis by (rule magnitude_range)
qed

lemma setScalar_type: "setScalar pf env t s = Inr v \<Longrightarrow> hasType env t v"
  by (cases "underlying env t")
    (auto simp: setScalar_def split: option.splits dest: ParseUint_range ParseInt_range)

lemma setElems_type: "setElems pf env t ss = Inr vs \<Longrightarrow> v \<in> set vs \<Longrightarrow> hasType env t v"
  by (induction ss arbitrary: vs) (auto split: sum.splits dest: setScalar_type)

lemma setField_type:
  assumes "setField pf env t vals = Inr v"
  shows "hasType env t v"
proof (cases "underlying env t")
  case (TSlice e)
  then obtain vs where "setElems pf env e vals = Inr vs" "v = VSlice vs"
    using assms by (cases "setElems pf env e vals") (auto simp: setField_def)
  then show ?thesis using TSlice setElems_type by auto
qed (use assms setScalar_type in \<open>auto simp: setField_def\<close>)

abbreviation wellTyped :: "tyenv \<Rightarrow> (fieldInfo \<times> gotype) list \<Rightarrow> goval list \<Rightarrow> bool" where
  "wellTyped env \<equiv> list_all2 (\<lambda>p. hasType env (snd p))"

lemma bindFields_type:
  "wellTyped env fs vs \<Longrightarrow> wellTyped env fs (snd (bindFields pf env tag q fs vs))"
proof (induction pf env tag q fs vs rule: bindFields.induct)
  case (1 pf env tag q f t fs v vs)
  then show ?case
    by (auto split: option.splits list.splits sum.splits prod.splits dest: setField_type)
qed auto

section \<open>Reading back what was printed\<close>

lemma natDigits_hd: "isDigit (hd (natDigits n))"
  using natDigits_isDigit [of n] natDigits_nonempty [of n] by (cases "natDigits n") simp_all

lemma isDigit_sign: "isDigit c \<Longrightarrow> c \<noteq> CHR ''-'' \<and> c \<noteq> CHR ''+''"
  by (auto simp: isDigit_def)

lemma ParseUint_natDigits: "n < 2 ^ w \<Longrightarrow> ParseUint (natDigits n) w = Some n"
  by (simp add: ParseUint_def natDigits_nonempty natDigits_isDigit)

lemma ParseInt_itoa:
  assumes "0 < w" "- (2 ^ (w - 1)) \<le> i" "i < 2 ^ (w - 1)"
  shows "ParseInt (itoa i) w = Some i"
proof -
  have dbl: "(2 :: int) ^ w = 2 * 2 ^ (w - 1)" using assms(1) by (cases w) simp_all
  show ?thesis
  proof (cases "i < 0")
    case True
    have "int (nat (- i)) < 2 ^ w" using assms dbl True by simp
    then have "nat (- i) < 2 ^ w" by (simp only: of_nat_less_iff [symmetric, where ?'a = int]) simp
    moreover have "\<not> 2 ^ (w - 1) < nat (- i)"
      using assms(2) of_nat_less_iff [of "2 ^ (w - 1)" "nat (- i)", where ?'a = int] True by simp
    ultimately show ?thesis using True by (simp add: itoa_def ParseInt_def ParseUint_natDigits)
  next
    case False
    have "int (nat i) < 2 ^ w" using assms(3) dbl False by simp
    then have "nat i < 2 ^ w" by (simp only: of_nat_less_iff [symmetric, where ?'a = int]) simp
    moreover have "\<not> 2 ^ (w - 1) \<le> nat i"
      using assms(3) of_nat_le_iff [of "2 ^ (w - 1)" "nat i", where ?'a = int] False by simp
    ultimately show ?thesis
      using False natDigits_nonempty [of "nat i"] isDigit_sign [OF natDigits_hd [of "nat i"]]
      by (simp add: itoa_def ParseInt_def ParseUint_natDigits)
  qed
qed

text \<open>The strings a client sends for a value.\<close>

fun encode :: "goval \<Rightarrow> string list" where
  "encode (VString s) = [s]"
| "encode (VBool b) = [if b then ''true'' else ''false'']"
| "encode (VInt i) = [itoa i]"
| "encode (VUint n) = [natDigits n]"
| "encode (VSlice vs) = concat (map encode vs)"
| "encode _ = []"

definition isScalar :: "goval \<Rightarrow> bool" where
  "isScalar v \<longleftrightarrow> (case v of VString s \<Rightarrow> True | VBool b \<Rightarrow> True | VInt i \<Rightarrow> True | VUint n \<Rightarrow> True | _ \<Rightarrow> False)"

text \<open>A value that a request can carry: a scalar, or a slice with at least one scalar in it; and a type
  whose integers have a width.\<close>

definition sendable :: "goval \<Rightarrow> bool" where
  "sendable v \<longleftrightarrow> (case v of VSlice vs \<Rightarrow> vs \<noteq> [] \<and> list_all isScalar vs | _ \<Rightarrow> isScalar v)"

definition hasWidth :: "tyenv \<Rightarrow> gotype \<Rightarrow> bool" where
  "hasWidth env t \<longleftrightarrow> underlying env t \<noteq> TInt 0"

definition widthsOK :: "tyenv \<Rightarrow> gotype \<Rightarrow> bool" where
  "widthsOK env t \<longleftrightarrow> (case underlying env t of TSlice e \<Rightarrow> hasWidth env e | _ \<Rightarrow> hasWidth env t)"

lemma setScalar_encode:
  assumes "hasType env t v" "isScalar v" "hasWidth env t"
  shows "\<exists>s. encode v = [s] \<and> setScalar pf env t s = Inr v"
proof (cases v)
  case (VInt i)
  then obtain w where "underlying env t = TInt w" "- (2 ^ (w - 1)) \<le> i" "i < 2 ^ (w - 1)"
    using assms(1) by (auto split: gotype.splits)
  then show ?thesis using VInt ParseInt_itoa [of w i] assms(3) by (simp add: setScalar_def hasWidth_def)
next
  case (VUint n)
  then obtain w where "underlying env t = TUint w" "n < 2 ^ w" using assms(1) by (auto split: gotype.splits)
  then show ?thesis using VUint ParseUint_natDigits [of n w] by (simp add: setScalar_def)
qed (use assms in \<open>auto simp: isScalar_def setScalar_def ParseBool_def\<close>)

lemma setElems_encode:
  "\<forall>v\<in>set vs. hasType env t v \<and> isScalar v \<Longrightarrow> hasWidth env t \<Longrightarrow>
     setElems pf env t (concat (map encode vs)) = Inr vs"
proof (induction vs)
  case (Cons v vs)
  then obtain s where "encode v = [s]" "setScalar pf env t s = Inr v" using setScalar_encode [of env t v pf] by auto
  with Cons show ?case by simp
qed simp

lemma setField_encode:
  assumes "hasType env t v" "sendable v" "widthsOK env t"
  shows "encode v \<noteq> [] \<and> setField pf env t (encode v) = Inr v"
proof (cases "isScalar v")
  case True
  then have "\<not> (\<exists>e. underlying env t = TSlice e)" using assms(1) by (cases v) (auto simp: isScalar_def split: gotype.splits)
  moreover from this have "hasWidth env t" using assms(3) by (auto simp: widthsOK_def split: gotype.splits)
  moreover from this obtain s where "encode v = [s]" "setScalar pf env t s = Inr v"
    using setScalar_encode [OF assms(1) True] by blast
  ultimately show ?thesis by (cases "underlying env t") (auto simp: setField_def)
next
  case False
  then obtain vs where v: "v = VSlice vs" "vs \<noteq> []" "list_all isScalar vs"
    using assms(2) by (cases v) (auto simp: sendable_def isScalar_def)
  then obtain e where e: "underlying env t = TSlice e" "\<forall>v\<in>set vs. hasType env e v"
    using assms(1) by (auto split: gotype.splits)
  then have "hasWidth env e" using assms(3) by (simp add: widthsOK_def)
  then have "setElems pf env e (encode v) = Inr vs"
    using setElems_encode [of vs env e pf] e(2) v by (simp add: list_all_iff)
  moreover have "encode v \<noteq> []"
    using v setScalar_encode [of env e "hd vs" pf] e(2) \<open>hasWidth env e\<close> by (cases vs) auto
  ultimately show ?thesis using e(1) v(1) by (simp add: setField_def)
qed

text \<open>The values of a struct as a client sends them, every field under its key.\<close>

definition sentValues :: "string \<Rightarrow> (fieldInfo \<times> gotype) list \<Rightarrow> goval list \<Rightarrow> urlValues" where
  "sentValues tag fs vs = map_of (zip (map (\<lambda>p. fieldKey tag (fst p)) fs) (map encode vs))"

definition boundField :: "tyenv \<Rightarrow> string \<Rightarrow> (fieldInfo \<times> gotype) \<Rightarrow> bool" where
  "boundField env tag p \<longleftrightarrow> fiExported (fst p) \<and> tagGet tag (fst p) \<noteq> ''-'' \<and> widthsOK env (snd p)"

lemma bindFields_encode:
  assumes "wellTyped env fs vs" "length init = length fs" "list_all sendable vs" "list_all (boundField env tag) fs"
    and "\<forall>(p, v)\<in>set (zip fs vs). q (fieldKey tag (fst p)) = Some (encode v)"
  shows "bindFields pf env tag q fs init = (None, vs)"
  using assms
proof (induction fs vs arbitrary: init rule: list_all2_induct)
  case (Cons p fs v vs)
  obtain f t where p: "p = (f, t)" by (cases p)
  obtain v0 init' where i: "init = v0 # init'" using Cons.prems(1) by (cases init) auto
  have f: "encode v \<noteq> [] \<and> setField pf env t (encode v) = Inr v"
    using Cons.hyps(1) Cons.prems(2,3) p by (intro setField_encode) (auto simp: boundField_def)
  have "bindFields pf env tag q fs init' = (None, vs)" using Cons i by auto
  with f show ?case using Cons.prems(3,4) p i by (cases "encode v") (auto simp: boundField_def)
qed simp

lemma sentValues_field:
  assumes "list_all2 P fs vs" "distinct (map (\<lambda>p. fieldKey tag (fst p)) fs)"
  shows "\<forall>(p, v)\<in>set (zip fs vs). sentValues tag fs vs (fieldKey tag (fst p)) = Some (encode v)"
proof -
  have l: "length fs = length vs" using assms(1) by (rule list_all2_lengthD)
  have "sentValues tag fs vs (fieldKey tag (fst (fs ! i))) = Some (encode (vs ! i))" if "i < length vs" for i
    using map_of_zip_nth [of "map (\<lambda>p. fieldKey tag (fst p)) fs" "map encode vs" i] assms(2) l that
    unfolding sentValues_def by simp
  then show ?thesis using l by (auto simp: in_set_zip simp flip: all_conj_distrib) (metis fst_conv)
qed

lemma bindValues_encode:
  assumes "underlying env t = TStruct fs" "wellTyped env fs vs" "length init = length fs"
    and "list_all sendable vs" "list_all (boundField env tag) fs" "distinct (map (\<lambda>p. fieldKey tag (fst p)) fs)"
  shows "bindValues pf env (PointsTo t init) (sentValues tag fs vs) tag = (None, PointsTo t vs)"
  using bindFields_encode [OF assms(2,3,4,5) sentValues_field [OF assms(2,6)]] assms(1) by (simp add: bindValues_def)

section \<open>Binding a request\<close>

text \<open>The two methods that go through \<open>bindValues\<close>, as outcome and target.\<close>

lemma bindValues_type:
  assumes "underlying env t = TStruct fs" "wellTyped env fs vs"
  shows "\<exists>err vs'. bindValues pf env (PointsTo t vs) q tag = (err, PointsTo t vs') \<and> wellTyped env fs vs'"
  using bindFields_type [OF assms(2), of pf tag q] assms(1) by (auto simp: bindValues_def split: prod.splits)

lemma badRequest_code: "badRequest msg err = None \<or> (\<exists>e. badRequest msg err = Some (HTTPError 400 msg (Some e)))"
  by (simp add: badRequest_def split: option.split)

lemma badRequest_None [simp]: "badRequest msg None = None"
  by (simp add: badRequest_def)

text \<open>A multipart body is left alone by \<^verbatim>\<open>ParseForm\<close>: the form is then the URL query, under the other tag.\<close>

lemma formValues_empty: "reqQuery r = Some q \<Longrightarrow> formValues (\<lambda>k. None) r = q"
  by (rule ext) (simp add: formValues_def split: option.split)

lemma multipart_binds_query:
  "reqForm (cxRequest c) = Inr (\<lambda>k. None) \<Longrightarrow> reqQuery (cxRequest c) = Some q \<Longrightarrow>
     snd (fst (BindForm pf env v c)) = snd (bindValues pf env v q ''form'')"
  by (simp add: BindForm_def formValues_empty split: prod.split)

lemma Bind_cases:
  "Bind decode pf env v c =
     (if prefix ''application/json'' (contentType c) then BindJSON decode v c
      else if prefix ''application/x-www-form-urlencoded'' (contentType c) \<or> prefix ''multipart/form-data'' (contentType c)
        then BindForm pf env v c
      else BindQuery pf env v c)"
  by (simp add: Bind_def Let_def)

text \<open>A sample: a filter with a number, a flag and two words.\<close>

definition queryField :: "string \<Rightarrow> fieldInfo" where
  "queryField name = \<lparr>fiName = name, fiExported = True, fiTags = [(''query'', map lowerChar name)]\<rparr>"

definition filterFields :: "(fieldInfo \<times> gotype) list" where
  "filterFields = [(queryField ''Page'', TInt 8), (queryField ''Open'', TBool), (queryField ''Tags'', TSlice TString)]"

definition filterEnv :: tyenv where
  "filterEnv n = \<lparr>tdName = ''Filter'', tdUnder = TStruct filterFields\<rparr>"

definition filterSent :: "goval list" where
  "filterSent = [VInt (- 128), VBool True, VSlice [VString ''a'', VString ''b'']]"

definition filterZero :: "goval list" where
  "filterZero = [VInt 0, VBool False, VSlice []]"

definition filterCtx :: "urlValues \<Rightarrow> ctx" where
  "filterCtx q =
     \<lparr>cxWriter = rw_reset freshWriter recycled,
      cxRequest = \<lparr>reqMethod = ''GET'', reqPath = ''/'', reqRawPath = [], reqQueryText = [], reqHost = [], reqRemoteAddr = [], reqTLS = False,
        reqQuery = Some q, reqForm = Inr (\<lambda>k. None), reqHeader = (\<lambda>k. None), reqCookies = [],
        reqContentLength = 0, reqBody = None\<rparr>,
      cxParams = [], cxQueryCache = None, cxStore = (\<lambda>k. None), cxRenderer = None\<rparr>"

lemma filterEnv_under: "underlying filterEnv (TNamed 0) = TStruct filterFields"
  by (simp add: filterEnv_def)

lemma filterCtx_contentType: "contentType (filterCtx q) = []"
  by (simp add: contentType_def GetHeader_def hGet_def filterCtx_def trimSpace_def)

section \<open>Properties\<close>

text \<open>What \<^verbatim>\<open>encoding/json\<close> is documented to do with a pointer to a struct: it sets fields to values of their
  types, and leaves a struct of that type behind when it stops at an error.\<close>

definition typedDecoder :: "jsonDecoder \<Rightarrow> tyenv \<Rightarrow> gotype \<Rightarrow> (fieldInfo \<times> gotype) list \<Rightarrow> bool" where
  "typedDecoder decode env t fs \<longleftrightarrow>
     (\<forall>body vs. wellTyped env fs vs \<longrightarrow>
        (\<exists>err vs' rest. decode body (PointsTo t vs) = ((err, PointsTo t vs'), rest) \<and> wellTyped env fs vs'))"

text \<open>C20. Binding a request's JSON body, form or query into a struct keeps every field of the type it was
  declared with (integers within their width, slices of their element type), whether it succeeds or
  stops at a bad value, and an error is a 400 that wraps its cause, but for a JSON request without a body,
  which has none.  The JSON decoder is assumed to keep the types (\<open>typedDecoder\<close>).\<close>

theorem bind_typed:
  assumes "underlying env t = TStruct fs" "wellTyped env fs vs" "typedDecoder decode env t fs"
  shows "\<exists>err vs' c'. Bind decode pf env (PointsTo t vs) c = ((err, PointsTo t vs'), c') \<and> wellTyped env fs vs' \<and>
    (err = None \<or>
     (\<exists>msg i. err = Some (HTTPError 400 msg i) \<and>
        (i = None \<longrightarrow> prefix ''application/json'' (contentType c) \<and> reqBody (cxRequest c) = None)))"
proof -
  let ?ok = "\<lambda>bound. \<exists>err vs' c'. bound = ((err, PointsTo t vs'), c') \<and> wellTyped env fs vs' \<and>
      (err = None \<or> (\<exists>msg e. err = Some (HTTPError 400 msg (Some e))))"
  have b: "\<exists>err vs'. bindValues pf env (PointsTo t vs) q tag = (err, PointsTo t vs') \<and> wellTyped env fs vs'" for q tag
    by (rule bindValues_type [OF assms(1,2)])
  have query: "?ok (BindQuery pf env (PointsTo t vs) c)"
    using b [of "fst (queryValues c)" "''query''"] badRequest_code
    by (cases "queryValues c") (fastforce simp: BindQuery_def)
  have form: "?ok (BindForm pf env (PointsTo t vs) c)"
  proof (cases "reqForm (cxRequest c)")
    case (Inl e)
    then show ?thesis using assms(2) badRequest_code [of "''invalid form body''" "Some e"] by (auto simp: BindForm_def)
  next
    case (Inr post)
    then show ?thesis
      using b [of "formValues post (cxRequest c)" "''form''"] badRequest_code by (fastforce simp: BindForm_def)
  qed
  have json: "?ok (BindJSON decode (PointsTo t vs) c)" if body: "reqBody (cxRequest c) = Some body" for body
  proof -
    obtain err vs' rest where "decode body (PointsTo t vs) = ((err, PointsTo t vs'), rest)" "wellTyped env fs vs'"
      using assms(2,3) unfolding typedDecoder_def by blast
    then show ?thesis using body badRequest_code [of "''invalid JSON body''" err] by (simp add: BindJSON_def) blast
  qed
  show ?thesis
  proof (cases "prefix ''application/json'' (contentType c) \<and> reqBody (cxRequest c) = None")
    case True
    then show ?thesis
      using assms(2) by (simp add: Bind_cases BindJSON_def NewHTTPError_def)
  next
    case False
    have "?ok (Bind decode pf env (PointsTo t vs) c)"
      using query form json False unfolding Bind_cases by (simp split: if_split) blast
    then show ?thesis by blast
  qed
qed

theorem bind_typed_witness:
  "\<exists>err vs' c'. Bind (\<lambda>b v. ((None, v), b)) (\<lambda>s w. None) filterEnv (PointsTo (TNamed 0) filterZero)
       (filterCtx [''page'' \<mapsto> [''7''], ''open'' \<mapsto> [''maybe'']]) = ((err, PointsTo (TNamed 0) vs'), c') \<and>
     wellTyped filterEnv filterFields vs' \<and>
     (err = None \<or>
      (\<exists>msg i. err = Some (HTTPError 400 msg i) \<and>
         (i = None \<longrightarrow> prefix ''application/json'' (contentType (filterCtx [''page'' \<mapsto> [''7''], ''open'' \<mapsto> [''maybe'']])) \<and>
            reqBody (cxRequest (filterCtx [''page'' \<mapsto> [''7''], ''open'' \<mapsto> [''maybe'']])) = None)))"
proof (rule bind_typed)
  show "underlying filterEnv (TNamed 0) = TStruct filterFields" by (rule filterEnv_under)
  show "wellTyped filterEnv filterFields filterZero" by (simp add: filterFields_def filterZero_def)
  show "typedDecoder (\<lambda>b v. ((None, v), b)) filterEnv (TNamed 0) filterFields" by (simp add: typedDecoder_def)
qed

text \<open>C19. A struct whose exported fields are integers, bools, strings or non-empty slices of these and have
  different query keys, sent as the query of a request without a content type, with each field printed
  (integers in decimal, bools as words, slices as repeated values), is read back by \<open>Bind\<close> as it was,
  whatever the target held before.\<close>

theorem bind_roundtrip:
  assumes "underlying env t = TStruct fs" "wellTyped env fs vs" "length init = length fs"
    and "list_all sendable vs" "list_all (boundField env ''query'') fs"
    and "distinct (map (\<lambda>p. fieldKey ''query'' (fst p)) fs)"
    and "reqQuery (cxRequest c) = Some (sentValues ''query'' fs vs)" "cxQueryCache c = None"
    and "contentType c = []"
  shows "fst (Bind decode pf env (PointsTo t init) c) = (None, PointsTo t vs)"
  using bindValues_encode [OF assms(1-6)] assms(7-9)
  by (simp add: Bind_cases BindQuery_def queryValues_def Let_def)

theorem bind_roundtrip_witness:
  "fst (Bind (\<lambda>b v. ((None, v), b)) (\<lambda>s w. None) filterEnv (PointsTo (TNamed 0) filterZero)
       (filterCtx (sentValues ''query'' filterFields filterSent))) = (None, PointsTo (TNamed 0) filterSent)"
proof (rule bind_roundtrip)
  show "underlying filterEnv (TNamed 0) = TStruct filterFields" by (rule filterEnv_under)
  show "wellTyped filterEnv filterFields filterSent" by (simp add: filterFields_def filterSent_def)
  show "length filterZero = length filterFields" by (simp add: filterFields_def filterZero_def)
  show "list_all sendable filterSent" by (simp add: filterSent_def sendable_def isScalar_def)
  show "list_all (boundField filterEnv ''query'') filterFields"
    by (simp add: filterFields_def boundField_def queryField_def tagGet_def widthsOK_def hasWidth_def)
  show "distinct (map (\<lambda>p. fieldKey ''query'' (fst p)) filterFields)"
    by code_simp
qed (simp_all add: filterCtx_contentType, simp_all add: filterCtx_def)

end
