(* ===== verification/Adapter.thy ===== *)
theory Adapter
  imports Context
begin

text \<open>
  Standard handlers and middleware in a chain (\<^verbatim>\<open>adapter.go\<close>).  A standard middleware keeps the writer it
  is given, may put a writer of its own around it, and hands that one to the next handler: writers refer
  to each other, so they are objects of a store here, and a write walks from object to object.  The walk
  is a partial function: \<open>None\<close> is a call that never returns (in Go, a stack overflow, which ends the
  process).
\<close>

section \<open>Writers in a store\<close>

type_synonym addr = nat

text \<open>The server's writer, a \<^verbatim>\<open>*responseWriter\<close> of the program, or a writer of the standard kind that
  embeds another one and forwards every call to it.\<close>

datatype wobj = ServerWriter stdWriter | Pooled "addr responseWriter" | PlainWriter addr

type_synonym wheap = "addr \<Rightarrow> wobj"

definition isResponseWriter :: "wobj \<Rightarrow> bool" where
  "isResponseWriter ob = (case ob of Pooled w \<Rightarrow> True | _ \<Rightarrow> False)"

partial_function (option) hHeader :: "addr \<Rightarrow> wheap \<Rightarrow> header option" where
  "hHeader a h =
     (case h a of
        ServerWriter w \<Rightarrow> Some (wHeader w)
      | PlainWriter b \<Rightarrow> hHeader b h
      | Pooled w \<Rightarrow> hHeader (rwUnder w) h)"

partial_function (option) hWriteHeader :: "int \<Rightarrow> addr \<Rightarrow> wheap \<Rightarrow> wheap option" where
  "hWriteHeader code a h =
     (case h a of
        ServerWriter w \<Rightarrow> Some (h(a := ServerWriter (std_WriteHeader code w)))
      | PlainWriter b \<Rightarrow> hWriteHeader code b h
      | Pooled w \<Rightarrow>
          if rwStatus w \<noteq> noStatus then Some h
          else hWriteHeader code (rwUnder w) (h(a := Pooled (w\<lparr>rwStatus := code\<rparr>))))"

definition addSize :: "nat \<Rightarrow> addr \<Rightarrow> wheap \<Rightarrow> wheap" where
  "addSize n a h =
     (case h a of Pooled w \<Rightarrow> h(a := Pooled (w\<lparr>rwSize := rwSize w + int n\<rparr>)) | _ \<Rightarrow> h)"

definition suppresses :: "wobj \<Rightarrow> bool" where
  "suppresses ob = (case ob of Pooled w \<Rightarrow> rwSuppress w | _ \<Rightarrow> False)"

partial_function (option) hWrite :: "string \<Rightarrow> addr \<Rightarrow> wheap \<Rightarrow> ((nat \<times> goerr option) \<times> wheap) option" where
  "hWrite b a h =
     (case h a of
        ServerWriter w \<Rightarrow> (case std_Write b w of (r, w') \<Rightarrow> Some (r, h(a := ServerWriter w')))
      | PlainWriter u \<Rightarrow> hWrite b u h
      | Pooled w \<Rightarrow>
          Option.bind (if rwStatus w = noStatus then hWriteHeader 200 a h else Some h) (\<lambda>h1.
            if suppresses (h1 a) then Some ((length b, None), addSize (length b) a h1)
            else Option.bind (hWrite b (rwUnder w) h1) (\<lambda>rh.
                   Some (fst rh, addSize (fst (fst rh)) a (snd rh)))))"

section \<open>The adapters\<close>

text \<open>The context with its writers in the store: the current one, and the pooled one that is a field of
  the context.  The other fields are those of \<open>ctx\<close>, whose \<open>cxWriter\<close> is not used here.\<close>

record stdctx =
  scHeap :: wheap
  scWriter :: addr
  scPooled :: addr
  scCtx :: ctx

text \<open>A standard handler changes the writers' store, given its writer and request.\<close>

type_synonym stdHandler = "addr \<Rightarrow> request \<Rightarrow> wheap \<Rightarrow> wheap"

definition WrapF :: "stdHandler \<Rightarrow> stdctx hprog" where
  "WrapF f = Effect (\<lambda>c. c\<lparr>scHeap := f (scWriter c) (cxRequest (scCtx c)) (scHeap c)\<rparr>) (\<lambda>_. Return None)"

definition WrapH :: "stdHandler \<Rightarrow> stdctx hprog" where
  "WrapH h = Effect (\<lambda>c. c\<lparr>scHeap := h (scWriter c) (cxRequest (scCtx c)) (scHeap c)\<rparr>) (\<lambda>_. Return None)"

text \<open>A standard middleware as a program: it works on the store, calls the next handler with a writer and
  a request (and may recover a panic of it), or ends.\<close>

datatype stdprog =
    StdReturn
  | StdPanic pval
  | StdEffect "wheap \<Rightarrow> wheap" "wheap \<Rightarrow> stdprog"
  | StdNext addr request "pval option \<Rightarrow> stdprog"

text \<open>The function \<^verbatim>\<open>next\<close> up to its call of \<^verbatim>\<open>Next\<close>: a writer of the program is used as it is, any other is put
  below the pooled writer, which is reset.\<close>

definition resetPooled :: "addr \<Rightarrow> wobj \<Rightarrow> wobj" where
  "resetPooled a ob = (case ob of Pooled w \<Rightarrow> Pooled (rw_reset a w) | _ \<Rightarrow> ob)"

definition adopt :: "addr \<Rightarrow> request \<Rightarrow> stdctx \<Rightarrow> stdctx" where
  "adopt a r c =
     (let c1 = (if isResponseWriter (scHeap c a) then c\<lparr>scWriter := a\<rparr>
                else c\<lparr>scHeap := (scHeap c)(scPooled c := resetPooled a (scHeap c (scPooled c))),
                       scWriter := scPooled c\<rparr>)
      in c1\<lparr>scCtx := (scCtx c1)\<lparr>cxRequest := r\<rparr>\<rparr>)"

text \<open>Running the middleware; \<open>e\<close> is \<^verbatim>\<open>chainErr\<close>.\<close>

primrec runStd :: "stdprog \<Rightarrow> goerr option \<Rightarrow> stdctx hprog" where
  "runStd StdReturn e = Return e"
| "runStd (StdPanic v) e = Raise v"
| "runStd (StdEffect f k) e = Effect (\<lambda>c. c\<lparr>scHeap := f (scHeap c)\<rparr>) (\<lambda>c. runStd (k (scHeap c)) e)"
| "runStd (StdNext a r k) e =
     Effect (adopt a r) (\<lambda>_. CallNext (\<lambda>out. case out of
         Inl v \<Rightarrow> runStd (k (Some v)) e
       | Inr err \<Rightarrow> runStd (k None) err))"

definition FromStd :: "(addr \<Rightarrow> request \<Rightarrow> stdprog) \<Rightarrow> stdctx hprog" where
  "FromStd mw = Effect id (\<lambda>c. runStd (mw (scWriter c) (cxRequest (scCtx c))) None)"

section \<open>What calls leave alone\<close>

text \<open>An object without the contents that writes change.\<close>

definition skeleton :: "wobj \<Rightarrow> wobj" where
  "skeleton ob =
     (case ob of
        ServerWriter w \<Rightarrow> ServerWriter freshWriter
      | PlainWriter b \<Rightarrow> PlainWriter b
      | Pooled w \<Rightarrow> Pooled (w\<lparr>rwStatus := 0, rwSize := 0\<rparr>))"

definition sameShape :: "wheap \<Rightarrow> wheap \<Rightarrow> bool" where
  "sameShape h h' \<longleftrightarrow> (\<forall>a. skeleton (h' a) = skeleton (h a))"

lemma sameShape_refl [simp]: "sameShape h h"
  by (simp add: sameShape_def)

lemma sameShape_trans: "sameShape h h1 \<Longrightarrow> sameShape h1 h2 \<Longrightarrow> sameShape h h2"
  by (simp add: sameShape_def)

lemma sameShape_update: "skeleton ob = skeleton (h a) \<Longrightarrow> sameShape h (h(a := ob))"
  by (simp add: sameShape_def)

lemma skeleton_simps [simp]:
  "skeleton (ServerWriter w) = ServerWriter freshWriter"
  "skeleton (PlainWriter b) = PlainWriter b"
  "skeleton (Pooled v) = Pooled (v\<lparr>rwStatus := 0, rwSize := 0\<rparr>)"
  by (simp_all add: skeleton_def)

lemma blank_eq:
  "v\<lparr>rwStatus := 0, rwSize := 0\<rparr> = w\<lparr>rwStatus := 0, rwSize := 0\<rparr> \<longleftrightarrow>
     rwUnder v = rwUnder w \<and> rwSuppress v = rwSuppress w" for v w :: "addr responseWriter"
  by (cases v; cases w) simp

lemma sameShape_Server: "sameShape h h' \<Longrightarrow> h a = ServerWriter w \<Longrightarrow> \<exists>w'. h' a = ServerWriter w'"
  unfolding sameShape_def by (drule spec [of _ a], cases "h' a") simp_all

lemma sameShape_Plain: "sameShape h h' \<Longrightarrow> h a = PlainWriter b \<Longrightarrow> h' a = PlainWriter b"
  unfolding sameShape_def by (drule spec [of _ a], cases "h' a") simp_all

lemma sameShape_Pooled:
  "sameShape h h' \<Longrightarrow> h a = Pooled v \<Longrightarrow>
     \<exists>v'. h' a = Pooled v' \<and> rwUnder v' = rwUnder v \<and> rwSuppress v' = rwSuppress v"
  unfolding sameShape_def by (drule spec [of _ a], cases "h' a") (simp_all add: blank_eq)

lemma addSize_shape: "sameShape h (addSize n a h)"
  unfolding addSize_def by (cases "h a") (simp_all add: sameShape_update blank_eq)

lemma hWriteHeader_shape: "hWriteHeader code a h = Some h' \<Longrightarrow> sameShape h h'"
proof (induction rule: hWriteHeader.raw_induct [rotated, consumes 1, case_names step])
  case (step rec code a h h')
  show ?case
  proof (cases "h a")
    case (ServerWriter w)
    with step(2) show ?thesis by (auto intro!: sameShape_update)
  next
    case (PlainWriter b)
    with step show ?thesis by simp
  next
    case (Pooled w)
    have "sameShape h (h(a := Pooled (w\<lparr>rwStatus := code\<rparr>)))"
      by (rule sameShape_update) (simp add: Pooled blank_eq)
    with step Pooled show ?thesis by (auto split: if_splits intro: sameShape_trans)
  qed
qed

lemma hWrite_shape: "hWrite b a h = Some r \<Longrightarrow> sameShape h (snd r)"
proof (induction rule: hWrite.raw_induct [rotated, consumes 1, case_names step])
  case (step rec b a h r)
  show ?case
  proof (cases "h a")
    case (ServerWriter w)
    with step(2) show ?thesis by (auto intro!: sameShape_update split: prod.splits)
  next
    case (PlainWriter u)
    with step show ?thesis by simp
  next
    case (Pooled w)
    then obtain h1 where h1: "(if rwStatus w = noStatus then hWriteHeader 200 a h else Some h) = Some h1"
      and r: "(if suppresses (h1 a) then Some ((length b, None), addSize (length b) a h1)
            else Option.bind (rec b (rwUnder w) h1) (\<lambda>rh.
                   Some (fst rh, addSize (fst (fst rh)) a (snd rh)))) = Some r"
      using step(2) by (auto simp: bind_eq_Some_conv)
    have s: "sameShape h h1" using h1 hWriteHeader_shape by (auto split: if_splits)
    show ?thesis
    proof (cases "suppresses (h1 a)")
      case True
      then have "snd r = addSize (length b) a h1" using r by auto
      then show ?thesis using sameShape_trans [OF s addSize_shape] by simp
    next
      case False
      then obtain rh where "rec b (rwUnder w) h1 = Some rh" "snd r = addSize (fst (fst rh)) a (snd rh)"
        using r by (auto simp: bind_eq_Some_conv)
      then show ?thesis using sameShape_trans [OF s] sameShape_trans [OF _ addSize_shape] step(1) by metis
    qed
  qed
qed

section \<open>Writers that reach the server\<close>

text \<open>The writers from \<open>a\<close> on lead to the server's, and none of them is in \<open>X\<close>.\<close>

inductive grounded :: "addr set \<Rightarrow> wheap \<Rightarrow> addr \<Rightarrow> bool" for X h where
  server: "h a = ServerWriter w \<Longrightarrow> a \<notin> X \<Longrightarrow> grounded X h a"
| plain: "h a = PlainWriter b \<Longrightarrow> a \<notin> X \<Longrightarrow> grounded X h b \<Longrightarrow> grounded X h a"
| pooled: "h a = Pooled w \<Longrightarrow> a \<notin> X \<Longrightarrow> grounded X h (rwUnder w) \<Longrightarrow> grounded X h a"

lemma grounded_shape: "grounded X h a \<Longrightarrow> sameShape h h' \<Longrightarrow> grounded X h' a"
proof (induction rule: grounded.induct)
  case (server a w)
  then show ?case using sameShape_Server [of h h' a w] by (auto intro: grounded.server)
next
  case (plain a b)
  then show ?case using sameShape_Plain [of h h' a b] by (auto intro: grounded.plain)
next
  case (pooled a w)
  then show ?case using sameShape_Pooled [of h h' a w] by (metis grounded.pooled)
qed

lemma grounded_away: "grounded X h a \<Longrightarrow> p \<in> X \<Longrightarrow> grounded {} (h(p := ob)) a"
  by (induction rule: grounded.induct) (auto intro: grounded.intros)

lemma hWriteHeader_returns:
  "grounded X h a \<Longrightarrow> sameShape h h1 \<Longrightarrow> \<exists>h'. hWriteHeader code a h1 = Some h'"
proof (induction arbitrary: h1 rule: grounded.induct)
  case (server a w)
  then show ?case using sameShape_Server [of h h1 a w] by (auto simp: hWriteHeader.simps [of code a])
next
  case (plain a b)
  then show ?case using sameShape_Plain [of h h1 a b] by (auto simp: hWriteHeader.simps [of code a])
next
  case (pooled a w)
  then obtain v where v: "h1 a = Pooled v" "rwUnder v = rwUnder w" using sameShape_Pooled by blast
  have "sameShape h1 (h1(a := Pooled (v\<lparr>rwStatus := code\<rparr>)))"
    by (rule sameShape_update) (simp add: v blank_eq)
  then have "\<exists>h'. hWriteHeader code (rwUnder v) (h1(a := Pooled (v\<lparr>rwStatus := code\<rparr>))) = Some h'"
    using pooled.IH [OF sameShape_trans [OF pooled.prems]] v(2) by metis
  then show ?case using v(1) by (auto simp: hWriteHeader.simps [of code a])
qed

lemma hWrite_returns: "grounded X h a \<Longrightarrow> sameShape h h1 \<Longrightarrow> \<exists>r. hWrite b a h1 = Some r"
proof (induction arbitrary: h1 rule: grounded.induct)
  case (server a w)
  then show ?case using sameShape_Server [of h h1 a w] by (auto simp: hWrite.simps [of b a] split: prod.split)
next
  case (plain a u)
  then show ?case using sameShape_Plain [of h h1 a u] by (auto simp: hWrite.simps [of b a])
next
  case (pooled a w)
  then obtain v where v: "h1 a = Pooled v" "rwUnder v = rwUnder w" using sameShape_Pooled by blast
  have "grounded X h a" using pooled by (blast intro: grounded.pooled)
  then have "\<exists>h2. (if rwStatus v = noStatus then hWriteHeader 200 a h1 else Some h1) = Some h2"
    using hWriteHeader_returns [OF _ pooled.prems, of X a 200] by simp
  then obtain h2 where h2: "(if rwStatus v = noStatus then hWriteHeader 200 a h1 else Some h1) = Some h2" ..
  then have "sameShape h1 h2" using hWriteHeader_shape by (auto split: if_splits)
  then obtain r where "hWrite b (rwUnder v) h2 = Some r"
    using pooled.IH sameShape_trans [OF pooled.prems] v(2) by fastforce
  then show ?case using v(1) h2 by (simp add: hWrite.simps [of b a])
qed

section \<open>A writer around the pooled one\<close>

text \<open>From \<open>a\<close>, plain writers lead to \<open>p\<close>.\<close>

inductive wraps :: "addr \<Rightarrow> wheap \<Rightarrow> addr \<Rightarrow> bool" for p h where
  here: "wraps p h p"
| further: "h a = PlainWriter b \<Longrightarrow> wraps p h b \<Longrightarrow> wraps p h a"

definition ring :: "addr \<Rightarrow> wheap \<Rightarrow> bool" where
  "ring p h \<longleftrightarrow> (case h p of Pooled w \<Rightarrow> \<not> rwSuppress w \<and> wraps p h (rwUnder w) | _ \<Rightarrow> False)"

lemma wraps_shape: "wraps p h a \<Longrightarrow> sameShape h h' \<Longrightarrow> wraps p h' a"
  by (induction rule: wraps.induct) (auto intro: wraps.intros dest: sameShape_Plain)

lemma ring_Pooled: "ring p h \<longleftrightarrow> (\<exists>w. h p = Pooled w \<and> \<not> rwSuppress w \<and> wraps p h (rwUnder w))"
  by (cases "h p") (simp_all add: ring_def)

lemma ring_shape: "ring p h \<Longrightarrow> sameShape h h' \<Longrightarrow> ring p h'"
  unfolding ring_Pooled using sameShape_Pooled wraps_shape by metis

lemma wraps_cases: "wraps p h a \<Longrightarrow> a = p \<or> (\<exists>b. h a = PlainWriter b \<and> wraps p h b)"
  by (erule wraps.cases) auto

lemma ring_header: "hHeader a h = Some hs \<Longrightarrow> \<not> (wraps p h a \<and> ring p h)"
proof (induction rule: hHeader.raw_induct [rotated, consumes 1, case_names step])
  case (step rec a h hs)
  show ?case
  proof
    assume r: "wraps p h a \<and> ring p h"
    then consider "a = p" | b where "h a = PlainWriter b" "wraps p h b" using wraps_cases by blast
    then show False
    proof cases
      case 1
      then obtain w where "h a = Pooled w" "wraps p h (rwUnder w)" using r by (auto simp: ring_Pooled)
      then show False using step r by auto
    next
      case 2
      then show False using step r by auto
    qed
  qed
qed

lemma ring_write: "hWrite b a h = Some r \<Longrightarrow> \<not> (wraps p h a \<and> ring p h)"
proof (induction rule: hWrite.raw_induct [rotated, consumes 1, case_names step])
  case (step rec b a h r)
  show ?case
  proof
    assume c: "wraps p h a \<and> ring p h"
    then consider "a = p" | u where "h a = PlainWriter u" "wraps p h u" using wraps_cases by blast
    then show False
    proof cases
      case 1
      then obtain w where w: "h a = Pooled w" "\<not> rwSuppress w" "wraps p h (rwUnder w)"
        using c by (auto simp: ring_Pooled)
      then obtain h1 where h1: "(if rwStatus w = noStatus then hWriteHeader 200 a h else Some h) = Some h1"
        and r: "suppresses (h1 a) \<or> (\<exists>rh. rec b (rwUnder w) h1 = Some rh)"
        using step(2) by (auto simp: bind_eq_Some_conv split: if_splits)
      have s: "sameShape h h1" using h1 hWriteHeader_shape by (auto split: if_splits)
      obtain v where "h1 a = Pooled v" "rwSuppress v = rwSuppress w" using sameShape_Pooled [OF s w(1)] by blast
      then obtain rh where "rec b (rwUnder w) h1 = Some rh" using r w(2) by (auto simp: suppresses_def)
      then show False using step(1) wraps_shape [OF w(3) s] ring_shape [OF conjunct2 [OF c] s] by blast
    next
      case 2
      then show False using step c by auto
    qed
  qed
qed

section \<open>The pooled writer over the server's\<close>

text \<open>The store with the pooled writer at \<open>p\<close> over the server's at \<open>u\<close>, as \<open>Response\<close> has them nested.\<close>

definition unnest :: "addr \<Rightarrow> 'w responseWriter \<Rightarrow> addr responseWriter" where
  "unnest u w = \<lparr>rwUnder = u, rwStatus = rwStatus w, rwSize = rwSize w, rwSuppress = rwSuppress w\<rparr>"

definition store2 :: "addr \<Rightarrow> addr \<Rightarrow> stdWriter responseWriter \<Rightarrow> wheap \<Rightarrow> wheap" where
  "store2 p u w h = h(p := Pooled (unnest u w), u := ServerWriter (rwUnder w))"

lemma store2_WriteHeader:
  assumes "p \<noteq> u"
  shows "hWriteHeader code p (store2 p u w h) = Some (store2 p u (rw_WriteHeader std_WriteHeader code w) h)"
  using assms
  by (auto simp: hWriteHeader.simps [of code p] hWriteHeader.simps [of code u] store2_def unnest_def rw_WriteHeader_def
      fun_eq_iff)

lemma store2_Write:
  assumes "p \<noteq> u"
  shows "hWrite b p (store2 p u w h) =
    Some (apsnd (\<lambda>w'. store2 p u w' h) (rw_Write std_WriteHeader std_Write b w))"
proof -
  define w1 where "w1 = (if rwStatus w = noStatus then rw_WriteHeader std_WriteHeader 200 w else w)"
  have h1: "(if rwStatus (unnest u w) = noStatus then hWriteHeader 200 p (store2 p u w h) else Some (store2 p u w h)) =
      Some (store2 p u w1 h)"
    using store2_WriteHeader [OF assms] by (simp add: w1_def unnest_def)
  have at: "store2 p u v h p = Pooled (unnest u v)" "store2 p u v h u = ServerWriter (rwUnder v)" for v
    using assms by (simp_all add: store2_def)
  obtain n err w' where sw: "std_Write b (rwUnder w1) = ((n, err), w')" by (metis surj_pair)
  have size: "addSize m p (store2 p u v h) = store2 p u (v\<lparr>rwSize := rwSize v + int m\<rparr>) h" for m v
    using assms by (auto simp: addSize_def at store2_def unnest_def fun_eq_iff)
  have under: "(store2 p u w1 h)(u := ServerWriter w') = store2 p u (w1\<lparr>rwUnder := w'\<rparr>) h"
    by (simp add: store2_def unnest_def)
  have "hWrite b u (store2 p u w1 h) = Some ((n, err), store2 p u (w1\<lparr>rwUnder := w'\<rparr>) h)"
    by (simp add: hWrite.simps [of b u] at sw under)
  then show ?thesis
    unfolding hWrite.simps [of b p] at rw_Write_def w1_def [symmetric] Let_def
    by (simp add: h1 at suppresses_def unnest_def [of u w1] sw) (simp add: unnest_def size)
qed

section \<open>Standard middleware in a chain\<close>

text \<open>Two kinds of standard middleware, neither of which recovers a panic: one that works on the writer it
  is given before and after the next handler, and one that puts a writer of its own around it, at a
  free address.\<close>

definition thenStd :: "stdprog \<Rightarrow> pval option \<Rightarrow> stdprog" where
  "thenStd k p = (case p of None \<Rightarrow> k | Some v \<Rightarrow> StdPanic v)"

definition stdAround :: "(wheap \<Rightarrow> wheap) \<Rightarrow> (wheap \<Rightarrow> wheap) \<Rightarrow> addr \<Rightarrow> request \<Rightarrow> stdprog" where
  "stdAround pre post w r =
     StdEffect pre (\<lambda>_. StdNext w r (thenStd (StdEffect post (\<lambda>_. StdReturn))))"

definition stdWrapping :: "(wheap \<Rightarrow> addr) \<Rightarrow> addr \<Rightarrow> request \<Rightarrow> stdprog" where
  "stdWrapping fresh w r =
     StdEffect (\<lambda>h. h(fresh h := PlainWriter w)) (\<lambda>h. StdNext (fresh h) r (thenStd StdReturn))"

definition onHeap :: "(wheap \<Rightarrow> wheap) \<Rightarrow> stdctx \<Rightarrow> stdctx" where
  "onHeap f c = c\<lparr>scHeap := f (scHeap c)\<rparr>"

lemma thenStd_simps [simp]: "thenStd k None = k" "thenStd k (Some v) = StdPanic v"
  by (simp_all add: thenStd_def)

lemma adopt_own: "isResponseWriter (scHeap c (scWriter c)) \<Longrightarrow> adopt (scWriter c) (cxRequest (scCtx c)) c = c"
  by (simp add: adopt_def)

lemma adopt_foreign:
  assumes "\<not> isResponseWriter (scHeap c a)" "scHeap c (scPooled c) = Pooled w"
  shows "scWriter (adopt a r c) = scPooled c"
    "scHeap (adopt a r c) = (scHeap c)(scPooled c := Pooled (rw_reset a w))"
  using assms by (simp_all add: adopt_def resetPooled_def)

text \<open>A foreign writer's reset forgets that the body is to be suppressed: behind such a middleware, HEAD
  requests that a GET handler answers get its body.\<close>

lemma foreign_writer_sends_body:
  "\<not> isResponseWriter (scHeap c a) \<Longrightarrow> scHeap c (scPooled c) = Pooled w \<Longrightarrow>
     \<not> suppresses (scHeap (adopt a r c) (scWriter (adopt a r c)))"
  by (simp add: adopt_foreign suppresses_def rw_reset_def)

text \<open>What \<open>FromStd\<close> returns is an error of the chain behind, or none.\<close>

lemma runStd_error:
  "exec nxt (runStd p e0) s = Some (Inr (Some e), s') \<Longrightarrow>
     e0 = Some e \<or> (\<exists>t t'. nxt t = Some (Inr (Some e), t'))"
proof (induction p arbitrary: e0 s)
  case (StdNext a r k)
  then obtain out s1 where n: "nxt (s\<lparr>cctx := adopt a r (cctx s)\<rparr>) = Some (out, s1)"
    "exec nxt (case out of Inl v \<Rightarrow> runStd (k (Some v)) e0 | Inr err \<Rightarrow> runStd (k None) err) s1 = Some (Inr (Some e), s')"
    by (auto split: option.splits)
  show ?case
  proof (cases out)
    case (Inl v)
    then show ?thesis using StdNext.IH [OF rangeI, of "Some v" e0 s1] n(2) by simp
  next
    case (Inr err)
    then show ?thesis using StdNext.IH [OF rangeI, of None err s1] n by auto
  qed
next
  case (StdEffect f k)
  then show ?case by (auto dest: StdEffect.IH [OF rangeI])
qed auto

lemma FromStd_error:
  "exec nxt (FromStd mw) s = Some (Inr (Some e), s') \<Longrightarrow> \<exists>t t'. nxt t = Some (Inr (Some e), t')"
  unfolding FromStd_def using runStd_error [where ?e0.0 = None] by fastforce

section \<open>Sample\<close>

definition sampleStore :: wheap where
  "sampleStore = store2 5 4 (rw_reset freshWriter recycled) (\<lambda>a. ServerWriter freshWriter)"

definition stdSample :: "ctx \<Rightarrow> stdctx cstate" where
  "stdSample c = \<lparr>cctx = \<lparr>scHeap = sampleStore, scWriter = 5, scPooled = 5, scCtx = c\<rparr>, cindex = -1\<rparr>"

lemma sampleStore_at:
  "sampleStore 4 = ServerWriter freshWriter" "isResponseWriter (sampleStore 5)"
  "\<exists>w. sampleStore 5 = Pooled w" "sampleStore 2 = ServerWriter freshWriter" "\<not> isResponseWriter (sampleStore 2)"
  by (simp_all add: sampleStore_def store2_def rw_reset_def isResponseWriter_def)

section \<open>Properties\<close>

text \<open>C22. On a request that it leaves as it is, a standard middleware that works on the writer it is given and
  calls the next handler with it once is, under \<open>FromStd\<close>, the middleware of the program that does the
  same work around \<open>Next\<close>: it reaches the same chain, lets a panic through and returns the chain's error.\<close>

theorem std_middleware_is_around:
  assumes "isResponseWriter (pre (scHeap (cctx s)) (scWriter (cctx s)))"
  shows "exec nxt (FromStd (stdAround pre post)) s = exec nxt (around (onHeap pre) (onHeap post)) s"
proof -
  let ?c = "onHeap pre (cctx s)"
  have "adopt (scWriter (cctx s)) (cxRequest (scCtx (cctx s))) ?c = ?c"
    using assms adopt_own [of ?c] by (simp add: onHeap_def)
  then show ?thesis
    by (simp add: FromStd_def stdAround_def around_def onHeap_def split: option.split sum.split)
qed

theorem std_middleware_is_around_witness:
  "\<forall>c nxt. exec nxt (FromStd (stdAround id id)) (stdSample c) = exec nxt (around (onHeap id) (onHeap id)) (stdSample c)"
proof (intro allI)
  fix c nxt
  show "exec nxt (FromStd (stdAround id id)) (stdSample c) = exec nxt (around (onHeap id) (onHeap id)) (stdSample c)"
    by (rule std_middleware_is_around) (simp add: stdSample_def sampleStore_at)
qed

text \<open>C23. A standard middleware that puts a plain writer around the one it is given,
  as compressing or counting middleware does, makes the pooled writer its own successor: the chain
  runs with a writer whose \<^verbatim>\<open>Write\<close> and \<^verbatim>\<open>Header\<close> never return.\<close>

theorem std_wrapper_never_returns:
  assumes "scWriter (cctx s) = scPooled (cctx s)" "isResponseWriter (scHeap (cctx s) (scPooled (cctx s)))"
    and "fresh (scHeap (cctx s)) \<noteq> scPooled (cctx s)"
  shows "\<exists>c. (\<forall>nxt. exec nxt (FromStd (stdWrapping fresh)) s = nxt (s\<lparr>cctx := c\<rparr>)) \<and>
    (\<forall>b. hWrite b (scWriter c) (scHeap c) = None) \<and> hHeader (scWriter c) (scHeap c) = None"
proof -
  let ?p = "scPooled (cctx s)" and ?a = "fresh (scHeap (cctx s))"
  let ?c = "onHeap (\<lambda>h. h(?a := PlainWriter ?p)) (cctx s)"
  let ?d = "adopt ?a (cxRequest (scCtx (cctx s))) ?c"
  obtain w where w: "scHeap (cctx s) ?p = Pooled w"
    using assms(2) by (auto simp: isResponseWriter_def split: wobj.splits)
  have p: "scPooled ?c = ?p" "scHeap ?c ?p = Pooled w" "scHeap ?c ?a = PlainWriter ?p"
    using w assms(3) by (auto simp: onHeap_def)
  have f: "\<not> isResponseWriter (scHeap ?c ?a)" using p(3) by (simp add: isResponseWriter_def)
  have d: "scWriter ?d = ?p" "scHeap ?d = (scHeap ?c)(?p := Pooled (rw_reset ?a w))"
    using adopt_foreign [OF f] p(1,2) by simp_all
  have "scHeap ?d ?a = PlainWriter ?p" using d(2) p(3) assms(3) by simp
  then have r: "wraps ?p (scHeap ?d) ?p \<and> ring ?p (scHeap ?d)"
    using d(2) by (auto simp: ring_Pooled rw_reset_def intro: wraps.intros)
  have "exec nxt (FromStd (stdWrapping fresh)) s = nxt (s\<lparr>cctx := ?d\<rparr>)" for nxt
    using assms(1) by (simp add: FromStd_def stdWrapping_def onHeap_def split: option.split sum.split)
  moreover have "hWrite b (scWriter ?d) (scHeap ?d) = None" for b
    using ring_write [of b ?p "scHeap ?d"] r unfolding d(1) by (cases "hWrite b ?p (scHeap ?d)") blast+
  moreover have "hHeader (scWriter ?d) (scHeap ?d) = None"
    using ring_header [of ?p "scHeap ?d"] r unfolding d(1) by (cases "hHeader ?p (scHeap ?d)") blast+
  ultimately show ?thesis by blast
qed

theorem std_wrapper_never_returns_witness:
  "\<forall>c0. \<exists>c. (\<forall>nxt. exec nxt (FromStd (stdWrapping (\<lambda>h. 2))) (stdSample c0) = nxt ((stdSample c0)\<lparr>cctx := c\<rparr>)) \<and>
     (\<forall>b. hWrite b (scWriter c) (scHeap c) = None) \<and> hHeader (scWriter c) (scHeap c) = None"
proof
  fix c0
  show "\<exists>c. (\<forall>nxt. exec nxt (FromStd (stdWrapping (\<lambda>h. 2))) (stdSample c0) = nxt ((stdSample c0)\<lparr>cctx := c\<rparr>)) \<and>
     (\<forall>b. hWrite b (scWriter c) (scHeap c) = None) \<and> hHeader (scWriter c) (scHeap c) = None"
    by (rule std_wrapper_never_returns) (simp_all add: stdSample_def sampleStore_at)
qed

text \<open>With a writer of the program, or with a foreign one that leads to the server
  without passing through the pooled writer, every write of the handlers behind returns.\<close>

theorem std_writer_returns:
  assumes "isResponseWriter (scHeap c (scPooled c))"
    and "grounded (if isResponseWriter (scHeap c a) then {} else {scPooled c}) (scHeap c) a"
  shows "\<exists>out h. hWrite b (scWriter (adopt a r c)) (scHeap (adopt a r c)) = Some (out, h)"
proof (cases "isResponseWriter (scHeap c a)")
  case True
  then have "hWrite b (scWriter (adopt a r c)) (scHeap (adopt a r c)) = hWrite b a (scHeap c)"
    by (simp add: adopt_def)
  then show ?thesis using assms(2) hWrite_returns [OF _ sameShape_refl] True by auto
next
  case False
  obtain w where w: "scHeap c (scPooled c) = Pooled w"
    using assms(1) by (auto simp: isResponseWriter_def split: wobj.splits)
  let ?h = "(scHeap c)(scPooled c := Pooled (rw_reset a w))"
  have "grounded {} ?h a" using assms(2) False grounded_away by simp
  moreover have "?h (scPooled c) = Pooled (rw_reset a w)" "rwUnder (rw_reset a w) = a" by (simp_all add: rw_reset_def)
  ultimately have "grounded {} ?h (scPooled c)" by (metis grounded.pooled empty_iff)
  then obtain out where "hWrite b (scPooled c) ?h = Some out" using hWrite_returns [OF _ sameShape_refl] by blast
  then show ?thesis unfolding adopt_foreign [OF False w] by (cases out) simp
qed

theorem std_writer_returns_witness:
  "\<forall>c r. \<exists>out h. hWrite ''ok'' (scWriter (adopt 2 r (cctx (stdSample c)))) (scHeap (adopt 2 r (cctx (stdSample c)))) =
     Some (out, h)"
proof (intro allI)
  fix c r
  show "\<exists>out h. hWrite ''ok'' (scWriter (adopt 2 r (cctx (stdSample c)))) (scHeap (adopt 2 r (cctx (stdSample c)))) =
     Some (out, h)"
    by (rule std_writer_returns)
      (auto simp: stdSample_def sampleStore_at intro: grounded.server)
qed

text \<open>For the pooled writer over the server's, a write through the store is the nested
  write of \<open>Response\<close>, and both stay the two writers of one response.\<close>

theorem store_writes_nested:
  assumes "p \<noteq> u"
  shows "hWrite b p (store2 p u w h) = Some (apsnd (\<lambda>w'. store2 p u w' h) (rw_Write std_WriteHeader std_Write b w))"
  by (rule store2_Write [OF assms])

theorem store_writes_nested_witness:
  "hWrite ''ok'' 5 (store2 5 4 recycled sampleStore) =
     Some (apsnd (\<lambda>w'. store2 5 4 w' sampleStore) (rw_Write std_WriteHeader std_Write ''ok'' recycled))"
  by (rule store_writes_nested) simp

end
