(* ===== verification/Static.thy ===== *)
theory Static
  imports Group "HOL-Library.Sublist"
begin

text \<open>
  Files and templates (\<^verbatim>\<open>static.go\<close>, \<^verbatim>\<open>render.go\<close>).  Of \<^verbatim>\<open>net/http\<close>'s file server the model has what the
  code relies on: \<^verbatim>\<open>StripPrefix\<close>, and the cleaned name that \<^verbatim>\<open>FileServer\<close> derives from the request path.
  Serving the file of a name (\<open>serve\<close>), \<^verbatim>\<open>ServeFile\<close> and \<^verbatim>\<open>ServeFileFS\<close> are arguments, handlers on the
  writer and the request.
\<close>

section \<open>The standard library's file server\<close>

definition trimRight :: "char \<Rightarrow> string \<Rightarrow> string" where
  "trimRight c s = rev (dropWhile (\<lambda>d. d = c) (rev s))"

type_synonym fileServe = "string \<Rightarrow> httpHandler"

text \<open>\<^verbatim>\<open>FileServer\<close>: the path is rooted and cleaned.\<close>

definition fileServer :: "fileServe \<Rightarrow> httpHandler" where
  "fileServer serve w req =
     (let upath = (if prefix ''/'' (reqPath req) then reqPath req else CHR ''/'' # reqPath req)
      in serve (cleanRooted upath) w (req\<lparr>reqPath := upath\<rparr>))"

definition runHttp :: "httpHandler \<Rightarrow> request \<Rightarrow> ctx \<Rightarrow> pval option \<times> ctx" where
  "runHttp h req c = (case h (cxWriter c) req of (p, w) \<Rightarrow> (p, c\<lparr>cxWriter := w\<rparr>))"

text \<open>\<^verbatim>\<open>StripPrefix\<close>: the request is copied, with the prefix taken from both forms of its path; a path
  without the prefix is not found.\<close>

definition http_StripPrefix :: "string \<Rightarrow> httpHandler \<Rightarrow> ctx \<Rightarrow> pval option \<times> ctx" where
  "http_StripPrefix pre h c =
     (let req = cxRequest c; p = trimPrefix (reqPath req) pre; rp = trimPrefix (reqRawPath req) pre
      in if pre = [] then runHttp h req c
         else if length p < length (reqPath req) \<and> (reqRawPath req = [] \<or> length rp < length (reqRawPath req))
           then runHttp h (req\<lparr>reqPath := p, reqRawPath := rp\<rparr>) c
         else (None, http_Error ''404 page not found'' 404 c))"

section \<open>Static routes\<close>

text \<open>A handler from a step on the context that may panic and returns no error.\<close>

definition stepHandler :: "(ctx \<Rightarrow> pval option \<times> ctx) \<Rightarrow> handler" where
  "stepHandler f = Effect (\<lambda>c. snd (f c)) (\<lambda>c. case fst (f c) of Some v \<Rightarrow> Raise v | None \<Rightarrow> Return None)"

definition staticHandler :: "fileServe \<Rightarrow> string \<Rightarrow> handler" where
  "staticHandler serve pre = stepHandler (http_StripPrefix (trimRight (CHR ''/'') pre) (fileServer serve))"

definition StaticFS :: "string \<Rightarrow> fileServe \<Rightarrow> router \<Rightarrow> (gopanic + router) option" where
  "StaticFS pre serve r =
     (if length pre = 0 \<or> pre ! 0 \<noteq> CHR ''/'' then
        Some (Inl (PanicMsg (''goxpress: static prefix must begin with '' @ quoted ''/'' @ '', got '' @ quoted pre)))
      else rt_Get (trimRight (CHR ''/'') pre @ ''/*filepath'') [staticHandler serve pre] r)"

text \<open>\<open>dirFS\<close> is \<^verbatim>\<open>os.DirFS\<close>, given as the serving of its files.\<close>

definition Static :: "(string \<Rightarrow> fileServe) \<Rightarrow> string \<Rightarrow> string \<Rightarrow> router \<Rightarrow> (gopanic + router) option" where
  "Static dirFS pre root r = StaticFS pre (dirFS root) r"

definition cx_File :: "fileServe \<Rightarrow> string \<Rightarrow> ctx \<Rightarrow> pval option \<times> ctx" where
  "cx_File serveFile filepath c = runHttp (serveFile filepath) (cxRequest c) c"

definition FileFromFS :: "('fs \<Rightarrow> fileServe) \<Rightarrow> string \<Rightarrow> 'fs \<Rightarrow> ctx \<Rightarrow> pval option \<times> ctx" where
  "FileFromFS serveFileFS filepath fsys c = runHttp (serveFileFS fsys filepath) (cxRequest c) c"

text \<open>\<open>quote\<close> is \<^verbatim>\<open>fmt\<close>'s \<^verbatim>\<open>%q\<close>.\<close>

definition Attachment :: "(string \<Rightarrow> string) \<Rightarrow> fileServe \<Rightarrow> string \<Rightarrow> string \<Rightarrow> ctx \<Rightarrow> pval option \<times> ctx" where
  "Attachment quote serveFile filepath name c =
     cx_File serveFile filepath (cx_SetHeader ''Content-Disposition'' (''attachment; filename='' @ quote name) c)"

definition rt_File :: "fileServe \<Rightarrow> string \<Rightarrow> string \<Rightarrow> router \<Rightarrow> (gopanic + router) option" where
  "rt_File serveFile path filepath r = rt_Get path [stepHandler (cx_File serveFile filepath)] r"

section \<open>Templates\<close>

record templateRenderer =
  trTemplate :: "string \<Rightarrow> anyval \<Rightarrow> encoded"

definition NewTemplateRenderer :: "(string \<Rightarrow> anyval \<Rightarrow> encoded) \<Rightarrow> templateRenderer" where
  "NewTemplateRenderer t = \<lparr>trTemplate = t\<rparr>"

definition tr_Render :: "templateRenderer \<Rightarrow> renderer" where
  "tr_Render tr name data = trTemplate tr name data"

section \<open>A static route in a set-up\<close>

lemma trimRight_last: "s \<noteq> [] \<Longrightarrow> last s \<noteq> c \<Longrightarrow> trimRight c s = s"
  by (cases s rule: rev_cases) (simp_all add: trimRight_def)

definition staticCall :: "string \<Rightarrow> fileServe \<Rightarrow> setupCall" where
  "staticCall p serve = SHandle ''GET'' (p @ ''/*filepath'') [staticHandler serve p]"

lemma StaticFS_call:
  assumes "mountPrefix p"
  shows "StaticFS p serve r = runSetup [staticCall p serve] r"
proof -
  have "p \<noteq> []" "p ! 0 = CHR ''/''" "last p \<noteq> CHR ''/''"
    using assms by (auto simp: mountPrefix_def hd_conv_nth)
  then show ?thesis
    by (auto simp: StaticFS_def staticCall_def rt_Get_def trimRight_last split: option.split sum.split)
qed

lemma static_pat:
  assumes "mountPrefix p"
  shows "matches (pat (p @ ''/*filepath'')) (p @ CHR ''/'' # rest) = Some [\<lparr>Key = ''filepath'', Value = CHR ''/'' # rest\<rparr>]"
proof -
  have "toks (p @ ''/*filepath'') = map_option ((@) (map Lit p)) (toks ''/*filepath'')"
    using assms by (intro toks_append_lits) (auto simp: mountPrefix_def)
  moreover have "toks ''/*filepath'' = Some [Catch ''filepath'']" by code_simp
  ultimately have "pat (p @ ''/*filepath'') = map Lit p @ [Catch ''filepath'']" by (simp add: pat_def)
  then show ?thesis using matches_lits [of p "[Catch ''filepath'']" "p @ CHR ''/'' # rest"] by simp
qed

text \<open>A step as the result of a handler.\<close>

definition stepResult :: "ctx cstate \<Rightarrow> pval option \<times> ctx \<Rightarrow> ctx result option" where
  "stepResult s pc = Some (case fst pc of Some v \<Rightarrow> Inl v | None \<Rightarrow> Inr None, s\<lparr>cctx := snd pc\<rparr>)"

lemma stepHandler_exec: "exec nxt (stepHandler f) s = stepResult s (f (cctx s))"
  by (simp add: stepHandler_def stepResult_def split: option.split)

section \<open>Properties\<close>

text \<open>C21. After \<open>StaticFS\<close> under a prefix without wildcards, wherever it stands in a set-up without conflicting
  patterns, a GET request below the prefix, in its raw form too if it has one, runs the middleware in
  force and the file handler; that handler asks the file system for the rest of the path only in cleaned
  form, below the root: no segment of the name is empty, a dot or a double dot, whatever the request path
  contains.\<close>

theorem static_confined:
  assumes "mountPrefix p" "blank r0" "goodSetup (ops1 @ staticCall p serve # ops2)"
    and "runSetup ops1 r0 = Some (Inr r1)" "StaticFS p serve r1 = Some (Inr r2)" "runSetup ops2 r2 = Some (Inr r)"
    and "cxParams (cctx s) = []" "reqMethod (cxRequest (cctx s)) = ''GET''"
    and "reqPath (cxRequest (cctx s)) = p @ CHR ''/'' # rest"
    and "reqRawPath (cxRequest (cctx s)) = [] \<or> prefix p (reqRawPath (cxRequest (cctx s)))"
  shows "\<exists>ps ss. dispatch lib r s = runChain lib r (usedBy ops1 @ [staticHandler serve p]) (setParams ps s) \<and>
    (\<forall>nxt t. cxRequest (cctx t) = cxRequest (cctx s) \<longrightarrow>
       exec nxt (staticHandler serve p) t =
         stepResult t (runHttp (serve (CHR ''/'' # joinStrings ''/'' ss)) ((cxRequest (cctx s))
           \<lparr>reqRawPath := trimPrefix (reqRawPath (cxRequest (cctx s))) p, reqPath := CHR ''/'' # rest\<rparr>) (cctx t))) \<and>
    list_all plainSegment ss"
proof -
  let ?ops = "ops1 @ staticCall p serve # ops2" and ?ps = "[\<lparr>Key = ''filepath'', Value = CHR ''/'' # rest\<rparr>]"
  have "runSetup (staticCall p serve # ops2) r1 = Some (Inr r)"
    using runSetup_append [of "[staticCall p serve]" ops2 r1] assms(5,6) StaticFS_call [OF assms(1)] by simp
  then have "runSetup ?ops r0 = Some (Inr r)" using assms(4) by (simp add: runSetup_append)
  then have inv: "routerInv (tableOf [] ?ops) r" using setup_runs [OF assms(3,2)] by auto
  have "(p @ ''/*filepath'', usedBy ops1 @ [staticHandler serve p]) \<in> set (tableOf [] ?ops ''GET'')"
    by (simp add: tableOf_append staticCall_def)
  from scan_entry_found [OF goodSetup_conflictFree [OF assms(3)] this static_pat [OF assms(1), of rest]]
  have "dispatch lib r s = runChain lib r (usedBy ops1 @ [staticHandler serve p]) (setParams ?ps s)"
    using dispatch_spec [OF inv assms(7), of lib] assms(8,9) by (simp add: dispatchSpec_def Let_def)
  moreover have t: "trimRight (CHR ''/'') p = p" "p \<noteq> []"
    using assms(1) trimRight_last [of p] by (auto simp: mountPrefix_def)
  moreover obtain ss where ss: "cleanRooted (CHR ''/'' # rest) = CHR ''/'' # joinStrings ''/'' ss" "list_all plainSegment ss"
    using cleanRooted_segments by blast
  moreover have "exec nxt (staticHandler serve p) u =
      stepResult u (runHttp (serve (CHR ''/'' # joinStrings ''/'' ss)) ((cxRequest (cctx s))
        \<lparr>reqRawPath := trimPrefix (reqRawPath (cxRequest (cctx s))) p, reqPath := CHR ''/'' # rest\<rparr>) (cctx u))"
    if "cxRequest (cctx u) = cxRequest (cctx s)" for nxt u
    using assms(9,10) t ss(1) that
    by (auto simp: staticHandler_def stepHandler_exec http_StripPrefix_def fileServer_def runHttp_def Let_def prefix_def)
  ultimately show ?thesis by blast
qed

definition sampleServe :: fileServe where
  "sampleServe name w req = (None, snd (rw_Write std_WriteHeader std_Write name w))"

theorem static_confined_witness:
  "\<exists>r ps ss. StaticFS ''/assets'' sampleServe (New sampleLib) = Some (Inr r) \<and>
     dispatch sampleLib r (freshState ''GET'' ''/assets/../secret'') =
       runChain sampleLib r [staticHandler sampleServe ''/assets''] (setParams ps (freshState ''GET'' ''/assets/../secret'')) \<and>
     list_all plainSegment ss"
proof -
  have p: "mountPrefix ''/assets''" by code_simp
  have "conflictFree [(''/assets/*filepath'', [staticHandler sampleServe ''/assets''])]"
  proof -
    have "toks ''/assets/*filepath'' \<noteq> None" "ascii ''/assets/*filepath''" by code_simp+
    then show ?thesis by (simp add: conflictFree_Cons readable_def)
  qed
  then have g: "goodSetup ([] @ staticCall ''/assets'' sampleServe # [])"
    by (simp add: goodSetup_def staticCall_def)
  obtain r where "runSetup [staticCall ''/assets'' sampleServe] (New sampleLib) = Some (Inr r)"
    using setup_runs [OF g blank_New [of sampleLib]] by auto
  then have r: "StaticFS ''/assets'' sampleServe (New sampleLib) = Some (Inr r)" by (simp only: StaticFS_call [OF p])
  have q: "reqPath (cxRequest (cctx (freshState ''GET'' ''/assets/../secret''))) = ''/assets'' @ CHR ''/'' # ''../secret''"
    by simp
  have "reqRawPath (cxRequest (cctx (freshState ''GET'' ''/assets/../secret''))) = []"
    by (simp add: freshState_def requestFor_def)
  with static_confined [OF p blank_New g runSetup.simps(1) r runSetup.simps(1) freshState_simps(1,2) q, of sampleLib] r
  show ?thesis by (simp only: usedBy_def list.map concat.simps append_Nil) blast
qed

text \<open>A route handler that renders a template.\<close>

definition htmlHandler :: "int \<Rightarrow> string \<Rightarrow> anyval \<Rightarrow> handler" where
  "htmlHandler code name data =
     Effect (\<lambda>c. snd (cx_HTML code name data c)) (\<lambda>c. Return (fst (cx_HTML code name data c)))"

lemma Next_single: "Next [Effect f (\<lambda>c. Return (k c))] (s\<lparr>cindex := -1\<rparr>) =
    (case k (cctx s) of
       None \<Rightarrow> Some (Inr None, s\<lparr>cctx := f (cctx s), cindex := 1\<rparr>)
     | Some e \<Rightarrow> Some (Inr (Some e), s\<lparr>cctx := f (cctx s), cindex := 0\<rparr>))"
  by (simp add: Next_def NextFuel_def advance_def numeral_eq_Suc split: option.split)

text \<open>A handler whose template fails leaves the response untouched: the client gets
  the error handler's answer, status 500 and its JSON body, exactly as if nothing had been rendered.\<close>

theorem template_failure_clean:
  assumes "cxRenderer (cctx s) = Some (tr_Render (NewTemplateRenderer t))" "t name data = (buf, Some (PlainError e))"
    and "rtErrorHandler r = DefaultErrorHandler lib" "\<not> cxWritten (cctx s)"
  shows "runChain lib r [htmlHandler code name data] s =
    Some (None, s\<lparr>cctx := snd (cx_JSON 500 (libJSONError lib (StatusText 500), None) (cctx s)), cindex := 0\<rparr>)"
proof -
  have "cx_HTML code name data (cctx s) = (Some (PlainError e), cctx s)"
    using assms(1,2) by (simp add: cx_HTML_def tr_Render_def NewTemplateRenderer_def)
  then show ?thesis
    using assms(3,4) by (simp add: runChain_def htmlHandler_def Next_single callErrorHandler_def DefaultErrorHandler_def)
qed

definition templateState :: "(string \<Rightarrow> anyval \<Rightarrow> encoded) \<Rightarrow> ctx cstate" where
  "templateState t = (let s = freshState ''GET'' ''/'' in
     s\<lparr>cctx := (cctx s)\<lparr>cxRenderer := Some (tr_Render (NewTemplateRenderer t))\<rparr>\<rparr>)"

theorem template_failure_clean_witness:
  "runChain sampleLib (New sampleLib) [htmlHandler 200 ''page'' (AInt 3)] (templateState (\<lambda>n d. (''half a'', Some (PlainError ''no field'')))) =
     Some (None, (templateState (\<lambda>n d. (''half a'', Some (PlainError ''no field''))))
       \<lparr>cctx := snd (cx_JSON 500 (libJSONError sampleLib (StatusText 500), None)
          (cctx (templateState (\<lambda>n d. (''half a'', Some (PlainError ''no field'')))))), cindex := 0\<rparr>)"
  by (rule template_failure_clean)
    (simp_all add: templateState_def New_def freshState_def Let_def cxWritten_def rw_Written_def rw_reset_def)

end
