(* ===== verification/Timeout.thy ===== *)
theory Timeout
  imports MiddlewareProps
begin

text \<open>
  Request deadlines (\<^verbatim>\<open>middleware/timeout.go\<close>).  The request's \<^verbatim>\<open>context.Context\<close> is a chain of timers
  over the background; the state keeps which of them were cancelled, the next free one, and the clock,
  which the handlers move.  The rest of the request's state is that of \<open>ctx\<close>.
\<close>

section \<open>Contexts with deadlines\<close>

datatype gctx = Background | Timer nat int gctx

record tstate =
  tsCtx :: ctx
  tsContext :: gctx
  tsCancelled :: "nat list"
  tsFree :: nat
  tsNow :: int

text \<open>\<^verbatim>\<open>Deadline\<close>: the earliest of the chain; \<^verbatim>\<open>Done\<close>: a timer of the chain was cancelled or has expired.\<close>

fun ctxDeadline :: "gctx \<Rightarrow> int option" where
  "ctxDeadline Background = None"
| "ctxDeadline (Timer i dl p) = Some (case ctxDeadline p of None \<Rightarrow> dl | Some e \<Rightarrow> min dl e)"

fun ctxDone :: "nat list \<Rightarrow> int \<Rightarrow> gctx \<Rightarrow> bool" where
  "ctxDone cancelled now Background = False"
| "ctxDone cancelled now (Timer i dl p) \<longleftrightarrow> i \<in> set cancelled \<or> dl \<le> now \<or> ctxDone cancelled now p"

fun timersOf :: "gctx \<Rightarrow> nat set" where
  "timersOf Background = {}"
| "timersOf (Timer i dl p) = insert i (timersOf p)"

text \<open>\<^verbatim>\<open>context.WithTimeout\<close> on the request's context, put into the request.\<close>

definition withTimeout :: "int \<Rightarrow> tstate \<Rightarrow> tstate" where
  "withTimeout d s = s\<lparr>tsContext := Timer (tsFree s) (tsNow s + d) (tsContext s), tsFree := tsFree s + 1\<rparr>"

definition cancelTimer :: "nat \<Rightarrow> tstate \<Rightarrow> tstate" where
  "cancelTimer i s = s\<lparr>tsCancelled := i # tsCancelled s\<rparr>"

section \<open>The middleware\<close>

text \<open>The deferred \<^verbatim>\<open>cancel\<close> runs on a return and on a panic.\<close>

definition Timeout :: "int \<Rightarrow> tstate hprog" where
  "Timeout d =
     Effect (withTimeout d) (\<lambda>s. CallNext (\<lambda>out.
       Effect (cancelTimer (tsFree s)) (\<lambda>_. case out of Inl v \<Rightarrow> Raise v | Inr err \<Rightarrow> Return err)))"

section \<open>Lemmas\<close>

lemma Timeout_exec:
  "exec nxt (Timeout d) s =
     (case nxt (s\<lparr>cctx := withTimeout d (cctx s)\<rparr>) of
        None \<Rightarrow> None
      | Some (out, s1) \<Rightarrow> Some (out, s1\<lparr>cctx := cancelTimer (tsFree (cctx s)) (cctx s1)\<rparr>))"
  by (simp add: Timeout_def split: option.split sum.split)

lemma ctxDone_cancel_other: "i \<notin> timersOf p \<Longrightarrow> ctxDone (i # cs) now p = ctxDone cs now p"
  by (induction p) auto

lemma ctxDone_deadline: "ctxDeadline p = Some dl \<Longrightarrow> dl \<le> now \<Longrightarrow> ctxDone cs now p"
  by (induction p arbitrary: dl) (auto simp: min_le_iff_disj split: option.splits)

section \<open>Properties\<close>

text \<open>C24. The handlers behind \<open>Timeout d\<close> see a deadline at most \<open>d\<close> away and never later than
  the one before, and are told when it has passed; the outcome of the chain, a panic too, comes out as
  it is; the timer is cancelled and the outer context is not.  If the handlers behind left the request
  its context, the request is left with the cancelled one, so whoever runs after \<open>Next\<close> outside finds it
  done.\<close>

theorem timeout_deadline:
  assumes "exec nxt (Timeout d) s = Some (out, s')" "tsFree (cctx s) \<notin> timersOf (tsContext (cctx s))"
  shows "\<exists>t s1 dl. nxt t = Some (out, s1) \<and> ctxDeadline (tsContext (cctx t)) = Some dl \<and>
      dl \<le> tsNow (cctx s) + d \<and> (\<forall>e. ctxDeadline (tsContext (cctx s)) = Some e \<longrightarrow> dl \<le> e) \<and>
      (\<forall>cs now. dl \<le> now \<longrightarrow> ctxDone cs now (tsContext (cctx t))) \<and>
      (tsContext (cctx s1) = tsContext (cctx t) \<longrightarrow>
         ctxDone (tsCancelled (cctx s')) (tsNow (cctx s')) (tsContext (cctx s'))) \<and>
      ctxDone (tsCancelled (cctx s')) (tsNow (cctx s')) (tsContext (cctx s)) =
        ctxDone (tsCancelled (cctx s1)) (tsNow (cctx s1)) (tsContext (cctx s))"
proof -
  let ?t = "s\<lparr>cctx := withTimeout d (cctx s)\<rparr>"
  obtain s1 where n: "nxt ?t = Some (out, s1)"
    and s': "s' = s1\<lparr>cctx := cancelTimer (tsFree (cctx s)) (cctx s1)\<rparr>"
    using assms(1) by (auto simp: Timeout_exec split: option.splits)
  let ?c = "tsContext (cctx ?t)"
  have c: "?c = Timer (tsFree (cctx s)) (tsNow (cctx s) + d) (tsContext (cctx s))" by (simp add: withTimeout_def)
  obtain dl where dl: "ctxDeadline ?c = Some dl" "dl \<le> tsNow (cctx s) + d"
    "\<forall>e. ctxDeadline (tsContext (cctx s)) = Some e \<longrightarrow> dl \<le> e"
    unfolding c by (cases "ctxDeadline (tsContext (cctx s))") auto
  have "ctxDone (tsCancelled (cctx s')) (tsNow (cctx s')) ?c" unfolding c by (simp add: s' cancelTimer_def)
  moreover have "ctxDone (tsCancelled (cctx s')) (tsNow (cctx s')) (tsContext (cctx s)) =
        ctxDone (tsCancelled (cctx s1)) (tsNow (cctx s1)) (tsContext (cctx s))"
    using ctxDone_cancel_other [OF assms(2)] by (simp add: s' cancelTimer_def)
  moreover have "tsContext (cctx s') = tsContext (cctx s1)" by (simp add: s' cancelTimer_def)
  ultimately show ?thesis
    using n dl ctxDone_deadline [OF dl(1)] by (intro exI [of _ ?t] exI [of _ s1] exI [of _ dl]) simp
qed

definition timedState :: "ctx \<Rightarrow> tstate cstate" where
  "timedState c =
     \<lparr>cctx = \<lparr>tsCtx = c, tsContext = Timer 0 50 Background, tsCancelled = [], tsFree = 1, tsNow = 10\<rparr>, cindex = 0\<rparr>"

theorem timeout_deadline_witness:
  "\<forall>c. \<exists>s'. exec (\<lambda>t. Some (Inr None, t)) (Timeout 20) (timedState c) = Some (Inr None, s') \<and>
     ctxDone (tsCancelled (cctx s')) (tsNow (cctx s')) (tsContext (cctx s'))"
proof
  fix c
  obtain s' where s': "exec (\<lambda>t. Some (Inr None, t)) (Timeout 20) (timedState c) = Some (Inr None, s')"
    by (simp add: Timeout_exec)
  have "tsFree (cctx (timedState c)) \<notin> timersOf (tsContext (cctx (timedState c)))" by (simp add: timedState_def)
  from timeout_deadline [OF s' this] s' show
    "\<exists>s'. exec (\<lambda>t. Some (Inr None, t)) (Timeout 20) (timedState c) = Some (Inr None, s') \<and>
     ctxDone (tsCancelled (cctx s')) (tsNow (cctx s')) (tsContext (cctx s'))"
    by auto
qed

end
