(* ===== verification/TreeSlash.thy ===== *)
theory TreeSlash
  imports TreeTable
begin

text \<open>
  Trailing slashes in the tree: when \<^verbatim>\<open>getValue\<close> recommends a redirect for a path that does not end
  in a slash, the path with the slash is matched by a route.  The converse fails, and so does the
  same statement for a path that ends in a slash: \<open>TreeFaults\<close> has the examples.
\<close>

section \<open>A path and its slash\<close>

definition noSlashEnd :: "string \<Rightarrow> bool" where
  "noSlashEnd s \<longleftrightarrow> s = [] \<or> last s \<noteq> CHR ''/''"

definition slashed :: "(tok list \<times> 'h) set \<Rightarrow> string \<Rightarrow> bool" where
  "slashed R s \<longleftrightarrow> (\<exists>r\<in>R. matches (fst r) (s @ ''/'') \<noteq> None)"

lemma slashed_mono: "slashed R s \<Longrightarrow> R \<subseteq> S \<Longrightarrow> slashed S s"
  by (auto simp: slashed_def)

lemma slashed_lits: "slashed R s \<Longrightarrow> slashed (prep (map Lit p) R) (p @ s)"
  by (force simp: slashed_def prep_def matches_lits)

lemma dropWhile_slash: "dropWhile notSlash (s @ ''/'') = dropWhile notSlash s @ ''/''"
  by (induction s) auto

lemma slashed_par: "slashed R (dropWhile notSlash s) \<Longrightarrow> slashed (prep [Par nm] R) s"
  by (force simp: slashed_def prep_def dropWhile_slash)

lemma noSlashEnd_append: "noSlashEnd (p @ s) \<Longrightarrow> noSlashEnd s"
  by (auto simp: noSlashEnd_def split: if_splits)

lemma noSlashEnd_drop: "noSlashEnd s \<Longrightarrow> noSlashEnd (dropWhile notSlash s)"
  by (metis noSlashEnd_append takeWhile_dropWhile_id)

lemma noSlashEnd_slash: "\<not> noSlashEnd ''/''"
  by (simp add: noSlashEnd_def)

section \<open>Lookup recommends registered routes\<close>

lemma slashed_boundary:
  assumes "wfNode c" "nType c = NodeCatchAll" "nwildChild c"
  shows "slashed (routes c) []"
  by (rule wf_boundary [OF assms]) (simp add: slashed_def)

text \<open>A child behind the slash that is the slash alone, with a handler.\<close>

lemma slashed_leaf:
  assumes "keyOK CHR ''/'' m" "nType m = NodeStatic" "length (npath m) = 1" "nhandlers m \<noteq> None"
  shows "slashed (routes m) []"
proof -
  obtain x where x: "nhandlers m = Some x" using assms(4) by blast
  obtain a where a: "npath m = [a]" using assms(3) by (auto simp: length_Suc_conv)
  have "([Lit a], x) \<in> routes m"
    using own_below [OF x] assms(2) a by (auto simp: routes_static in_prep)
  moreover from this have "a = CHR ''/''"
    using keyOK_firstIs [OF assms(1), of "[Lit a]" x] by (simp add: firstIs_def)
  ultimately show ?thesis by (force simp: slashed_def)
qed

lemma exactMatch_slash:
  assumes wf: "wfNode n" "isStatic n" and s: "noSlashEnd s"
    and e: "exactMatch n s ps = Inr res" "rtsr res"
  shows "slashed (below n) []"
proof -
  have h: "nhandlers n = None"
    using e exactMatch_Some [of n _ s ps] by (cases "nhandlers n") auto
  have "s \<noteq> ''/''" using s noSlashEnd_slash by blast
  with e h obtain i where i: "indexOf CHR ''/'' (nindices n) = Some i"
    by (auto simp: exactMatch_def split: option.splits)
  let ?m = "nchildren n ! i"
  have i': "i < length (nindices n)" "nindices n ! i = CHR ''/''" using indexOf_Some [OF i] by auto
  then have w: "\<not> nwildChild n" using wf by (auto elim: wf_wild)
  note B = wf_branching [OF wf w]
  have m: "i < length (nchildren n)" "keyOK CHR ''/'' ?m" "wfNode ?m"
    using B(1) B(4) [of i] i' by auto
  have "slashed (routes ?m) []"
  proof (cases "nType ?m = NodeCatchAll")
    case True
    then show ?thesis using slashed_boundary [OF m(3)] m(2) by (auto simp: keyOK_def)
  next
    case False
    then have "nType ?m = NodeStatic" using m(2) by (auto simp: keyOK_def)
    moreover have "length (npath ?m) = 1 \<and> nhandlers ?m \<noteq> None"
      using e h i m(1) False \<open>s \<noteq> ''/''\<close> by (auto simp: exactMatch_def Let_def split: if_splits)
    ultimately show ?thesis using slashed_leaf [OF m(2)] by blast
  qed
  then show ?thesis
    using m(1) by (elim slashed_mono) (auto simp: below_def)
qed

text \<open>A path that is one slash short of the node's.\<close>

lemma slashed_short:
  assumes "isStatic n" "npath n = s @ ''/''" "nhandlers n \<noteq> None"
  shows "slashed (routes n) s"
proof -
  obtain x where "nhandlers n = Some x" using assms(3) by blast
  then have "([], x) \<in> below n" by (rule own_below)
  then have "(map Lit (s @ ''/''), x) \<in> routes n"
    using assms(1,2) by (auto simp: routes_static in_prep)
  moreover have "matches (map Lit (s @ ''/'')) (s @ ''/'') \<noteq> None"
    using matches_lits [of "s @ ''/''" "[]" "s @ ''/''"] by simp
  ultimately show ?thesis unfolding slashed_def by (metis fst_conv)
qed

lemma getValue_short:
  assumes "isStatic n" "take (length (npath n)) s \<noteq> npath n" "noSlashEnd s"
    and "getValue n s ps = Inr res" "rtsr res"
  shows "slashed (routes n) s"
proof -
  have ne: "s \<noteq> npath n" "s \<noteq> ''/''" using assms(2,3) noSlashEnd_slash by auto
  have "length (npath n) = length s + 1 \<and> npath n ! length s = CHR ''/'' \<and> s = take (length s) (npath n) \<and>
      nhandlers n \<noteq> None"
    using assms(2,4,5) ne by (auto simp: getValue.simps [of n] tsrForRedirect_def split: if_splits)
  then have "npath n = s @ ''/''" "nhandlers n \<noteq> None"
    by (metis Suc_eq_plus1 lessI take_Suc_conv_app_nth take_all_iff order_refl)+
  then show ?thesis using slashed_short [OF assms(1)] by blast
qed

text \<open>At the end of the path behind a parameter.\<close>

lemma slashed_param_child:
  assumes "wfNode m" "nType m = NodeStatic" "keyOK CHR ''/'' m" "slashChild m"
    and "npath m = ''/'' \<and> nhandlers m \<noteq> None \<or> npath m = [] \<and> nindices m = ''/''"
  shows "slashed (routes m) []"
  using assms(5)
proof
  assume "npath m = ''/'' \<and> nhandlers m \<noteq> None"
  then show ?thesis using slashed_leaf [OF assms(3,2)] by simp
next
  assume e: "npath m = [] \<and> nindices m = ''/''"
  have w: "\<not> nwildChild m" using assms(1,2) e by (auto elim: wf_wild)
  have st: "isStatic m" using assms(2) by simp
  note B = wf_branching [OF assms(1) st w]
  have c: "0 < length (nchildren m)" "wfNode (nchildren m ! 0)" "keyOK CHR ''/'' (nchildren m ! 0)"
    using B(1) B(4) [of 0] e by (auto simp: Suc_length_conv)
  moreover have "nType (nchildren m ! 0) = NodeCatchAll"
    using assms(4) e c(1) by (simp add: slashChild_def list_all_length)
  ultimately have "slashed (routes (nchildren m ! 0)) []"
    using slashed_boundary by (auto simp: keyOK_def)
  moreover have "routes (nchildren m ! 0) \<subseteq> routes m"
    using c(1) e by (auto simp: routes_static [OF st] below_def route_simps)
  ultimately show ?thesis by (rule slashed_mono)
qed

lemma getValue_param_end_slash:
  assumes "s \<noteq> []" "nwildChild n" "nchildren n = [q]" "nType q = NodeParam" "dropWhile notSlash s = []"
    and m: "nchildren q = [m]" and gv: "getValue n (npath n @ s) ps = Inr res" "rtsr res"
  shows "npath m = ''/'' \<and> nhandlers m \<noteq> None \<or> npath m = [] \<and> nindices m = ''/''"
proof -
  note g = gv(1) [unfolded getValue_param [OF assms(1-4) refl refl] assms(5) m]
  have "nhandlers q = None" using g gv(2) by (cases "nhandlers q") auto
  then have "rtsr res = (npath m = ''/'' \<and> nhandlers m \<noteq> None \<or> npath m = [] \<and> nindices m = ''/'')"
    using g by (auto simp del: not_None_eq)
  with gv(2) show ?thesis by (simp only:)
qed

lemma getValue_boundary_quiet:
  assumes "keyOK (hd s) c" "wfNode c" "nType c \<noteq> NodeStatic" "s \<noteq> []"
  shows "getValue c s ps = Inr res \<Longrightarrow> \<not> rtsr res"
proof -
  have b: "nType c = NodeCatchAll" "nwildChild c" using assms(1,3) by (auto simp: keyOK_def)
  from getValue_boundary [OF assms(2) b assms(4) boundary_key [OF assms(2) b assms(1)], of ps]
  show "getValue c s ps = Inr res \<Longrightarrow> \<not> rtsr res" by auto
qed

text \<open>The two ways down, given the recommendations of the smaller nodes.\<close>

lemma getValue_slash_branch:
  fixes n :: "'h node"
  assumes wf: "wfNode n" "isStatic n" and branch: "s \<noteq> []" "\<not> nwildChild n" and ns: "noSlashEnd s"
    and gv: "getValue n (npath n @ s) ps = Inr res" and tsr: "rtsr res"
    and IH: "\<And>c :: 'h node. size c < size n \<Longrightarrow> wfNode c \<Longrightarrow> isStatic c \<Longrightarrow> getValue c s ps = Inr res \<Longrightarrow>
       slashed (routes c) s"
  shows "slashed (below n) s"
proof -
  note gb = gv [unfolded getValue_branch [OF branch]]
  obtain i where i: "indexOf (hd s) (nindices n) = Some i"
    using gb tsr ns noSlashEnd_slash by (cases "indexOf (hd s) (nindices n)") auto
  then have i': "i < length (nchildren n)" "nindices n ! i = hd s"
    using indexOf_Some wf_branching(1) [OF wf branch(2)] by fastforce+
  let ?c = "nchildren n ! i"
  have c: "keyOK (hd s) ?c" "wfNode ?c" "size ?c < size n"
    using wf_branching(4) [OF wf branch(2) i'(1)] i'(2) size_child [OF refl i'(1)] by auto
  have g: "getValue ?c s ps = Inr res" using gb i i'(1) by simp
  then have "nType ?c = NodeStatic"
    using getValue_boundary_quiet [OF c(1,2) _ branch(1) g] tsr by blast
  then have "slashed (routes ?c) s" using IH [OF c(3,2) _ g] by blast
  then show ?thesis using i'(1) by (elim slashed_mono) (auto simp: below_def)
qed

lemma getValue_slash_wild:
  fixes n :: "'h node"
  assumes wf: "wfNode n" "isStatic n" and wild: "s \<noteq> []" "nwildChild n" and ns: "noSlashEnd s"
    and gv: "getValue n (npath n @ s) ps = Inr res" and tsr: "rtsr res"
    and IH: "\<And>(c :: 'h node) s ps. size c < size n \<Longrightarrow> wfNode c \<Longrightarrow> isStatic c \<Longrightarrow> noSlashEnd s \<Longrightarrow>
       getValue c s ps = Inr res \<Longrightarrow> slashed (routes c) s"
  shows "slashed (below n) s"
proof -
  obtain q where q: "nchildren n = [q]" "nType q = NodeParam" "wfNode q"
    using wf_wild [OF wf wild(2)] by metis
  let ?r = "dropWhile notSlash s"
  have nr: "noSlashEnd ?r" by (rule noSlashEnd_drop [OF ns])
  note gw = gv [unfolded getValue_param [OF wild q(1,2) refl refl]]
  have "slashed (below q) ?r"
    using q(3,2)
  proof (cases rule: wf_paramE)
    case (leaf x)
    have "length ?r \<noteq> 1"
    proof
      assume "length ?r = 1"
      then obtain a where "?r = [a]" by (auto simp: length_Suc_conv)
      moreover from this have "\<not> notSlash a" using hd_dropWhile [of notSlash s] by simp
      ultimately show False using nr by (simp add: noSlashEnd_def)
    qed
    then show ?thesis using gw leaf tsr by (auto split: if_splits)
  next
    case (inner m)
    have sz: "size m < size n"
      using size_child [of q "nchildren q" 0] size_child [of n "nchildren n" 0] q inner(1) by simp
    have "slashed (routes m) ?r"
    proof (cases "?r = []")
      case True
      have "npath m = ''/'' \<and> nhandlers m \<noteq> None \<or> npath m = [] \<and> nindices m = ''/''"
        by (rule getValue_param_end_slash [OF wild q(1,2) True inner(1) gv tsr])
      then show ?thesis unfolding True by (rule slashed_param_child [OF inner(4,3,5,9)])
    next
      case False
      with gw inner(1) show ?thesis
        using IH [OF sz inner(4) _ nr] inner(3) by auto
    qed
    then show ?thesis using inner(1) by (elim slashed_mono) (auto simp: below_def)
  qed
  then have "slashed (routes q) s"
    unfolding routes_param [OF q(2)] by (rule slashed_par)
  then show ?thesis using q(1) by (elim slashed_mono) (simp add: below_wild)
qed

lemma getValue_slash:
  "wfNode n \<Longrightarrow> isStatic n \<Longrightarrow> noSlashEnd s \<Longrightarrow> getValue n s ps = Inr res \<Longrightarrow> rtsr res \<Longrightarrow>
     slashed (routes n) s"
proof (induction n arbitrary: s ps rule: measure_induct_rule [where f = size])
  case (less n)
  note wf = less.prems(1,2) and ns = less.prems(3) and gv = less.prems(4) and tsr = less.prems(5)
  show ?case
  proof (cases "take (length (npath n)) s = npath n")
    case False
    then show ?thesis using getValue_short [OF wf(2) _ ns gv tsr] by blast
  next
    case True
    then obtain s1 where s: "s = npath n @ s1" by (metis append_take_drop_id)
    note ns1 = noSlashEnd_append [OF ns [unfolded s]] and gv1 = gv [unfolded s]
    consider (exact) "s1 = []" | (branch) "s1 \<noteq> []" "\<not> nwildChild n" | (wild) "s1 \<noteq> []" "nwildChild n"
      by blast
    then have "slashed (below n) s1"
    proof cases
      case exact
      then show ?thesis
        using exactMatch_slash [OF wf ns _ tsr, of ps] gv by (simp add: s getValue_exact)
    next
      case branch
      show ?thesis
        by (rule getValue_slash_branch [OF wf branch ns1 gv1 tsr]) (rule less.IH [OF _ _ _ ns1 _ tsr])
    next
      case wild
      show ?thesis
        by (rule getValue_slash_wild [OF wf wild ns1 gv1 tsr]) (rule less.IH [OF _ _ _ _ _ tsr])
    qed
    then show ?thesis unfolding s routes_static [OF wf(2)] by (rule slashed_lits)
  qed
qed

section \<open>The interface\<close>

text \<open>A routing table whose lookup also answers for the path with a slash.\<close>

locale slash_table = route_table empty reg look inv den
  for empty :: 't
    and reg :: "'t \<Rightarrow> string \<Rightarrow> 'h \<Rightarrow> (gopanic + 't) option"
    and look :: "'t \<Rightarrow> string \<Rightarrow> gopanic + 'h routeResult"
    and inv :: "'t \<Rightarrow> bool"
    and den :: "'t \<Rightarrow> (tok list \<times> 'h) set" +
  assumes look_slash: "inv t \<Longrightarrow> look t s = Inr res \<Longrightarrow> rtsr res \<Longrightarrow> noSlashEnd s \<Longrightarrow> slashed (den t) s"
begin

lemma slash_scan:
  assumes "inv t" "den t = denotes tab" "look t s = Inr res" "rtsr res" "noSlashEnd s"
  shows "scan tab (s @ ''/'') \<noteq> None"
proof -
  from look_slash [OF assms(1,3-5)] obtain ts x where "(ts, x) \<in> denotes tab" "matches ts (s @ ''/'') \<noteq> None"
    by (auto simp: slashed_def assms(2))
  then show ?thesis using scan_None [of tab "s @ ''/''" ts x] by (metis (no_types))
qed

end

lemma lookup_root_slash:
  assumes "rootOK n" "getValue n s [] = Inr res" "rtsr res" "noSlashEnd s"
  shows "slashed (rootRoutes n) s"
proof (cases "isEmptyRoot n")
  case True
  then obtain pr where n: "n = freshNode pr" by (auto simp: isEmptyRoot_def)
  have "\<exists>res. getValue n s [] = Inr res \<and> \<not> rtsr res"
    by (cases s) (simp_all add: n getValue.simps [of "freshNode pr"] exactMatch_def Let_def)
  with assms(2,3) show ?thesis by auto
next
  case False
  with assms(1) have "wfNode n" "isStatic n" by (auto simp: rootOK_def)
  with False getValue_slash [OF _ _ assms(4,2,3)] show ?thesis by (simp add: rootRoutes_def)
qed

interpretation slashTree: slash_table emptyNode addRoute "\<lambda>n s. getValue n s []" rootOK rootRoutes
  by unfold_locales (rule lookup_root_slash)

end
