(* ===== verification/Redirects.thy ===== *)
theory Redirects
  imports RouterProps TreeSlash
begin

text \<open>
  Trailing-slash redirects of the router: what \<^verbatim>\<open>dispatch\<close> does with redirects on, and a client
  that goes to the \<^verbatim>\<open>Location\<close> they send.
\<close>

section \<open>Dispatch with redirects\<close>

text \<open>The test of \<^verbatim>\<open>dispatch\<close>: no handler for the method, and the tree recommends the other form of
  the path.\<close>

definition redirected :: "router \<Rightarrow> ctx cstate \<Rightarrow> bool" where
  "redirected r s \<longleftrightarrow>
     (let m = reqMethod (cxRequest (cctx s)); p = reqPath (cxRequest (cctx s))
      in rtRedirectTrailingSlash r \<and> p \<noteq> ''/'' \<and>
         (case map_of (rtTrees r) m of
            None \<Rightarrow> False
          | Some root \<Rightarrow>
              (case getValue root p [] of
                 Inl e \<Rightarrow> False
               | Inr res \<Rightarrow> rhandlers res = None \<and> rtsr res)))"

lemma dispatch_redirected:
  assumes "cxParams (cctx s) = []" "redirected r s"
  shows "dispatch lib r s = Some (None, s\<lparr>cctx := redirectTrailingSlash lib (cctx s)\<rparr>)"
  using assms by (auto simp: redirected_def dispatch_def Let_def split: option.splits sum.splits)

lemma dispatch_not_redirected:
  assumes inv: "routerInv T r" and s: "cxParams (cctx s) = []" "\<not> redirected r s"
  shows "dispatch lib r s = dispatchSpec lib r T s"
proof -
  let ?m = "reqMethod (cxRequest (cctx s))" and ?p = "reqPath (cxRequest (cctx s))"
  show ?thesis
  proof (cases "map_of (rtTrees r) ?m")
    case None
    then show ?thesis
      using lookup_none [OF inv None]
      by (simp add: dispatch_def dispatchSpec_def dispatchHead_spec [OF inv s(1)] Let_def)
  next
    case (Some n)
    obtain res where "getValue n ?p [] = Inr res" "rhandlers res = map_option fst (scan (T ?m) ?p)"
      "\<forall>hs ps. scan (T ?m) ?p = Some (hs, ps) \<longrightarrow> rparams res = ps"
      using lookup_tree [OF inv Some] by blast
    then show ?thesis
      using Some s
      by (auto simp: redirected_def dispatch_def dispatchSpec_def dispatchHead_spec [OF inv s(1)] Let_def
          split: option.splits)
  qed
qed

text \<open>A redirected path is not registered; with a slash added it is.\<close>

lemma redirected_tree:
  assumes "routerInv T r" "redirected r s"
  obtains n res where "rootOK n" "rootRoutes n = denotes (T (reqMethod (cxRequest (cctx s))))"
    "getValue n (reqPath (cxRequest (cctx s))) [] = Inr res" "rtsr res"
    "scan (T (reqMethod (cxRequest (cctx s)))) (reqPath (cxRequest (cctx s))) = None"
proof -
  let ?m = "reqMethod (cxRequest (cctx s))" and ?p = "reqPath (cxRequest (cctx s))"
  obtain n res where n: "map_of (rtTrees r) ?m = Some n" "getValue n ?p [] = Inr res" "rhandlers res = None" "rtsr res"
    using assms(2) by (auto simp: redirected_def Let_def split: option.splits sum.splits)
  have "treeFor (T ?m) (Some n)" using assms(1) n(1) unfolding routerInv_def by metis
  moreover have "scan (T ?m) ?p = None" using lookup_tree [OF assms(1) n(1), of ?p] n(2,3) by auto
  ultimately show thesis using that n(2,4) by (auto simp: treeFor_def)
qed

lemma redirected_scan:
  assumes "routerInv T r" "redirected r s"
  shows "scan (T (reqMethod (cxRequest (cctx s)))) (reqPath (cxRequest (cctx s))) = None"
  using assms by (rule redirected_tree)

lemma redirected_slash:
  assumes "routerInv T r" "redirected r s" "noSlashEnd (reqPath (cxRequest (cctx s)))"
  shows "scan (T (reqMethod (cxRequest (cctx s)))) (reqPath (cxRequest (cctx s)) @ ''/'') \<noteq> None"
  using assms(1,2) by (rule redirected_tree) (rule slashTree.slash_scan [OF _ _ _ _ assms(3)])

text \<open>C4. What dispatch does after a set-up without conflicting patterns, redirects included: where the
  method has no handler for the path and the tree recommends it, the answer is the redirect to the path
  with its trailing slash toggled; every other request is served by scanning the tables.\<close>

theorem dispatch_is_redirect_or_scan:
  assumes "goodSetup ops" "blank r0" "runSetup ops r0 = Some (Inr r)" "cxParams (cctx s) = []"
  shows "dispatch lib r s =
    (if redirected r s then Some (None, s\<lparr>cctx := redirectTrailingSlash lib (cctx s)\<rparr>)
     else dispatchSpec lib r (tableOf [] ops) s)"
proof -
  have "routerInv (tableOf [] ops) r" using setup_runs [OF assms(1,2)] assms(3) by auto
  then show ?thesis
    using dispatch_redirected [OF assms(4)] dispatch_not_redirected [OF _ assms(4)] by simp
qed

theorem dispatch_is_redirect_or_scan_witness:
  "\<exists>r. runSetup sampleSetup (New sampleLib) = Some (Inr r) \<and>
     dispatch sampleLib r (freshState ''GET'' ''/users/7/'') =
       (if redirected r (freshState ''GET'' ''/users/7/'')
        then Some (None, (freshState ''GET'' ''/users/7/'')
               \<lparr>cctx := redirectTrailingSlash sampleLib (cctx (freshState ''GET'' ''/users/7/''))\<rparr>)
        else dispatchSpec sampleLib r (tableOf [] sampleSetup) (freshState ''GET'' ''/users/7/''))"
proof -
  obtain r where r: "runSetup sampleSetup (New sampleLib) = Some (Inr r)"
    by (rule sample_runs)
  with dispatch_is_redirect_or_scan [OF sampleSetup_good blank_New r, of "freshState ''GET'' ''/users/7/''" sampleLib]
  show ?thesis by simp
qed

section \<open>A client that follows redirects\<close>

definition withPath :: "string \<Rightarrow> ctx cstate \<Rightarrow> ctx cstate" where
  "withPath p s = s\<lparr>cctx := (cctx s)\<lparr>cxRequest := (cxRequest (cctx s))\<lparr>reqPath := p, reqRawPath := []\<rparr>\<rparr>\<rparr>"

lemma withPath_simps [simp]:
  "cxParams (cctx (withPath p s)) = cxParams (cctx s)" "cxWriter (cctx (withPath p s)) = cxWriter (cctx s)"
  "reqMethod (cxRequest (cctx (withPath p s))) = reqMethod (cxRequest (cctx s))"
  "reqQueryText (cxRequest (cctx (withPath p s))) = reqQueryText (cxRequest (cctx s))"
  "reqPath (cxRequest (cctx (withPath p s))) = p" "reqRawPath (cxRequest (cctx (withPath p s))) = []"
  "withPath q (withPath p s) = withPath q s"
  by (simp_all add: withPath_def)

text \<open>The \<^verbatim>\<open>Location\<close> of the response that went out.\<close>

definition sentLocation :: "ctx \<Rightarrow> string" where
  "sentLocation c = (case wSent (rwUnder (cxWriter c)) of Some (code, h) \<Rightarrow> hGet h ''Location'' | None \<Rightarrow> [])"

text \<open>The next request: the same one at the URL of the location, without its fragment, as the server parses
  it.  \<open>None\<close> is a location that leads to another server or that is no URL.\<close>

definition atLocation :: "string \<Rightarrow> ctx cstate \<Rightarrow> ctx cstate option" where
  "atLocation loc s =
     (let u = takeWhile (\<lambda>c. c \<noteq> CHR ''#'') loc; raw = beforeQuery u
      in if \<not> oneSlash raw then None
         else case unescapePath raw of
                None \<Rightarrow> None
              | Some path \<Rightarrow>
                  Some (s\<lparr>cctx := (cctx s)\<lparr>cxRequest := (cxRequest (cctx s))
                    \<lparr>reqPath := path, reqRawPath := (if escapePath path = raw then [] else raw),
                     reqQueryText := fromQuery u\<rparr>\<rparr>\<rparr>))"

text \<open>At most \<open>k\<close> requests, each in a fresh context, until an answer is not a redirect of the router.\<close>

fun follow :: "stdlib \<Rightarrow> router \<Rightarrow> nat \<Rightarrow> ctx cstate \<Rightarrow> served option" where
  "follow lib r 0 s = None"
| "follow lib r (Suc k) s =
     (if redirected r s then
        (case dispatch lib r s of
           None \<Rightarrow> None
         | Some (p, s') \<Rightarrow>
             (case atLocation (sentLocation (cctx s')) s of
                None \<Rightarrow> None
              | Some s1 \<Rightarrow> follow lib r k s1))
      else dispatch lib r s)"

declare follow.simps(2) [simp del]

lemma toggleSlash_add: "noSlashEnd p \<Longrightarrow> toggleSlash p = p @ ''/''"
  by (auto simp: toggleSlash_def noSlashEnd_def)

lemma toggleSlash_drop: "\<not> noSlashEnd p \<Longrightarrow> p \<noteq> ''/'' \<Longrightarrow> p = toggleSlash p @ ''/''"
  by (cases p rule: rev_cases) (auto simp: toggleSlash_def noSlashEnd_def)

lemma redirected_not_root: "redirected r s \<Longrightarrow> reqPath (cxRequest (cctx s)) \<noteq> ''/''"
  by (simp add: redirected_def Let_def)

lemma follow_served:
  assumes "routerInv T r" "cxParams (cctx s) = []" "\<not> redirected r s"
  shows "follow lib r (Suc k) s = dispatchSpec lib r T s"
  using dispatch_not_redirected [OF assms] assms(3) by (simp add: follow.simps(2))

text \<open>What \<^verbatim>\<open>url.Parse\<close> is documented to do: a URL that begins with one slash has neither scheme nor host.\<close>

definition plainURLs :: "stdlib \<Rightarrow> bool" where
  "plainURLs lib \<longleftrightarrow> (\<forall>p q. oneSlash p \<and> queryText q \<longrightarrow> libRelative lib (escapePath p @ q))"

text \<open>A request as it comes from the server: a fresh context and writer, and a URL in origin form.\<close>

definition incoming :: "ctx cstate \<Rightarrow> bool" where
  "incoming s \<longleftrightarrow>
     cxParams (cctx s) = [] \<and> rwStatus (cxWriter (cctx s)) = noStatus \<and> wSent (rwUnder (cxWriter (cctx s))) = None \<and>
     (let req = cxRequest (cctx s)
      in oneSlash (reqPath req) \<and> queryText (reqQueryText req) \<and>
         (reqRawPath req = [] \<or> unescapePath (reqRawPath req) = Some (reqPath req)))"

lemma incoming_withPath: "incoming s \<Longrightarrow> oneSlash p \<Longrightarrow> incoming (withPath p s)"
  by (simp add: incoming_def Let_def)

lemma oneSlash_toggle: "oneSlash p \<Longrightarrow> p \<noteq> ''/'' \<Longrightarrow> oneSlash (toggleSlash p)"
  by (cases p rule: remdups_adj.cases) (auto simp: oneSlash_def toggleSlash_def split: if_splits)

lemma toggleSlash_other: "toggleSlash p \<noteq> p"
proof -
  have "length (toggleSlash p) \<noteq> length p" by (auto simp: toggleSlash_def)
  then show ?thesis by auto
qed

lemma http_Redirect_location:
  assumes "rwStatus (cxWriter c) = noStatus" "wSent (rwUnder (cxWriter c)) = None" "\<not> informational code" "code \<noteq> noStatus"
  shows "sentLocation (http_Redirect relative page location code c) =
    hexEscapeNonASCII (if relative location then resolveLocation (reqPath (cxRequest c)) location else location)"
proof -
  let ?u = "if relative location then resolveLocation (reqPath (cxRequest c)) location else location"
  have k: "canonicalKey ''Location'' \<noteq> canonicalKey ''Content-Type''" by code_simp
  have w: "wSent (rwUnder (cxWriter (cxWriteHeader code (mapHeader f (mapHeader g c))))) = Some (code, f (g (cxHeader c)))"
    "rwStatus (cxWriter (cxWriteHeader code (mapHeader f (mapHeader g c)))) \<noteq> noStatus" for f g
    using assms by (simp_all add: cxWriteHeader_def mapHeader_def rw_WriteHeader_def std_WriteHeader_def cxHeader_def)
  have w1: "wSent (rwUnder (cxWriter (cxWriteHeader code (mapHeader f c)))) = Some (code, f (cxHeader c))"
    "rwStatus (cxWriter (cxWriteHeader code (mapHeader f c))) \<noteq> noStatus" for f
    using assms by (simp_all add: cxWriteHeader_def mapHeader_def rw_WriteHeader_def std_WriteHeader_def cxHeader_def)
  have body: "wSent (rwUnder (cxWriter (snd (cxWrite b c')))) = wSent (rwUnder (cxWriter c'))"
    if "wSent (rwUnder (cxWriter c')) \<noteq> None" "rwStatus (cxWriter c') \<noteq> noStatus" for b c'
    using that std_Write_sent [of b "rwUnder (cxWriter c')"]
    by (auto simp: cxWrite_def rw_Write_def Let_def split: prod.splits)
  show ?thesis
    unfolding http_Redirect_def Let_def sentLocation_def
    by (simp add: body w w1 hGet_hSet k)
qed

text \<open>The location of a redirect is the path with its slash toggled, tidied.\<close>

lemma redirect_location:
  assumes "incoming s" "plainURLs lib" "reqPath (cxRequest (cctx s)) = p" "p \<noteq> ''/''"
  shows "sentLocation (redirectTrailingSlash lib (cctx s)) =
    escapePath (tidyPath (toggleSlash p)) @ reqQueryText (cxRequest (cctx s))"
proof -
  let ?req = "cxRequest (cctx s)" and ?q = "reqQueryText (cxRequest (cctx s))"
  let ?code = "if reqMethod ?req \<noteq> ''GET'' then 308 else 301 :: int"
  have s: "rwStatus (cxWriter (cctx s)) = noStatus" "wSent (rwUnder (cxWriter (cctx s))) = None" "oneSlash p"
    "queryText ?q" "reqRawPath ?req = [] \<or> unescapePath (reqRawPath ?req) = Some p"
    using assms(1,3) by (simp_all add: incoming_def Let_def)
  have t: "oneSlash (toggleSlash p)" by (rule oneSlash_toggle [OF s(3) assms(4)])
  note r = oneSlash_rooted [OF t, THEN conjunct1] oneSlash_rooted [OF t, THEN conjunct2]
  have "reqRawPath ?req = [] \<or> unescapePath (reqRawPath ?req) \<noteq> Some (toggleSlash p)"
    using s(5) toggleSlash_other [of p] by auto
  then have u: "URL_String (reqRawPath ?req) (toggleSlash p) ?q = escapePath (toggleSlash p) @ ?q"
    by (rule URL_String_rooted [OF r])
  have rel: "libRelative lib (escapePath (toggleSlash p) @ ?q)" using assms(2) t s(4) by (simp add: plainURLs_def)
  have "ascii (escapePath (tidyPath (toggleSlash p)) @ ?q)" using escapePath_ascii queryText_ascii [OF s(4)] by simp
  note e = hexEscape_ascii [OF this]
  have "\<not> informational ?code" "?code \<noteq> noStatus" by (simp_all add: informational_def noStatus_def)
  note L = http_Redirect_location [OF s(1,2) this, of "libRelative lib" "libPage lib" "escapePath (toggleSlash p) @ ?q"]
  show ?thesis
    unfolding redirectTrailingSlash_def Let_def assms(3) u using L rel resolveLocation_escape [OF s(4) r] e by simp
qed

lemma atLocation_escape:
  assumes "oneSlash p" "queryText q" "reqQueryText (cxRequest (cctx s)) = q"
  shows "atLocation (escapePath p @ q) s = Some (withPath p s)"
proof -
  have "\<forall>c\<in>set (escapePath p @ q). c \<noteq> CHR ''#''"
    using escapePath_chars assms(2) by (auto simp: queryText_def list_all_iff)
  then have "takeWhile (\<lambda>c. c \<noteq> CHR ''#'') (escapePath p @ q) = escapePath p @ q"
    by (rule takeWhile_eq_all_conv [THEN iffD2])
  then show ?thesis
    unfolding atLocation_def Let_def \<open>takeWhile (\<lambda>c. c \<noteq> CHR ''#'') (escapePath p @ q) = escapePath p @ q\<close>
    using assms cut_query [OF assms(2), of p] oneSlash_escape [of p]
    by (simp add: withPath_def unescape_escape)
qed

lemma follow_redirect:
  assumes "incoming s" "plainURLs lib" "redirected r s"
  shows "follow lib r (Suc k) s = follow lib r k (withPath (tidyPath (toggleSlash (reqPath (cxRequest (cctx s))))) s)"
proof -
  let ?p = "reqPath (cxRequest (cctx s))"
  have p: "?p \<noteq> ''/''" "oneSlash ?p" using redirected_not_root [OF assms(3)] assms(1) by (simp_all add: incoming_def Let_def)
  have "oneSlash (tidyPath (toggleSlash ?p))" using oneSlash_tidy oneSlash_toggle p by blast
  moreover have "cxParams (cctx s) = []" "queryText (reqQueryText (cxRequest (cctx s)))"
    using assms(1) by (simp_all add: incoming_def Let_def)
  ultimately show ?thesis
    using dispatch_redirected [OF _ assms(3), of lib] redirect_location [OF assms(1,2) refl p(1)] atLocation_escape assms(3)
    by (simp add: follow.simps(2))
qed

lemma noSlashEnd_ends: "noSlashEnd p \<longleftrightarrow> \<not> endsSlash p"
  by (auto simp: noSlashEnd_def endsSlash_def)

text \<open>Toggling the slash of a tidy path gives a tidy path.\<close>

lemma tidy_toggle:
  assumes "tidyPath p = p" "oneSlash p" "p \<noteq> ''/''"
  shows "tidyPath (toggleSlash p) = toggleSlash p" "noSlashEnd (toggleSlash p) \<longleftrightarrow> \<not> noSlashEnd p"
proof -
  obtain ss b where ss: "list_all plainSegment ss" "b \<longrightarrow> ss \<noteq> []" "p = plainPath ss b"
    using tidyPath_rooted [of p] oneSlash_rooted [OF assms(2)] assms(1) by metis
  have ne: "ss \<noteq> []" using assms(3) ss(3,2) by (auto simp: plainPath_def)
  have "toggleSlash p = plainPath ss (\<not> b)"
    using join_plain_last [OF ne ss(1)] by (cases b) (auto simp: toggleSlash_def ss(3) plainPath_def butlast_append)
  then show "tidyPath (toggleSlash p) = toggleSlash p" "noSlashEnd (toggleSlash p) \<longleftrightarrow> \<not> noSlashEnd p"
    using tidyPath_plain [OF ss(1)] endsSlash_plain [OF ss(1)] ne ss(3) by (simp_all add: noSlashEnd_ends)
qed

text \<open>From a tidy path there is at most one redirect, to the path with its slash toggled.\<close>

lemma follow_tidy:
  assumes inv: "routerInv T r" and s: "incoming s" "plainURLs lib" and p: "reqPath (cxRequest (cctx s)) = p" "tidyPath p = p"
  shows "follow lib r (Suc (Suc k)) s =
      dispatchSpec lib r T (if redirected r s then withPath (toggleSlash p) s else s)"
    "redirected r s \<Longrightarrow> noSlashEnd p \<Longrightarrow> scan (T (reqMethod (cxRequest (cctx s)))) (toggleSlash p) \<noteq> None"
proof -
  have ps: "cxParams (cctx s) = []" and one: "oneSlash p" using s(1) p(1) by (simp_all add: incoming_def Let_def)
  show slash: "scan (T (reqMethod (cxRequest (cctx s)))) (toggleSlash p) \<noteq> None" if "redirected r s" "noSlashEnd p"
    using redirected_slash [OF inv that(1)] that(2) p(1) toggleSlash_add [OF that(2)] by simp
  show "follow lib r (Suc (Suc k)) s = dispatchSpec lib r T (if redirected r s then withPath (toggleSlash p) s else s)"
  proof (cases "redirected r s")
    case False
    then show ?thesis using follow_served [OF inv ps False] by simp
  next
    case True
    let ?s = "withPath (toggleSlash p) s"
    have root: "p \<noteq> ''/''" using redirected_not_root [OF True] p(1) by simp
    have "\<not> redirected r ?s"
    proof (cases "noSlashEnd p")
      case True
      then show ?thesis using slash [OF \<open>redirected r s\<close>] redirected_scan [OF inv, of ?s] by auto
    next
      case False
      then have t: "toggleSlash p @ ''/'' = p" using toggleSlash_drop root by metis
      have "noSlashEnd (toggleSlash p)" using tidy_toggle(2) [OF p(2) one root] False by simp
      then show ?thesis
        using redirected_slash [OF inv, of ?s] redirected_scan [OF inv True] t p(1) by auto
    qed
    then have "follow lib r (Suc k) ?s = dispatchSpec lib r T ?s" using follow_served [OF inv, of ?s] ps by simp
    moreover have "follow lib r (Suc (Suc k)) s = follow lib r (Suc k) ?s"
      using follow_redirect [OF s True, of "Suc k"] p(1) tidy_toggle(1) [OF p(2) one root] by simp
    ultimately show ?thesis using True by simp
  qed
qed

text \<open>C5. A client that goes to the location each trailing-slash redirect really sends is never sent round
  in a circle: after at most three requests it is served by the tables.  The first redirect leads to
  the path with its slash toggled and cleaned; a second one toggles that path's slash once more.  When
  the path it starts from is clean there is one redirect at most, and a slash it adds makes a
  registered route.  The set-up has no conflicting routes, the path begins with one slash, and
  \<open>plainURLs\<close> is what \<^verbatim>\<open>url.Parse\<close> is documented to do with such a URL.\<close>

theorem redirects_end:
  assumes "goodSetup ops" "blank r0" "runSetup ops r0 = Some (Inr r)" "incoming s" "plainURLs lib"
    and "p = reqPath (cxRequest (cctx s))" "T = tableOf [] ops"
  shows "\<exists>q. follow lib r 3 s = dispatchSpec lib r T (if redirected r s then withPath q s else s) \<and>
    (redirected r s \<longrightarrow>
       (q = tidyPath (toggleSlash p) \<or> q = toggleSlash (tidyPath (toggleSlash p))) \<and>
       (tidyPath p = p \<longrightarrow>
          q = toggleSlash p \<and> (noSlashEnd p \<longrightarrow> scan (T (reqMethod (cxRequest (cctx s)))) q \<noteq> None)))"
proof -
  have inv: "routerInv T r" using setup_runs [OF assms(1,2)] assms(3,7) by auto
  have ps: "cxParams (cctx s) = []" and one: "oneSlash p" using assms(4,6) by (simp_all add: incoming_def Let_def)
  show ?thesis
  proof (cases "redirected r s")
    case False
    then show ?thesis using follow_served [OF inv ps False, of lib 2] by (simp add: numeral_3_eq_3)
  next
    case True
    let ?q = "tidyPath (toggleSlash p)"
    have root: "p \<noteq> ''/''" using redirected_not_root [OF True] assms(6) by simp
    have "oneSlash (toggleSlash p)" by (rule oneSlash_toggle [OF one root])
    then have q: "oneSlash ?q" "tidyPath ?q = ?q" using oneSlash_tidy tidyPath_tidy by simp_all
    have "incoming (withPath ?q s)" using q(1) incoming_withPath [OF assms(4)] by simp
    note F = follow_tidy(1) [OF inv this assms(5) _ q(2), of 0, simplified]
    have two: "follow lib r 3 s = follow lib r 2 (withPath ?q s)"
      using follow_redirect [OF assms(4,5) True, of 2] assms(6) by (simp only: numeral_3_eq_3 numeral_2_eq_2)
    let ?r = "if redirected r (withPath ?q s) then toggleSlash ?q else ?q"
    have r: "follow lib r 3 s = dispatchSpec lib r T (withPath ?r s)" using two F by (simp add: numeral_2_eq_2)
    show ?thesis
    proof (cases "tidyPath p = p")
      case False
      then show ?thesis using r True by (intro exI [of _ ?r]) simp
    next
      case tidy: True
      note G = follow_tidy [OF inv assms(4,5) assms(6) [symmetric] tidy]
      have "?q = toggleSlash p" by (rule tidy_toggle(1) [OF tidy one root])
      moreover have "follow lib r 3 s = dispatchSpec lib r T (withPath (toggleSlash p) s)"
        using G(1) [of 1] True by (simp add: numeral_3_eq_3)
      ultimately show ?thesis using G(2) True by (intro exI [of _ "toggleSlash p"]) simp
    qed
  qed
qed

theorem redirects_end_witness:
  "\<exists>r q. runSetup sampleSetup (New sampleLib) = Some (Inr r) \<and>
     follow sampleLib r 3 (freshState ''GET'' ''/users/'') =
       dispatchSpec sampleLib r (tableOf [] sampleSetup)
         (if redirected r (freshState ''GET'' ''/users/'') then withPath q (freshState ''GET'' ''/users/'')
          else freshState ''GET'' ''/users/'') \<and>
     (redirected r (freshState ''GET'' ''/users/'') \<longrightarrow> q = ''/users'')"
proof -
  obtain r where r: "runSetup sampleSetup (New sampleLib) = Some (Inr r)"
    by (rule sample_runs)
  have "take 2 (escapePath p @ q) \<noteq> ''//'' \<and> take 1 (escapePath p @ q) = ''/''" if "oneSlash p" "queryText q" for p q
  proof -
    have "oneSlash (escapePath p)" using that(1) oneSlash_escape by simp
    then obtain t where "escapePath p = CHR ''/'' # t" "take 1 t \<noteq> ''/''"
      unfolding oneSlash_def by (cases "escapePath p") auto
    then show ?thesis using that(2) by (cases t; cases q) (auto simp: queryText_def)
  qed
  then have "plainURLs sampleLib" by (simp add: plainURLs_def sampleLib_def)
  moreover have "incoming (freshState ''GET'' ''/users/'')"
    by (simp add: incoming_def freshState_def requestFor_def recycled_def rw_reset_def freshWriter_def oneSlash_def queryText_def)
  moreover have "tidyPath ''/users/'' = ''/users/''" by code_simp
  moreover have "toggleSlash ''/users/'' = ''/users''" by (simp add: toggleSlash_def)
  ultimately show ?thesis
    using r redirects_end [OF sampleSetup_good blank_New r, of "freshState ''GET'' ''/users/''" sampleLib "''/users/''" "tableOf [] sampleSetup"]
    by auto
qed

section \<open>Redirects that do not arrive\<close>

definition recommends :: "string \<Rightarrow> string \<Rightarrow> bool" where
  "recommends pattern p =
     (case addRoute emptyNode pattern True of
        Some (Inr n) \<Rightarrow> (case getValue n p [] of Inr res \<Rightarrow> rhandlers res = None \<and> rtsr res | Inl e \<Rightarrow> False)
      | _ \<Rightarrow> False)"

text \<open>The tree recommends the form of the path that it has a route for, but the location is cleaned: below
  \<^verbatim>\<open>/x/:id/y/\<close> a request for \<^verbatim>\<open>/x//y\<close> is sent to \<^verbatim>\<open>/x/y/\<close>, which the pattern does not match.\<close>

lemma redirect_misses:
  "recommends ''/x/:id/y/'' ''/x//y'' \<and> tidyPath (toggleSlash ''/x//y'') = ''/x/y/'' \<and>
     scan [(''/x/:id/y/'', True)] ''/x/y/'' = None"
  by code_simp

text \<open>A path with two slashes in front makes a location with a host: below \<^verbatim>\<open>/:a/:b/\<close> a request for
  \<^verbatim>\<open>//example.com\<close> is sent to the root of another server.\<close>

lemma redirect_leaves:
  "recommends ''/:a/:b/'' ''//example.com'' \<and>
     URL_String [] (toggleSlash ''//example.com'') [] = ''//example.com/''"
  by code_simp

end
