(* ===== verification/Pools.thy ===== *)
theory Pools
  imports Prelude
begin

text \<open>
  The use of a \<^verbatim>\<open>sync.Pool\<close> by concurrent calls: \<^verbatim>\<open>Get\<close>, reset, work, \<^verbatim>\<open>Put\<close>.  The pool promises little: \<^verbatim>\<open>Get\<close>
  returns any element or a new one, also when there are elements, and the collector may drop elements.

  A state has the objects by address, the addresses in the pool, and where each call stands; a step is one
  operation of one call, or of the collector, so that runs are all interleavings.  The work is one step: it
  changes the object of its own call alone, and the invariant shows that no other call holds that.  Work
  that ends by a panic skips the \<^verbatim>\<open>Put\<close>.

  The locale \<open>pool_client\<close> is what a client must bring along for the pool not to matter: its reset forgets
  the object's past.
\<close>

section \<open>States and steps\<close>

datatype ('c, 'o) poolPhase =
    Arrived
  | Holding nat
  | Ready nat
  | Handled nat bool 'o
  | Finished 'o

record ('c, 'o) poolState =
  psObjects :: "nat \<Rightarrow> 'c"
  psNext :: nat
  psFree :: "nat list"
  psPhase :: "nat \<Rightarrow> ('c, 'o) poolPhase"

definition removeAt :: "nat \<Rightarrow> nat list \<Rightarrow> nat list" where
  "removeAt k xs = take k xs @ drop (Suc k) xs"

text \<open>\<open>work\<close> gives whether it returned (and did not panic), the call's result, and the object afterwards.\<close>

inductive poolStep ::
    "'c \<Rightarrow> ('q \<Rightarrow> 'c \<Rightarrow> 'c) \<Rightarrow> ('q \<Rightarrow> 'c \<Rightarrow> (bool \<times> 'o \<times> 'c) option) \<Rightarrow> (nat \<Rightarrow> 'q) \<Rightarrow>
     ('c, 'o) poolState \<Rightarrow> ('c, 'o) poolState \<Rightarrow> bool"
  for new prep work calls where
  make: "psPhase st i = Arrived \<Longrightarrow>
     poolStep new prep work calls st
       (st\<lparr>psObjects := (psObjects st)(psNext st := new), psNext := psNext st + 1,
          psPhase := (psPhase st)(i := Holding (psNext st))\<rparr>)"
| reuse: "psPhase st i = Arrived \<Longrightarrow> k < length (psFree st) \<Longrightarrow>
     poolStep new prep work calls st
       (st\<lparr>psFree := removeAt k (psFree st), psPhase := (psPhase st)(i := Holding (psFree st ! k))\<rparr>)"
| reset: "psPhase st i = Holding a \<Longrightarrow>
     poolStep new prep work calls st
       (st\<lparr>psObjects := (psObjects st)(a := prep (calls i) (psObjects st a)),
          psPhase := (psPhase st)(i := Ready a)\<rparr>)"
| handle: "psPhase st i = Ready a \<Longrightarrow> work (calls i) (psObjects st a) = Some (normal, res, c) \<Longrightarrow>
     poolStep new prep work calls st
       (st\<lparr>psObjects := (psObjects st)(a := c), psPhase := (psPhase st)(i := Handled a normal res)\<rparr>)"
| put: "psPhase st i = Handled a True res \<Longrightarrow>
     poolStep new prep work calls st
       (st\<lparr>psFree := a # psFree st, psPhase := (psPhase st)(i := Finished res)\<rparr>)"
| escape: "psPhase st i = Handled a False res \<Longrightarrow>
     poolStep new prep work calls st (st\<lparr>psPhase := (psPhase st)(i := Finished res)\<rparr>)"
| collect: "k < length (psFree st) \<Longrightarrow>
     poolStep new prep work calls st (st\<lparr>psFree := removeAt k (psFree st)\<rparr>)"

definition poolStart :: "'c \<Rightarrow> ('c, 'o) poolState" where
  "poolStart new = \<lparr>psObjects = (\<lambda>a. new), psNext = 0, psFree = [], psPhase = (\<lambda>i. Arrived)\<rparr>"

inductive poolReach ::
    "'c \<Rightarrow> ('q \<Rightarrow> 'c \<Rightarrow> 'c) \<Rightarrow> ('q \<Rightarrow> 'c \<Rightarrow> (bool \<times> 'o \<times> 'c) option) \<Rightarrow> (nat \<Rightarrow> 'q) \<Rightarrow>
     ('c, 'o) poolState \<Rightarrow> bool"
  for new prep work calls where
  start: "poolReach new prep work calls (poolStart new)"
| step: "poolReach new prep work calls st \<Longrightarrow> poolStep new prep work calls st st' \<Longrightarrow>
     poolReach new prep work calls st'"

section \<open>The invariant\<close>

fun heldBy :: "('c, 'o) poolPhase \<Rightarrow> nat option" where
  "heldBy (Holding a) = Some a"
| "heldBy (Ready a) = Some a"
| "heldBy (Handled a normal res) = Some a"
| "heldBy _ = None"

text \<open>The result of a call that has its object to itself, freshly reset.\<close>

definition aloneGives :: "('q \<Rightarrow> 'c \<Rightarrow> 'c) \<Rightarrow> ('q \<Rightarrow> 'c \<Rightarrow> (bool \<times> 'o \<times> 'c) option) \<Rightarrow> 'q \<Rightarrow> 'o \<Rightarrow> bool" where
  "aloneGives prep work q res \<longleftrightarrow> (\<exists>c normal c'. work q (prep q c) = Some (normal, res, c'))"

text \<open>What a call has got so far is what it would get alone.\<close>

definition phaseOK ::
    "('q \<Rightarrow> 'c \<Rightarrow> 'c) \<Rightarrow> ('q \<Rightarrow> 'c \<Rightarrow> (bool \<times> 'o \<times> 'c) option) \<Rightarrow> 'q \<Rightarrow> (nat \<Rightarrow> 'c) \<Rightarrow> ('c, 'o) poolPhase \<Rightarrow> bool" where
  "phaseOK prep work q cs ph \<longleftrightarrow>
     (case ph of
        Ready a \<Rightarrow> \<exists>c. cs a = prep q c
      | Handled a normal res \<Rightarrow> aloneGives prep work q res
      | Finished res \<Rightarrow> aloneGives prep work q res
      | _ \<Rightarrow> True)"

definition poolInv ::
    "('q \<Rightarrow> 'c \<Rightarrow> 'c) \<Rightarrow> ('q \<Rightarrow> 'c \<Rightarrow> (bool \<times> 'o \<times> 'c) option) \<Rightarrow> (nat \<Rightarrow> 'q) \<Rightarrow> ('c, 'o) poolState \<Rightarrow> bool" where
  "poolInv prep work calls st \<longleftrightarrow>
     distinct (psFree st) \<and> (\<forall>a\<in>set (psFree st). a < psNext st) \<and>
     (\<forall>i a. heldBy (psPhase st i) = Some a \<longrightarrow> a < psNext st \<and> a \<notin> set (psFree st)) \<and>
     (\<forall>i j a. heldBy (psPhase st i) = Some a \<longrightarrow> heldBy (psPhase st j) = Some a \<longrightarrow> i = j) \<and>
     (\<forall>i. phaseOK prep work (calls i) (psObjects st) (psPhase st i))"

lemma set_removeAt: "set (removeAt k xs) \<subseteq> set xs"
  using set_take_subset [of k xs] set_drop_subset [of "Suc k" xs] by (auto simp: removeAt_def)

lemma distinct_removeAt:
  assumes "distinct xs" "k < length xs"
  shows "distinct (removeAt k xs)" "xs ! k \<notin> set (removeAt k xs)"
proof -
  have "distinct (take k xs @ xs ! k # drop (Suc k) xs)"
    using assms(1) id_take_nth_drop [OF assms(2)] by simp
  then show "distinct (removeAt k xs)" "xs ! k \<notin> set (removeAt k xs)"
    by (auto simp: removeAt_def)
qed

lemma phaseOK_finished: "phaseOK prep work q cs (Finished res) = phaseOK prep work q cs (Handled a normal res)"
  by (simp add: phaseOK_def)

text \<open>The shapes of a step: call \<open>i\<close> moves to a phase that holds nothing new, or takes an address.\<close>

lemma poolInv_moves:
  assumes inv: "poolInv prep work calls st"
    and held: "heldBy ph = heldBy (psPhase st i) \<or> heldBy ph = None"
    and cs: "\<And>a. cs a \<noteq> psObjects st a \<Longrightarrow> heldBy (psPhase st i) = Some a"
    and ok: "phaseOK prep work (calls i) cs ph"
  shows "poolInv prep work calls (st\<lparr>psObjects := cs, psPhase := (psPhase st)(i := ph)\<rparr>)"
proof -
  have "phaseOK prep work (calls j) cs (psPhase st j)" if "j \<noteq> i" for j
  proof -
    have "cs a = psObjects st a" if "heldBy (psPhase st j) = Some a" for a
      using cs [of a] that \<open>j \<noteq> i\<close> inv unfolding poolInv_def by metis
    moreover have "phaseOK prep work (calls j) (psObjects st) (psPhase st j)"
      using inv by (simp add: poolInv_def)
    ultimately show ?thesis
      by (cases "psPhase st j") (simp_all add: phaseOK_def)
  qed
  then have "\<forall>j. phaseOK prep work (calls j) cs (((psPhase st)(i := ph)) j)"
    using ok by simp
  moreover have "heldBy (psPhase st j) = Some a" if "heldBy (((psPhase st)(i := ph)) j) = Some a" for j a
    using that held by (auto split: if_splits)
  ultimately show ?thesis
    using inv unfolding poolInv_def by (simp del: fun_upd_apply) meson
qed

lemma poolInv_takes:
  assumes inv: "poolInv prep work calls st"
    and new: "a < n" "psNext st \<le> n" "a \<notin> set free" "\<And>j. heldBy (psPhase st j) \<noteq> Some a"
    and free: "distinct free" "set free \<subseteq> set (psFree st)"
    and cs: "\<And>b. b \<noteq> a \<Longrightarrow> cs b = psObjects st b"
  shows "poolInv prep work calls
    (st\<lparr>psObjects := cs, psNext := n, psFree := free, psPhase := (psPhase st)(i := Holding a)\<rparr>)"
proof -
  have "phaseOK prep work (calls j) cs (psPhase st j)" for j
  proof -
    have "phaseOK prep work (calls j) (psObjects st) (psPhase st j)"
      using inv by (simp add: poolInv_def)
    then show ?thesis
      using cs new(4) [of j] by (cases "psPhase st j") (auto simp: phaseOK_def)
  qed
  moreover have "phaseOK prep work (calls i) cs (Holding a)"
    by (simp add: phaseOK_def)
  moreover have "b < n \<and> b \<notin> set free" if "heldBy (psPhase st j) = Some b" for j b
    using inv that new(2) free(2) unfolding poolInv_def by (meson order_less_le_trans subsetD)
  moreover have "\<forall>b\<in>set free. b < n"
    using inv new(2) free(2) unfolding poolInv_def by (meson order_less_le_trans subsetD)
  ultimately show ?thesis
    using inv new(1,3,4) free(1) unfolding poolInv_def by simp metis
qed

lemma poolInv_collect:
  assumes "poolInv prep work calls st" "k < length (psFree st)"
  shows "poolInv prep work calls (st\<lparr>psFree := removeAt k (psFree st)\<rparr>)"
  using assms set_removeAt [of k "psFree st"] distinct_removeAt(1) [of "psFree st" k]
  unfolding poolInv_def by simp blast

lemma poolInv_put:
  assumes inv: "poolInv prep work calls st" and ph: "psPhase st i = Handled a normal res"
  shows "poolInv prep work calls
    (st\<lparr>psFree := a # psFree st, psPhase := (psPhase st)(i := Finished res)\<rparr>)"
proof -
  have held: "heldBy (psPhase st i) = Some a"
    by (simp add: ph)
  have "phaseOK prep work (calls i) (psObjects st) (Finished res)"
    using inv ph phaseOK_finished [of prep work "calls i" "psObjects st" res a normal] unfolding poolInv_def by metis
  moreover have "a < psNext st" "a \<notin> set (psFree st)"
    using inv held by (auto simp: poolInv_def)
  moreover have "heldBy (psPhase st j) \<noteq> Some a" if "j \<noteq> i" for j
    using inv held that unfolding poolInv_def by blast
  ultimately show ?thesis
    using inv unfolding poolInv_def by simp metis
qed

lemma poolInv_reset:
  assumes inv: "poolInv prep work calls st" and ph: "psPhase st i = Holding a"
  shows "poolInv prep work calls
    (st\<lparr>psObjects := (psObjects st)(a := prep (calls i) (psObjects st a)), psPhase := (psPhase st)(i := Ready a)\<rparr>)"
  by (rule poolInv_moves [OF inv]) (auto simp: phaseOK_def ph split: if_splits)

lemma poolInv_handle:
  assumes inv: "poolInv prep work calls st" and ph: "psPhase st i = Ready a"
    and w: "work (calls i) (psObjects st a) = Some (normal, res, c)"
  shows "poolInv prep work calls
    (st\<lparr>psObjects := (psObjects st)(a := c), psPhase := (psPhase st)(i := Handled a normal res)\<rparr>)"
proof (rule poolInv_moves [OF inv])
  have "phaseOK prep work (calls i) (psObjects st) (psPhase st i)"
    using inv by (simp add: poolInv_def)
  then obtain c0 where "psObjects st a = prep (calls i) c0"
    using ph by (auto simp: phaseOK_def)
  then have "work (calls i) (prep (calls i) c0) = Some (normal, res, c)"
    using w by simp
  then show "phaseOK prep work (calls i) ((psObjects st)(a := c)) (Handled a normal res)"
    by (auto simp: phaseOK_def aloneGives_def)
qed (simp_all add: ph split: if_splits)

lemma poolInv_step:
  assumes inv: "poolInv prep work calls st" and step: "poolStep new prep work calls st st'"
  shows "poolInv prep work calls st'"
  using step
proof cases
  case (make i)
  have "heldBy (psPhase st j) \<noteq> Some (psNext st)" for j
    using inv unfolding poolInv_def by blast
  moreover have "psNext st \<notin> set (psFree st)" "distinct (psFree st)"
    using inv by (auto simp: poolInv_def)
  ultimately show ?thesis
    using poolInv_takes [OF inv, of "psNext st" "psNext st + 1" "psFree st"
        "(psObjects st)(psNext st := new)" i] make by simp
next
  case (reuse i k)
  have "psFree st ! k \<in> set (psFree st)"
    using reuse by simp
  then have "psFree st ! k < psNext st" "heldBy (psPhase st j) \<noteq> Some (psFree st ! k)" for j
    using inv unfolding poolInv_def by blast+
  moreover have "distinct (psFree st)"
    using inv by (simp add: poolInv_def)
  ultimately show ?thesis
    using poolInv_takes [OF inv, of "psFree st ! k" "psNext st" "removeAt k (psFree st)" "psObjects st" i]
      reuse set_removeAt [of k "psFree st"] distinct_removeAt [of "psFree st" k] by simp
next
  case (reset i a)
  then show ?thesis using poolInv_reset [OF inv] by simp
next
  case (handle i a normal res c)
  then show ?thesis using poolInv_handle [OF inv] by simp
next
  case (put i a res)
  then show ?thesis
    using poolInv_put [OF inv] by simp
next
  case (escape i a res)
  have "phaseOK prep work (calls i) (psObjects st) (Finished res)"
    using inv escape phaseOK_finished [of prep work "calls i" "psObjects st" res a False]
    unfolding poolInv_def by metis
  then show ?thesis
    using poolInv_moves [OF inv, of "Finished res" i "psObjects st"] escape by simp
next
  case (collect k)
  then show ?thesis
    using poolInv_collect [OF inv] by simp
qed

lemma poolReach_inv: "poolReach new prep work calls st \<Longrightarrow> poolInv prep work calls st"
proof (induction rule: poolReach.induct)
  case start
  show ?case
    by (simp add: poolInv_def poolStart_def phaseOK_def)
next
  case (step st st')
  then show ?case
    by (blast intro: poolInv_step)
qed

section \<open>The interface\<close>

locale pool_client =
  fixes new :: 'c and prep :: "'q \<Rightarrow> 'c \<Rightarrow> 'c" and work :: "'q \<Rightarrow> 'c \<Rightarrow> (bool \<times> 'o \<times> 'c) option"
  assumes prep_forgets: "prep q c = prep q c'"
begin

lemma alone_unique: "aloneGives prep work q res \<Longrightarrow> \<exists>normal c'. work q (prep q c) = Some (normal, res, c')"
  using prep_forgets [of q c] by (metis aloneGives_def)

lemma not_shared:
  assumes "poolReach new prep work calls st" "heldBy (psPhase st i) = Some a" "heldBy (psPhase st j) = Some a"
  shows "i = j"
  using poolReach_inv [OF assms(1)] assms(2,3) unfolding poolInv_def by metis

lemma isolated:
  assumes "poolReach new prep work calls st" "psPhase st i = Finished res"
  shows "\<exists>normal c'. work (calls i) (prep (calls i) c) = Some (normal, res, c')"
proof -
  have "phaseOK prep work (calls i) (psObjects st) (Finished res)"
    using poolReach_inv [OF assms(1)] assms(2) unfolding poolInv_def by metis
  then show ?thesis by (intro alone_unique) (simp add: phaseOK_def)
qed

text \<open>A call that has arrived is never blocked: in any state, whatever the others are doing, it can be
  finished by its own operations alone.\<close>

lemma can_finish:
  assumes reach: "poolReach new prep work calls st" and ph: "psPhase st i = Arrived"
    and res: "work (calls i) (prep (calls i) c) = Some (normal, res, c')"
  shows "\<exists>st'. poolReach new prep work calls st' \<and> psPhase st' = (psPhase st)(i := Finished res)"
proof -
  let ?a = "psNext st"
  have w: "work (calls i) (prep (calls i) new) = Some (normal, res, c')"
    using res prep_forgets [of "calls i" c new] by simp
  let ?s1 = "st\<lparr>psObjects := (psObjects st)(?a := new), psNext := ?a + 1,
      psPhase := (psPhase st)(i := Holding ?a)\<rparr>"
  let ?s2 = "?s1\<lparr>psObjects := (psObjects ?s1)(?a := prep (calls i) (psObjects ?s1 ?a)),
      psPhase := (psPhase ?s1)(i := Ready ?a)\<rparr>"
  let ?s3 = "?s2\<lparr>psObjects := (psObjects ?s2)(?a := c'), psPhase := (psPhase ?s2)(i := Handled ?a normal res)\<rparr>"
  have "poolReach new prep work calls ?s1"
    by (rule poolReach.step [OF reach poolStep.make [OF ph]])
  then have "poolReach new prep work calls ?s2"
    by (rule poolReach.step) (rule poolStep.reset, simp)
  then have s3: "poolReach new prep work calls ?s3"
    by (rule poolReach.step) (rule poolStep.handle, simp_all add: w)
  show ?thesis
  proof (cases normal)
    case True
    have "poolReach new prep work calls (?s3\<lparr>psFree := ?a # psFree ?s3, psPhase := (psPhase ?s3)(i := Finished res)\<rparr>)"
      by (rule poolReach.step [OF s3], rule poolStep.put) (simp add: True)
    then show ?thesis by (auto intro!: exI)
  next
    case False
    have "poolReach new prep work calls (?s3\<lparr>psPhase := (psPhase ?s3)(i := Finished res)\<rparr>)"
      by (rule poolReach.step [OF s3], rule poolStep.escape) (simp add: False)
    then show ?thesis by (auto intro!: exI)
  qed
qed

end

end
