(* ===== verification/Requests.thy ===== *)
theory Requests
  imports RouterProps MiddlewareProps Pools
begin

text \<open>
  The two pools of the program, shared by the goroutines of concurrent requests: \<^verbatim>\<open>ServeHTTP\<close> takes its
  context from one (\<^verbatim>\<open>router.go\<close>), \<^verbatim>\<open>Compress\<close> its compressor from another (\<^verbatim>\<open>middleware/compress.go\<close>).  The
  router itself is only read.
\<close>

section \<open>Contexts\<close>

text \<open>The context that the pool makes (its nil writer and request stand as empty ones: \<^verbatim>\<open>reset\<close> sets both
  before anything reads them), and the two assignments before \<^verbatim>\<open>dispatch\<close>.\<close>

definition newContext :: "ctx cstate" where
  "newContext =
     \<lparr>cctx = \<lparr>cxWriter = \<lparr>rwUnder = freshWriter, rwStatus = 0, rwSize = 0, rwSuppress = False\<rparr>,
        cxRequest = requestFor [] [], cxParams = [], cxQueryCache = None, cxStore = (\<lambda>k. None), cxRenderer = None\<rparr>,
      cindex = 0\<rparr>"

definition prepare :: "router \<Rightarrow> stdWriter \<times> request \<Rightarrow> ctx cstate \<Rightarrow> ctx cstate" where
  "prepare r q c =
     (let s = cx_reset (fst q) (snd q) c in s\<lparr>cctx := (cctx s)\<lparr>cxRenderer := rtRenderer r\<rparr>\<rparr>)"

text \<open>\<^verbatim>\<open>dispatch\<close> on the context taken: whether it returned, the response (with the panic that left it), and
  the context as it goes back.\<close>

definition handleRequest ::
    "stdlib \<Rightarrow> router \<Rightarrow> stdWriter \<times> request \<Rightarrow> ctx cstate \<Rightarrow> (bool \<times> served \<times> ctx cstate) option" where
  "handleRequest lib r q c = map_option (\<lambda>(p, s). (p = None, (p, s), s)) (dispatch lib r c)"

lemma prepare_forgets: "prepare r q c = prepare r q c'"
  by (simp add: prepare_def cx_reset_def rw_reset_def)

interpretation contexts: pool_client newContext "prepare r" "handleRequest lib r" for lib r
  by unfold_locales (rule prepare_forgets)

lemma ServeHTTP_prepare: "ServeHTTP lib r (fst q) (snd q) c = dispatch lib r (prepare r q c)"
  by (simp add: ServeHTTP_def prepare_def Let_def)

lemma handleRequest_served:
  "handleRequest lib r q (prepare r q c) = Some (normal, res, c') \<Longrightarrow> ServeHTTP lib r (fst q) (snd q) c = Some res"
  by (auto simp: handleRequest_def ServeHTTP_prepare)

section \<open>Compressors\<close>

text \<open>A call is what stands behind \<^verbatim>\<open>Compress\<close> in the chain, and the state in which it runs.\<close>

type_synonym 'g compressed = "'g layered hprog list \<times> 'g layered cstate"

definition resetGzip :: "'g gzipLib \<Rightarrow> 'g compressed \<Rightarrow> 'g \<Rightarrow> 'g" where
  "resetGzip lib q z = gzNew lib"

text \<open>From the reset to the \<^verbatim>\<open>Put\<close>: the compressor goes in front of the writer, the rest of the chain runs, and
  unless it panics the compressor is closed and the writer restored.\<close>

definition compressWork ::
    "'g gzipLib \<Rightarrow> 'g compressed \<Rightarrow> 'g \<Rightarrow> (bool \<times> 'g layered result \<times> 'g) option" where
  "compressWork lib q z =
     (case q of (hs, s) \<Rightarrow>
        let c = cx_SetHeader ''Vary'' ''Accept-Encoding'' (cx_SetHeader ''Content-Encoding'' ''gzip'' (snd (cctx s)));
            used = (\<lambda>s'. case fst (cctx s') of [] \<Rightarrow> z | z' # zs \<Rightarrow> z')
        in case Next hs (s\<lparr>cctx := (z # fst (cctx s), c)\<rparr>) of
             None \<Rightarrow> None
           | Some (Inl v, s') \<Rightarrow> Some (False, (Inl v, s'), used s')
           | Some (Inr err, s') \<Rightarrow> Some (True, (Inr err, s'\<lparr>cctx := closeGzip lib (cctx s')\<rparr>), used s'))"

interpretation compressors: pool_client "gzNew lib" "resetGzip lib" "compressWork lib" for lib
  by unfold_locales (simp add: resetGzip_def)

lemma exec_Compress:
  assumes "sublist ''gzip'' (GetHeader ''Accept-Encoding'' (snd (cctx s)))"
    and "compressWork lib (hs, s) (resetGzip lib (hs, s) z) = Some (normal, res, z')"
  shows "exec (Next hs) (Compress lib) s = Some res"
proof -
  have g: "GetHeader ''Accept-Encoding'' (snd (openGzip lib (cctx s))) = GetHeader ''Accept-Encoding'' (snd (cctx s))"
    by (simp add: openGzip_def GetHeader_def)
  show ?thesis
    using assms g
    by (auto simp: Compress_def compressWork_def resetGzip_def openGzip_def Let_def
        split: option.splits prod.splits sum.splits)
qed

text \<open>A response compressed with a pooled compressor is the one compressed with a compressor of its own,
  whatever other requests compress at the same time.\<close>

theorem compressors_are_isolated:
  assumes "poolReach (gzNew lib) (resetGzip lib) (compressWork lib) calls st"
    and "psPhase st i = Finished res" "sublist ''gzip'' (GetHeader ''Accept-Encoding'' (snd (cctx (snd (calls i)))))"
  shows "exec (Next (fst (calls i))) (Compress lib) (snd (calls i)) = Some res"
  using compressors.isolated [OF assms(1,2)] exec_Compress [OF assms(3)] by (metis prod.collapse)

section \<open>Isolation\<close>

text \<open>C34. In every interleaving of any number of concurrent requests over the shared pool, no two requests
  ever hold the same context, and a request that has finished got exactly the response it gets when it is
  served alone, whatever context the pool handed it.\<close>

theorem requests_are_isolated:
  assumes "poolReach newContext (prepare r) (handleRequest lib r) reqs st"
  shows "(\<forall>i res c. psPhase st i = Finished res \<longrightarrow> ServeHTTP lib r (fst (reqs i)) (snd (reqs i)) c = Some res) \<and>
    (\<forall>i j a. heldBy (psPhase st i) = Some a \<longrightarrow> heldBy (psPhase st j) = Some a \<longrightarrow> i = j)"
  using contexts.isolated [OF assms] contexts.not_shared [OF assms] handleRequest_served by blast

text \<open>Two requests to the sample router, the one after the other.\<close>

definition sampleReqs :: "nat \<Rightarrow> stdWriter \<times> request" where
  "sampleReqs i = (freshWriter, if i = 0 then requestFor ''GET'' ''/users/7'' else requestFor ''DELETE'' ''/users'')"

theorem requests_are_isolated_witness:
  "\<exists>r st res0 res1. runSetup sampleSetup (New sampleLib) = Some (Inr r) \<and>
     poolReach newContext (prepare r) (handleRequest sampleLib r) sampleReqs st \<and>
     psPhase st 0 = Finished res0 \<and> psPhase st 1 = Finished res1 \<and>
     ServeHTTP sampleLib r freshWriter (requestFor ''DELETE'' ''/users'') newContext = Some res1"
proof -
  obtain r where r: "runSetup sampleSetup (New sampleLib) = Some (Inr r)" "shortChains (tableOf [] sampleSetup) r"
    "rtRecovery r" "rtErrorHandler r = DefaultErrorHandler sampleLib"
    by (rule sample_short)
  have inv: "routerInv (tableOf [] sampleSetup) r"
    using setup_runs [OF sampleSetup_good blank_New, of sampleLib] r(1) by auto
  have "contained (dispatch sampleLib r (prepare r (sampleReqs i) newContext))" for i
    by (rule dispatch_contained [OF inv _ r(3,4,2)]) (simp add: prepare_def cx_reset_def Let_def)
  then have served: "\<exists>normal res c. handleRequest sampleLib r (sampleReqs i) (prepare r (sampleReqs i) newContext) =
      Some (normal, res, c)" for i
    unfolding handleRequest_def contained_def by fastforce
  obtain n0 res0 c0 where
    h0: "handleRequest sampleLib r (sampleReqs 0) (prepare r (sampleReqs 0) newContext) = Some (n0, res0, c0)"
    using served by blast
  have start: "psPhase (poolStart newContext) = (\<lambda>i. Arrived)" by (simp add: poolStart_def)
  obtain s0 where s0: "poolReach newContext (prepare r) (handleRequest sampleLib r) sampleReqs s0"
    "psPhase s0 = (\<lambda>i. Arrived)(0 := Finished res0)"
    using contexts.can_finish [where i = 0 and calls = sampleReqs, OF poolReach.start _ h0] unfolding start by blast
  moreover have "psPhase s0 1 = Arrived" using s0(2) by simp
  ultimately obtain s1 res1 where
    s1: "poolReach newContext (prepare r) (handleRequest sampleLib r) sampleReqs s1" "psPhase s1 = (psPhase s0)(1 := Finished res1)"
    using contexts.can_finish [where i = 1, OF s0(1)] served [of 1] by blast
  then have f: "psPhase s1 0 = Finished res0" "psPhase s1 1 = Finished res1" using s0(2) by simp_all
  have "ServeHTTP sampleLib r freshWriter (requestFor ''DELETE'' ''/users'') newContext = Some res1"
    using requests_are_isolated [OF s1(1), THEN conjunct1, rule_format, OF f(2), of newContext]
    by (simp add: sampleReqs_def)
  then have "runSetup sampleSetup (New sampleLib) = Some (Inr r) \<and>
     poolReach newContext (prepare r) (handleRequest sampleLib r) sampleReqs s1 \<and>
     psPhase s1 0 = Finished res0 \<and> psPhase s1 1 = Finished res1 \<and>
     ServeHTTP sampleLib r freshWriter (requestFor ''DELETE'' ''/users'') newContext = Some res1"
    using r(1) s1(1) f by simp
  then show ?thesis by (intro exI)
qed

end
