(* ===== verification/Guards.thy ===== *)
theory Guards
  imports RouterProps MiddlewareProps
begin

text \<open>
  Global middleware and the router together: what is registered by the first \<^verbatim>\<open>Use\<close> of a set-up stands at
  the head of every chain that \<^verbatim>\<open>dispatch\<close> runs, also of the chains for HEAD, OPTIONS, 405 and 404.  Only
  the trailing-slash redirect is answered without it.
\<close>

section \<open>The head of every chain\<close>

text \<open>What \<^verbatim>\<open>dispatch\<close> leaves alone before it runs a chain: the request, the store and what has been sent.\<close>

definition asReceived :: "ctx \<Rightarrow> ctx \<Rightarrow> bool" where
  "asReceived c c' \<longleftrightarrow>
     cxRequest c' = cxRequest c \<and> cxWritten c' = cxWritten c \<and>
     wSent (rwUnder (cxWriter c')) = wSent (rwUnder (cxWriter c)) \<and>
     wBody (rwUnder (cxWriter c')) = wBody (rwUnder (cxWriter c)) \<and> cxStore c' = cxStore c"

lemma asReceived_refl: "asReceived c c"
  by (simp add: asReceived_def)

lemma asReceived_steps:
  "asReceived (cctx s) (cctx (setParams ps s))" "asReceived (cctx s) (cctx (suppressBody (setParams ps s)))"
  "asReceived (cctx s) (mapHeader f (cctx s))"
  by (simp_all add: asReceived_def setParams_def suppressBody_def mapHeader_def cxWritten_def rw_Written_def)

definition startsWith :: "handler \<Rightarrow> handler list \<Rightarrow> bool" where
  "startsWith h hs \<longleftrightarrow> (\<exists>rest. hs = h # rest) \<and> int (length hs) \<le> abortIndex"

definition headed :: "handler \<Rightarrow> (string \<Rightarrow> (string \<times> handler list) list) \<Rightarrow> router \<Rightarrow> bool" where
  "headed h T r \<longleftrightarrow> (\<forall>m. \<forall>e\<in>set (T m). \<exists>rest. snd e = h # rest) \<and> (\<exists>rest. rtMiddleware r = h # rest)"

lemma headed_table: "\<forall>e\<in>set (tableOf (h # mw) ops m). \<exists>rest. snd e = h # rest"
  by (induction "h # mw" ops m arbitrary: mw rule: tableOf.induct) auto

lemma headed_setup:
  assumes "runSetup (SUse (h # hs) # ops) r0 = Some (Inr r)" "blank r0"
  shows "headed h (tableOf [] (SUse (h # hs) # ops)) r"
  using runSetup_middleware [OF assms(1)] assms(2) headed_table [of h hs ops] by (auto simp: headed_def blank_def)

lemma headed_scan:
  assumes "headed h T r" "shortChains T r" "scan (T m) p = Some (hs, ps)"
  shows "startsWith h hs"
  using scan_entry [OF assms(3)] assms(1,2) by (auto simp: headed_def shortChains_def startsWith_def)

lemma headed_compose: "headed h T r \<Longrightarrow> shortChains T r \<Longrightarrow> startsWith h (compose r [g])"
  by (auto simp: headed_def shortChains_def startsWith_def compose_def)

text \<open>A request is answered by a chain that starts with the handler.\<close>

definition chained :: "stdlib \<Rightarrow> router \<Rightarrow> handler \<Rightarrow> ctx cstate \<Rightarrow> served option \<Rightarrow> bool" where
  "chained lib r h s res \<longleftrightarrow>
     (\<exists>hs s'. res = runChain lib r hs s' \<and> startsWith h hs \<and> asReceived (cctx s) (cctx s'))"

lemma chainedI: "startsWith h hs \<Longrightarrow> asReceived (cctx s) (cctx s') \<Longrightarrow> chained lib r h s (runChain lib r hs s')"
  by (auto simp: chained_def)

lemma restSpec_headed:
  assumes "headed h T r" "shortChains T r"
  shows "chained lib r h s (restSpec lib r T s)"
  using headed_compose [OF assms] asReceived_steps(3) [of s] asReceived_refl
  by (auto simp: restSpec_def Let_def intro!: chainedI)

lemma dispatch_headed:
  assumes "routerInv T r" "headed h T r" "shortChains T r" "cxParams (cctx s) = []"
  shows "chained lib r h s (dispatch lib r s) \<or>
    rtRedirectTrailingSlash r \<and> scan (T (reqMethod (cxRequest (cctx s)))) (reqPath (cxRequest (cctx s))) = None \<and>
    dispatch lib r s = Some (None, s\<lparr>cctx := redirectTrailingSlash lib (cctx s)\<rparr>)"
proof -
  have "chained lib r h s (dispatchSpec lib r T s)"
    using headed_scan [OF assms(2,3)] asReceived_steps(1,2) restSpec_headed [OF assms(2,3)]
    by (auto simp: dispatchSpec_def Let_def split: option.split intro!: chainedI)
  then show ?thesis using dispatch_cases [OF assms(1,4), of lib] dispatch_spec [OF assms(1,4), of lib] by metis
qed

section \<open>Authentication of a whole program\<close>

lemma runChain_error:
  assumes "outcome (Next hs (s\<lparr>cindex := -1\<rparr>)) = Some (Inr (Some err), c)" "rtErrorHandler r = DefaultErrorHandler lib"
  shows "\<exists>s'. runChain lib r hs s = Some (None, s') \<and> cctx s' = snd (DefaultErrorHandler lib c err)"
proof -
  obtain s1 where "Next hs (s\<lparr>cindex := -1\<rparr>) = Some (Inr (Some err), s1)" "cctx s1 = c"
    using assms(1) by (auto simp: outcome_def)
  moreover have "DefaultErrorHandler lib c err = (None, snd (DefaultErrorHandler lib c err))"
    using DefaultErrorHandler_quiet [of lib c err] by (metis prod.collapse)
  ultimately show ?thesis
    using assms(2) by (auto simp: runChain_def callErrorHandler_def split: prod.split)
qed

lemma auth_refuses:
  assumes "BasicAuthWithConfig decode quote cfg = Inr h" "Validator cfg = Some valid" "startsWith h hs"
    and "\<not> authAccepts decode valid (cctx s)"
  shows "outcome (Next hs (s\<lparr>cindex := -1\<rparr>)) =
    Some (Inr (Some (HTTPError 401 ''Unauthorized'' None)),
      cx_SetHeader ''WWW-Authenticate'' (authChallenge quote cfg) (cctx s))"
proof -
  let ?s = "s\<lparr>cindex := -1\<rparr>"
  have h: "h = Effect
      (\<lambda>c. if authAccepts decode valid c then c else cx_SetHeader ''WWW-Authenticate'' (authChallenge quote cfg) c)
      (\<lambda>c. if authAccepts decode valid c then returnNext else Return (Some (NewHTTPError 401 [])))"
    using assms(1,2) by (simp add: BasicAuthWithConfig_def)
  have "atHandler hs ?s h" using assms(3) by (auto simp: startsWith_def atHandler_def)
  moreover have "exec (Next hs) h (advance ?s) =
      Some (Inr (Some (HTTPError 401 ''Unauthorized'' None)),
        (advance ?s)\<lparr>cctx := cx_SetHeader ''WWW-Authenticate'' (authChallenge quote cfg) (cctx s)\<rparr>)"
    unfolding h using assms(4) by (simp add: StatusText_def statusTable_def)
  ultimately show ?thesis using outcome_fails by fastforce
qed

text \<open>C15. In a set-up without conflicting patterns and with the default error handler, Basic authentication
  registered first guards the whole program: a request without credentials that the validator accepts is
  answered with 401 and the challenge on every path and method, found or not, by HEAD and OPTIONS too, and
  no other handler touches the context; the only other answer is the redirect of a path without a route
  to the one with the other trailing slash, which the router gives before any middleware.  Chains are
  shorter than the abort index, and nothing has been written to the response yet.\<close>

theorem auth_guards_program:
  assumes "BasicAuthWithConfig decode quote cfg = Inr h" "Validator cfg = Some valid"
    and "goodSetup (SUse (h # hs) # ops)" "blank r0" "runSetup (SUse (h # hs) # ops) r0 = Some (Inr r)"
    and "shortChains (tableOf [] (SUse (h # hs) # ops)) r" "rtErrorHandler r = DefaultErrorHandler lib"
    and "cxParams (cctx s) = []" "\<not> cxWritten (cctx s)" "wSent (rwUnder (cxWriter (cctx s))) = None"
    and "\<forall>c. cxRequest c = cxRequest (cctx s) \<longrightarrow> \<not> authAccepts decode valid c"
  shows "\<exists>s'. dispatch lib r s = Some (None, s') \<and>
    (rtRedirectTrailingSlash r \<and> s' = s\<lparr>cctx := redirectTrailingSlash lib (cctx s)\<rparr> \<and>
       scan (tableOf [] (SUse (h # hs) # ops) (reqMethod (cxRequest (cctx s)))) (reqPath (cxRequest (cctx s))) = None \<or>
     (\<exists>c hdr. asReceived (cctx s) c \<and>
        cctx s' = snd (DefaultErrorHandler lib (cx_SetHeader ''WWW-Authenticate'' (authChallenge quote cfg) c)
          (HTTPError 401 ''Unauthorized'' None)) \<and>
        wSent (rwUnder (cxWriter (cctx s'))) = Some (401, hdr) \<and> hGet hdr ''WWW-Authenticate'' = authChallenge quote cfg))"
proof -
  let ?T = "tableOf [] (SUse (h # hs) # ops)"
  have inv: "routerInv ?T r" using setup_runs [OF assms(3,4)] assms(5) by auto
  from dispatch_headed [OF inv headed_setup [OF assms(5,4)] assms(6,8), of lib] show ?thesis
  proof
    assume "chained lib r h s (dispatch lib r s)"
    then obtain hs' s0 where d: "dispatch lib r s = runChain lib r hs' s0" "startsWith h hs'"
      and a: "asReceived (cctx s) (cctx s0)" by (auto simp: chained_def)
    let ?c = "cx_SetHeader ''WWW-Authenticate'' (authChallenge quote cfg) (cctx s0)"
    have "\<not> authAccepts decode valid (cctx s0)" using a assms(11) by (simp add: asReceived_def)
    from runChain_error [OF auth_refuses [OF assms(1,2) d(2) this] assms(7)] obtain s' where
      s': "dispatch lib r s = Some (None, s')" "cctx s' = snd (DefaultErrorHandler lib ?c (HTTPError 401 ''Unauthorized'' None))"
      using d(1) by auto
    have c: "\<not> cxWritten ?c" "wSent (rwUnder (cxWriter ?c)) = None"
      using a assms(9,10) by (simp_all add: asReceived_def cx_SetHeader_def mapHeader_def cxWritten_def rw_Written_def)
    then have "wSent (rwUnder (cxWriter (cctx s'))) = Some (401, hSet ''Content-Type'' MIMEJSON (cxHeader ?c))"
      using cx_JSON_sent [OF c, of 401] by (simp add: s'(2) DefaultErrorHandler_def)
    moreover have "canonicalKey ''WWW-Authenticate'' \<noteq> canonicalKey ''Content-Type''" by code_simp
    then have "hGet (hSet ''Content-Type'' MIMEJSON (cxHeader ?c)) ''WWW-Authenticate'' = authChallenge quote cfg"
      by (simp add: cx_SetHeader_def http_simps)
    ultimately show ?thesis using s' a by blast
  qed auto
qed

theorem auth_guards_program_witness:
  "\<exists>h r s' hdr. BasicAuthWithConfig Some id sampleAuth = Inr h \<and>
     runSetup [SUse [h], SHandle ''GET'' ''/users'' [okHandler]] (New sampleLib) = Some (Inr r) \<and>
     dispatch sampleLib r (freshState ''GET'' ''/users'') = Some (None, s') \<and>
     wSent (rwUnder (cxWriter (cctx s'))) = Some (401, hdr) \<and> hGet hdr ''WWW-Authenticate'' = ''Basic realm=Restricted''"
proof -
  obtain h where h: "BasicAuthWithConfig Some id sampleAuth = Inr h"
    by (simp add: BasicAuthWithConfig_def sampleAuth_def)
  let ?ops = "[SUse [h], SHandle ''GET'' ''/users'' [okHandler]]"
  have "readable ''/users''" by code_simp
  then have good: "goodSetup ?ops" by (simp add: goodSetup_def)
  then obtain r where r: "runSetup ?ops (New sampleLib) = Some (Inr r)" "sameOptions (New sampleLib) r"
    using setup_runs [OF _ blank_New] by blast
  have "rtMiddleware r = [h]" using runSetup_middleware [OF r(1)] by (simp add: New_def)
  then have short: "shortChains (tableOf [] ?ops) r" by (simp add: shortChains_def abortIndex_def)
  have e: "rtErrorHandler r = DefaultErrorHandler sampleLib" using r(2) by (simp add: sameOptions_def New_def)
  have v: "Validator sampleAuth = Some (\<lambda>user pass c. user = pass)" by (simp add: sampleAuth_def)
  have n: "\<forall>c. cxRequest c = cxRequest (cctx (freshState ''GET'' ''/users'')) \<longrightarrow>
      \<not> authAccepts Some (\<lambda>user pass c. user = pass) c"
    by (simp add: authAccepts_def GetHeader_def freshState_def requestFor_def hGet_def parseBasicAuth_def)
  have w: "\<not> cxWritten (cctx (freshState ''GET'' ''/users''))" "wSent (rwUnder (cxWriter (cctx (freshState ''GET'' ''/users'')))) = None"
    by (simp_all add: freshState_def cxWritten_def rw_Written_def rw_reset_def freshWriter_def)
  have "scan (tableOf [] ?ops ''GET'') ''/users'' \<noteq> None" by (simp add: sample_pats)
  with auth_guards_program [OF h v good blank_New r(1) short e freshState_simps(1) w n] h r(1) show ?thesis
    by (auto simp: authChallenge_def sampleAuth_def)
qed

end
