(* ===== verification/TreeMap.thy ===== *)
theory TreeMap
  imports TreeInsert
begin

text \<open>
  Registration looks at handlers only to see whether there are any: it commutes with a change of what is
  stored at the nodes.  A tree that stores references and the tree of what they refer to therefore
  stay in step (\<open>addRoute_map\<close>), and a tree stores nothing that was not registered (\<open>addRoute_stores\<close>).
\<close>

section \<open>Fields and small operations\<close>

lemma map_node_fields [simp]:
  "npath (map_node f n) = npath n" "nindices (map_node f n) = nindices n"
  "nchildren (map_node f n) = map (map_node f) (nchildren n)" "nhandlers (map_node f n) = map_option f (nhandlers n)"
  "npriority (map_node f n) = npriority n" "nType (map_node f n) = nType n" "nwildChild (map_node f n) = nwildChild n"
  "nparamName (map_node f n) = nparamName n"
  by (cases n; simp)+

lemma map_node_setters:
  "map_node f (set_npath v n) = set_npath v (map_node f n)"
  "map_node f (set_nindices s n) = set_nindices s (map_node f n)"
  "map_node f (set_nchildren cs n) = set_nchildren (map (map_node f) cs) (map_node f n)"
  "map_node f (set_nhandlers h n) = set_nhandlers (map_option f h) (map_node f n)"
  "map_node f (set_nType ty n) = set_nType ty (map_node f n)"
  "map_node f (set_nwildChild w n) = set_nwildChild w (map_node f n)"
  "map_node f (incPriority n) = incPriority (map_node f n)"
  "map_node f emptyNode = emptyNode"
  by (cases n; simp add: emptyNode_def)+

lemma map_node_replaceChild: "map_node f (replaceChild n i m) = replaceChild (map_node f n) i (map_node f m)"
  by (simp add: replaceChild_def map_node_setters map_update)

lemma map_node_splitNode: "map_node f (splitNode i path n) = splitNode i path (map_node f n)"
  by (simp add: splitNode_def)

lemma swapDown_map:
  "pos < length cs \<Longrightarrow> swapDown prio pos (map (map_node f) cs) = map_prod id (map (map_node f)) (swapDown prio pos cs)"
  by (induction prio pos cs rule: swapDown.induct) (auto simp: map_update)

lemma swapDown_range: "pos < length cs \<Longrightarrow> fst (swapDown prio pos cs) \<le> pos \<and> length (snd (swapDown prio pos cs)) = length cs"
  by (induction prio pos cs rule: swapDown.induct) auto

lemma incrementChildPriority_map:
  "incrementChildPriority (map_node f n) pos = map_sum id (map_prod id (map_node f)) (incrementChildPriority n pos)"
proof (cases "pos < length (nchildren n)")
  case True
  let ?cs = "(nchildren n)[pos := incPriority (nchildren n ! pos)]"
  have cs: "(map (map_node f) (nchildren n))[pos := incPriority (map (map_node f) (nchildren n) ! pos)] = map (map_node f) ?cs"
    using True by (simp add: map_update map_node_setters)
  have pr: "npriority (map (map_node f) ?cs ! pos) = npriority (?cs ! pos)" using True by simp
  obtain q cs' where s: "swapDown (npriority (?cs ! pos)) pos ?cs = (q, cs')" by force
  then have "swapDown (npriority (?cs ! pos)) pos (map (map_node f) ?cs) = (q, map (map_node f) cs')"
    using swapDown_map [of pos ?cs "npriority (?cs ! pos)" f] True by simp
  then show ?thesis
    using True s unfolding incrementChildPriority_def map_node_fields cs Let_def pr length_map
    by (simp add: map_node_setters)
qed (simp add: incrementChildPriority_def)

lemma incrementChildPriority_range:
  assumes "incrementChildPriority n pos = Inr (q, n')"
  shows "q \<le> pos" "pos < length (nchildren n)" "length (nchildren n') = length (nchildren n)"
proof -
  let ?cs = "(nchildren n)[pos := incPriority (nchildren n ! pos)]"
  show pos: "pos < length (nchildren n)" using assms by (simp add: incrementChildPriority_def split: if_splits)
  obtain q1 cs' where s: "swapDown (npriority (?cs ! pos)) pos ?cs = (q1, cs')" by force
  then have "q1 \<le> pos" "length cs' = length (nchildren n)"
    using swapDown_range [of pos ?cs "npriority (?cs ! pos)"] pos by simp_all
  moreover have "q = q1" "nchildren n' = cs'"
    using assms pos s by (auto simp: incrementChildPriority_def Let_def field_simps)
  ultimately show "q \<le> pos" "length (nchildren n') = length (nchildren n)" by simp_all
qed

text \<open>Inserting below a node without children; the case that goes down is that of a parameter.\<close>

lemma insertChild_map:
  "insertChild (map_node f n) path fullPath (f h) = map_sum id (map_node f) (insertChild n path fullPath h)"
proof (induction path arbitrary: n rule: measure_induct_rule [where f = length])
  case (less path)
  obtain wildcard idx valid where w: "findWildcard path = (wildcard, idx, valid)" by (metis prod.exhaust)
  let ?down = "\<not> idx < 0 \<and> valid \<and> \<not> length wildcard < 2 \<and> wildcard ! 0 = CHR '':''"
  let ?path1 = "if 0 < idx then drop (nat idx) path else path"
  show ?case
  proof (cases "?down \<and> length wildcard < length ?path1")
    case True
    let ?e = "Node [] [] [] None [] 1 NodeStatic False"
    have "insertChild (map_node f ?e) (drop (length wildcard) ?path1) fullPath (f h) =
        map_sum id (map_node f) (insertChild ?e (drop (length wildcard) ?path1) fullPath h)"
      by (rule less.IH) (use True in auto)
    then show ?thesis
      using True w
      by (cases "insertChild ?e (drop (length wildcard) ?path1) fullPath h")
        (simp_all add: insertChild.simps [of n] insertChild.simps [of "map_node f n"] map_node_setters Let_def)
  next
    case False
    note unfolds = insertChild.simps [of n] insertChild.simps [of "map_node f n"] w map_node_setters
    consider "idx < 0" | "\<not> idx < 0" "\<not> valid" | "\<not> idx < 0" "valid" "length wildcard < 2"
      | "\<not> idx < 0" "valid" "\<not> length wildcard < 2" "wildcard ! 0 \<noteq> CHR '':''"
      | "?down" "\<not> length wildcard < length ?path1"
      using False by blast
    then show ?thesis
    proof cases
      case 5
      then show ?thesis by (simp add: unfolds Let_def)
    qed (simp_all add: unfolds Let_def)
  qed
qed

section \<open>Registration\<close>

lemma map_sum_replace:
  "map_sum id (map_node f) (map_sum id (replaceChild n i) r) =
     map_sum id (replaceChild (map_node f n) i) (map_sum id (map_node f) r)"
  by (cases r) (simp_all add: map_node_replaceChild)

text \<open>One round of the loop, with what follows as an argument.\<close>

definition walkBody ::
    "('h node \<Rightarrow> string \<Rightarrow> (gopanic + 'h node) option) \<Rightarrow> string \<Rightarrow> 'h \<Rightarrow> 'h node \<Rightarrow> string \<Rightarrow> (gopanic + 'h node) option"
  where
  "walkBody rec fullPath handlers n path =
     (let i = longestCommonPrefix path (npath n);
          n1 = (if i < length (npath n) then splitNode i path n else n)
      in if i < length path then
           let path1 = drop i path; c = path1 ! 0
           in if nType n1 = NodeParam \<and> c = CHR ''/'' \<and> length (nchildren n1) = 1 then
                Option.bind (rec (incPriority (nchildren n1 ! 0)) path1) (\<lambda>r. Some (map_sum id (replaceChild n1 0) r))
              else
                (case (if nType n1 \<noteq> NodeParam then indexOf c (nindices n1) else None) of
                   Some idx \<Rightarrow>
                     (case incrementChildPriority n1 idx of
                        Inl e \<Rightarrow> Some (Inl e)
                      | Inr q \<Rightarrow>
                          Option.bind (rec (nchildren (snd q) ! fst q) path1)
                            (\<lambda>r. Some (map_sum id (replaceChild (snd q) (fst q)) r)))
                 | None \<Rightarrow>
                     if c \<noteq> CHR '':'' \<and> c \<noteq> CHR ''*'' \<and> nType n1 \<noteq> NodeCatchAll then
                       Some (growChild n1 c path1 fullPath handlers)
                     else if nwildChild n1 then
                       (if nchildren n1 = [] then Some (Inl IndexOutOfRange)
                        else
                          let k = length (nchildren n1) - 1; m = incPriority (nchildren n1 ! k)
                          in if continuesWild path1 m then
                               Option.bind (rec m path1) (\<lambda>r. Some (map_sum id (replaceChild n1 k) r))
                             else Some (Inl (PanicMsg (''wildcard conflict: '' @ quoted path1 @
                                    '' conflicts with existing route in path '' @ quoted fullPath))))
                     else Some (insertChild n1 path1 fullPath handlers))
         else if nhandlers n1 \<noteq> None then
           Some (Inl (PanicMsg (''handlers are already registered for path '' @ quoted fullPath)))
         else Some (Inr (set_nhandlers (Some handlers) n1)))"

lemma growChild_map:
  "growChild (map_node f n) c path fullPath (f h) = map_sum id (map_node f) (growChild n c path fullPath h)"
proof -
  define n1 where "n1 = set_nchildren (nchildren n @ [emptyNode]) (set_nindices (nindices n @ byteString c) n)"
  define pos where "pos = length (nindices n1) - 1"
  define L where "L = length (nchildren n)"
  have g: "growChild n c path fullPath h = (case incrementChildPriority n1 pos of
      Inl e \<Rightarrow> Inl e | Inr q \<Rightarrow> let loc = (if pos = L then fst q else L) in
        map_sum id (replaceChild (snd q) loc) (insertChild (nchildren (snd q) ! loc) path fullPath h))"
    unfolding growChild_def n1_def pos_def L_def Let_def by (simp split: sum.splits prod.splits)
  have "set_nchildren (nchildren (map_node f n) @ [emptyNode])
      (set_nindices (nindices (map_node f n) @ byteString c) (map_node f n)) = map_node f n1"
    by (simp add: n1_def map_node_setters)
  moreover have "length (nindices (map_node f n1)) - 1 = pos" "length (nchildren (map_node f n)) = L"
    by (simp_all add: pos_def L_def)
  ultimately have g': "growChild (map_node f n) c path fullPath (f h) = (case incrementChildPriority (map_node f n1) pos of
      Inl e \<Rightarrow> Inl e | Inr q \<Rightarrow> let loc = (if pos = L then fst q else L) in
        map_sum id (replaceChild (snd q) loc) (insertChild (nchildren (snd q) ! loc) path fullPath (f h)))"
    unfolding growChild_def Let_def by (simp split: sum.splits prod.splits)
  show ?thesis
  proof (cases "incrementChildPriority n1 pos")
    case (Inr q)
    obtain newPos n2 where q: "q = (newPos, n2)" by force
    note R = incrementChildPriority_range [OF Inr [unfolded q]]
    have "length (nchildren n1) = Suc L" by (simp add: n1_def L_def)
    then have "(if pos = L then newPos else L) < length (nchildren n2)" using R by auto
    then show ?thesis
      unfolding g g' incrementChildPriority_map
      using Inr
      by (cases "pos = L")
        (simp_all add: q insertChild_map [symmetric] Let_def map_sum_replace)
  qed (simp add: g g' incrementChildPriority_map)
qed

lemma continuesWild_map [simp]: "continuesWild path (map_node f m) = continuesWild path m"
  by (simp add: continuesWild_def)

text \<open>Two runs in step: when the one of which \<open>up\<close> says so returns, the second is the image of the first.\<close>

definition inStep :: "('a \<Rightarrow> 'b) \<Rightarrow> bool \<Rightarrow> (gopanic + 'a node) option \<Rightarrow> (gopanic + 'b node) option \<Rightarrow> bool" where
  "inStep f up x y \<longleftrightarrow> (if up then x = None else y = None) \<or> y = map_option (map_sum id (map_node f)) x"

lemma inStep_done:
  "inStep f up (Some (Inl e)) (Some (Inl e))" "inStep f up (Some (Inr n)) (Some (Inr (map_node f n)))"
  "inStep f up (Some r) (Some (map_sum id (map_node f) r))"
  by (simp_all add: inStep_def)

lemma inStep_bind:
  assumes "inStep f up x y"
  shows "inStep f up (Option.bind x (\<lambda>r. Some (map_sum id (replaceChild n i) r)))
    (Option.bind y (\<lambda>r. Some (map_sum id (replaceChild (map_node f n) i) r)))"
  using assms by (cases up; cases x; cases y) (auto simp: inStep_def map_sum_replace)

lemma walkBody_map:
  assumes rec: "\<And>m q. inStep f up (recA m q) (recB (map_node f m) q)"
  shows "inStep f up (walkBody recA fp h n p) (walkBody recB fp (f h) (map_node f n) p)"
proof -
  define i where "i = longestCommonPrefix p (npath n)"
  define n1 where "n1 = (if i < length (npath n) then splitNode i p n else n)"
  define path1 where "path1 = drop i p"
  have n1': "(if i < length (npath n) then splitNode i p (map_node f n) else map_node f n) = map_node f n1"
    by (simp add: n1_def map_node_splitNode)
  note body = walkBody_def [of recA fp h n p, unfolded Let_def, folded i_def, folded n1_def, folded path1_def]
    walkBody_def [of recB fp "f h" "map_node f n" p, unfolded Let_def map_node_fields(1), folded i_def,
      unfolded n1', folded path1_def]
  let ?c = "path1 ! 0"
  let ?idx = "if nType n1 \<noteq> NodeParam then indexOf ?c (nindices n1) else None"
  let ?k = "length (nchildren n1) - 1"
  let ?m = "incPriority (nchildren n1 ! ?k)"
  have child: "nchildren (map_node f N) ! k = map_node f (nchildren N ! k)" if "k < length (nchildren N)" for N :: "'a node" and k
    using that by simp
  consider (stop) "\<not> i < length p"
    | (slash) "i < length p" "nType n1 = NodeParam" "?c = CHR ''/''" "length (nchildren n1) = 1"
    | (index) idx where "i < length p" "nType n1 \<noteq> NodeParam" "indexOf ?c (nindices n1) = Some idx"
    | (wild) "i < length p" "\<not> (nType n1 = NodeParam \<and> ?c = CHR ''/'' \<and> length (nchildren n1) = 1)" "?idx = None"
    by (cases ?idx) (auto split: if_splits)
  then show ?thesis
  proof cases
    case stop
    then show ?thesis
      using inStep_done(2) [of f up "set_nhandlers (Some h) n1"] unfolding body
      by (simp add: inStep_done(1) map_node_setters)
  next
    case slash
    have "inStep f up (Option.bind (recA (incPriority (nchildren n1 ! 0)) path1) (\<lambda>r. Some (map_sum id (replaceChild n1 0) r)))
      (Option.bind (recB (map_node f (incPriority (nchildren n1 ! 0))) path1)
         (\<lambda>r. Some (map_sum id (replaceChild (map_node f n1) 0) r)))"
      by (rule inStep_bind [OF rec])
    then show ?thesis using slash unfolding body by (simp add: map_node_setters)
  next
    case index
    show ?thesis
    proof (cases "incrementChildPriority n1 idx")
      case (Inl e)
      then show ?thesis using index unfolding body by (simp add: incrementChildPriority_map inStep_done)
    next
      case (Inr q)
      have "fst q < length (nchildren (snd q))"
        using incrementChildPriority_range [of n1 idx "fst q" "snd q"] Inr by simp
      moreover have "inStep f up (Option.bind (recA (nchildren (snd q) ! fst q) path1)
          (\<lambda>r. Some (map_sum id (replaceChild (snd q) (fst q)) r)))
        (Option.bind (recB (map_node f (nchildren (snd q) ! fst q)) path1)
          (\<lambda>r. Some (map_sum id (replaceChild (map_node f (snd q)) (fst q)) r)))"
        by (rule inStep_bind [OF rec])
      ultimately show ?thesis using index Inr unfolding body by (simp add: incrementChildPriority_map)
    qed
  next
    case wild
    have k: "nchildren n1 \<noteq> [] \<Longrightarrow> incPriority (nchildren (map_node f n1) ! ?k) = map_node f ?m"
      by (simp add: map_node_setters)
    have "inStep f up (Option.bind (recA ?m path1) (\<lambda>r. Some (map_sum id (replaceChild n1 ?k) r)))
        (Option.bind (recB (map_node f ?m) path1) (\<lambda>r. Some (map_sum id (replaceChild (map_node f n1) ?k) r)))"
      by (rule inStep_bind [OF rec])
    moreover have idx': "(if nType (map_node f n1) \<noteq> NodeParam then indexOf ?c (nindices (map_node f n1)) else None) = None"
      "\<not> (nType (map_node f n1) = NodeParam \<and> ?c = CHR ''/'' \<and> length (nchildren (map_node f n1)) = 1)"
      using wild by (simp_all split: if_splits)
    ultimately show ?thesis
      unfolding body if_P [OF wild(1)] if_not_P [OF wild(2)] if_not_P [OF idx'(2)] wild(3) idx'(1) option.case
      using k by (simp add: growChild_map insertChild_map inStep_done)
  qed
qed

text \<open>Registration commutes with a change of the handlers, and divergence too.\<close>

lemma walkBody_walk: "walkBody (walk fp h) fp h n p = walk fp h n p"
  unfolding walkBody_def by (rule walk.simps [of fp h n p, symmetric])

lemma walk_map_from:
  "walk fp h n p = Some y \<Longrightarrow> inStep f True (Some y) (walk fp (f h) (map_node f n) p)"
proof (induction rule: walk.raw_induct [rotated, consumes 1, case_names step])
  case (step rec fp h n p y)
  have "inStep f True (rec fp h m q) (walk fp (f h) (map_node f m) q)" for m q
    using step(1) by (cases "rec fp h m q") (simp_all add: inStep_def)
  then have "inStep f True (walkBody (rec fp h) fp h n p) (walkBody (walk fp (f h)) fp (f h) (map_node f n) p)"
    by (rule walkBody_map)
  moreover have "walkBody (rec fp h) fp h n p = Some y" unfolding walkBody_def by (rule step(2))
  ultimately show ?case unfolding walkBody_walk by simp
qed

lemma walk_map_to:
  "walk fp h' n' p = Some y \<Longrightarrow> h' = f h \<Longrightarrow> n' = map_node f n \<Longrightarrow> inStep f False (walk fp h n p) (Some y)"
proof (induction arbitrary: h n rule: walk.raw_induct [rotated, consumes 1, case_names step])
  case (step rec fp h' n' p y)
  have "inStep f False (walk fp h m q) (rec fp (f h) (map_node f m) q)" for m q
    using step(1) [of fp "f h" "map_node f m" q _ h m] by (cases "rec fp (f h) (map_node f m) q") (simp_all add: inStep_def)
  then have "inStep f False (walkBody (walk fp h) fp h n p) (walkBody (rec fp (f h)) fp (f h) (map_node f n) p)"
    by (rule walkBody_map)
  moreover have "walkBody (rec fp (f h)) fp (f h) (map_node f n) p = Some y"
    unfolding walkBody_def using step(2) unfolding step(3,4) .
  ultimately show ?case unfolding walkBody_walk by simp
qed

lemma walk_map: "walk fp (f h) (map_node f n) p = map_option (map_sum id (map_node f)) (walk fp h n p)"
proof (cases "walk fp h n p")
  case None
  then show ?thesis
    using walk_map_to [of fp "f h" "map_node f n" p _ f h n]
    by (cases "walk fp (f h) (map_node f n) p") (simp_all add: inStep_def)
next
  case (Some y)
  then show ?thesis using walk_map_from [OF Some, of f] by (simp add: inStep_def)
qed

theorem addRoute_map: "addRoute (map_node f n) p (f h) = map_option (map_sum id (map_node f)) (addRoute n p h)"
proof -
  have ty: "map_sum id (map_node f) (map_sum id (set_nType NodeRoot) r) =
      map_sum id (set_nType NodeRoot) (map_sum id (map_node f) r)" for r
    by (cases r) (simp_all add: map_node_setters)
  have n1: "incPriority (map_node f n) = map_node f (incPriority n)" by (simp add: map_node_setters)
  show ?thesis
    unfolding addRoute_def Let_def n1 by (simp add: insertChild_map walk_map ty)
qed

text \<open>What is stored in the tree after a registration was there or is the new chain: compare the tree with
  the one that stores whether a chain is one of these with the one that stores \<open>True\<close> throughout.\<close>

theorem addRoute_stores:
  assumes "addRoute n p h = Some (Inr n')"
  shows "set_node n' \<subseteq> insert h (set_node n)"
proof -
  let ?f = "\<lambda>x. x \<in> insert h (set_node n)"
  have "map_node ?f n = map_node (\<lambda>_. True) n" by (rule node.map_cong) simp_all
  then have "addRoute (map_node ?f n) p (?f h) = addRoute (map_node (\<lambda>_. True) n) p ((\<lambda>_. True) h)" by simp
  then have "map_node ?f n' = map_node (\<lambda>_. True) n'"
    using assms addRoute_map [of ?f n p h] addRoute_map [of "\<lambda>_. True" n p h] by simp
  then have "?f ` set_node n' = (\<lambda>_. True) ` set_node n'"
    by (simp only: node.set_map [symmetric])
  then show ?thesis by (auto simp: image_iff)
qed

end
