(* ===== verification/Slices.thy ===== *)
theory Slices
  imports Group TreeMap
begin

text \<open>
  The slices behind \<^verbatim>\<open>Router.middleware\<close> and \<^verbatim>\<open>RouteGroup.middleware\<close>.  \<open>Router\<close> and \<open>Group\<close> take slices for
  values; here they are windows on arrays of a store, \<^verbatim>\<open>append\<close> writes into the array behind a slice
  while its capacity lasts, the set-up calls are written over them, and a route keeps the slice of its
  chain in the tree (\<^verbatim>\<open>router.go\<close>, \<^verbatim>\<open>group.go\<close>).  The
  result is when the two agree, and a set-up on which they do not.  \<open>grow\<close>, the capacity that
  \<^verbatim>\<open>append\<close> gives a new array, is the runtime's and an argument; \<open>z\<close> is the nil function that fills the
  room that is left.
\<close>

section \<open>Slices\<close>

record slice =
  slArray :: nat
  slOff :: nat
  slLen :: nat
  slCap :: nat

record 'h heap =
  hpArrays :: "nat \<Rightarrow> 'h list"
  hpNext :: nat

definition nilSlice :: slice where
  "nilSlice = \<lparr>slArray = 0, slOff = 0, slLen = 0, slCap = 0\<rparr>"

definition elems :: "'h heap \<Rightarrow> slice \<Rightarrow> 'h list" where
  "elems h s = take (slLen s) (drop (slOff s) (hpArrays h (slArray s)))"

definition allocArray :: "'h list \<Rightarrow> 'h heap \<Rightarrow> 'h heap" where
  "allocArray xs h = h\<lparr>hpArrays := (hpArrays h)(hpNext h := xs), hpNext := hpNext h + 1\<rparr>"

text \<open>\<^verbatim>\<open>make([]HandlerFunc, 0, c)\<close>.\<close>

definition makeSlice :: "'h \<Rightarrow> nat \<Rightarrow> 'h heap \<Rightarrow> slice \<times> 'h heap" where
  "makeSlice z c h = (\<lparr>slArray = hpNext h, slOff = 0, slLen = 0, slCap = c\<rparr>, allocArray (replicate c z) h)"

definition writeAt :: "nat \<Rightarrow> 'h list \<Rightarrow> 'h list \<Rightarrow> 'h list" where
  "writeAt i xs ys = take i ys @ xs @ drop (i + length xs) ys"

text \<open>\<^verbatim>\<open>append(s, xs...)\<close>.\<close>

definition appendSlice ::
    "(nat \<Rightarrow> nat \<Rightarrow> nat) \<Rightarrow> 'h \<Rightarrow> slice \<Rightarrow> 'h list \<Rightarrow> 'h heap \<Rightarrow> slice \<times> 'h heap" where
  "appendSlice grow z s xs h =
     (let n = slLen s + length xs
      in if n \<le> slCap s then
           (s\<lparr>slLen := n\<rparr>,
            h\<lparr>hpArrays := (hpArrays h)(slArray s := writeAt (slOff s + slLen s) xs (hpArrays h (slArray s)))\<rparr>)
         else
           (\<lparr>slArray = hpNext h, slOff = 0, slLen = n, slCap = grow (slCap s) n\<rparr>,
            allocArray (elems h s @ xs @ replicate (grow (slCap s) n - n) z) h))"

text \<open>The arguments of a variadic call: a list of values, for which the compiler makes an array of that
  size, or a slice of the caller with three dots, which is passed as it is.\<close>

datatype 'h variadic = Listed "'h list" | Spread slice

definition passArgs :: "'h variadic \<Rightarrow> 'h heap \<Rightarrow> slice \<times> 'h heap" where
  "passArgs a h =
     (case a of
        Listed xs \<Rightarrow>
          if xs = [] then (nilSlice, h)
          else (\<lparr>slArray = hpNext h, slOff = 0, slLen = length xs, slCap = length xs\<rparr>, allocArray xs h)
      | Spread s \<Rightarrow> (s, h))"

section \<open>Set-up over slices\<close>

text \<open>The router's middleware is a slice and its trees store slices; the fields of \<open>shRouter\<close> for these two
  are not used.  A group is a prefix and a slice.\<close>

record shared =
  shHeap :: "handler heap"
  shRouter :: router
  shMiddleware :: slice
  shTrees :: "(string \<times> slice node) list"
  shGroups :: "(string \<times> slice) list"

text \<open>A chain of the two slices in a new array: \<^verbatim>\<open>compose\<close>, and the same lines of \<^verbatim>\<open>RouteGroup.Handle\<close> and
  \<^verbatim>\<open>RouteGroup.Group\<close>.\<close>

definition sl_join ::
    "(nat \<Rightarrow> nat \<Rightarrow> nat) \<Rightarrow> 'h \<Rightarrow> slice \<Rightarrow> slice \<Rightarrow> 'h heap \<Rightarrow> slice \<times> 'h heap" where
  "sl_join grow z a b h =
     (case makeSlice z (slLen a + slLen b) h of
        (c, h1) \<Rightarrow>
          (case appendSlice grow z c (elems h1 a) h1 of
             (c1, h2) \<Rightarrow> appendSlice grow z c1 (elems h2 b) h2))"

definition sl_Use :: "(nat \<Rightarrow> nat \<Rightarrow> nat) \<Rightarrow> handler \<Rightarrow> handler variadic \<Rightarrow> shared \<Rightarrow> shared" where
  "sl_Use grow z a st =
     (case passArgs a (shHeap st) of
        (m, h1) \<Rightarrow>
          (case appendSlice grow z (shMiddleware st) (elems h1 m) h1 of
             (s, h2) \<Rightarrow> st\<lparr>shHeap := h2, shMiddleware := s\<rparr>))"

definition sl_Handle ::
    "(nat \<Rightarrow> nat \<Rightarrow> nat) \<Rightarrow> handler \<Rightarrow> string \<Rightarrow> string \<Rightarrow> handler variadic \<Rightarrow> shared \<Rightarrow> (gopanic + shared) option" where
  "sl_Handle grow z method path a st =
     (case passArgs a (shHeap st) of
        (hs, h1) \<Rightarrow>
          if method = [] then Some (Inl (PanicMsg ''goxpress: HTTP method must not be empty''))
          else if path = [] \<or> path ! 0 \<noteq> CHR ''/'' then
            Some (Inl (PanicMsg (''goxpress: path must begin with '' @ quoted ''/'' @ '', got '' @ quoted path)))
          else if slLen hs = 0 then
            Some (Inl (PanicMsg (''goxpress: at least one handler is required for '' @ quoted path)))
          else
            let r = shRouter st; root = (case map_of (shTrees st) method of None \<Rightarrow> emptyNode | Some n \<Rightarrow> n)
            in case sl_join grow z (shMiddleware st) hs h1 of
                 (chain, h2) \<Rightarrow>
                   (case addRoute root path chain of
                      None \<Rightarrow> None
                    | Some (Inl e) \<Rightarrow> Some (Inl e)
                    | Some (Inr root') \<Rightarrow>
                        Some (Inr (st\<lparr>shHeap := h2, shTrees := AList.update method root' (shTrees st), shRouter :=
                          r\<lparr>rtMaxParams := (if rtMaxParams r < countParams path then countParams path else rtMaxParams r),
                            rtRoutes := rtRoutes r @ [newRoute method path]\<rparr>\<rparr>))))"

definition sl_Group :: "string \<Rightarrow> handler variadic \<Rightarrow> shared \<Rightarrow> gopanic + shared" where
  "sl_Group prefix a st =
     (if prefix = [] \<or> prefix ! 0 \<noteq> CHR ''/'' then Inl (badGroupPrefix prefix)
      else case passArgs a (shHeap st) of
             (m, h1) \<Rightarrow>
               Inr (st\<lparr>shHeap := h1, shGroups := shGroups st @ [(trimSuffix prefix (CHR ''/''), m)]\<rparr>))"

definition sl_SubGroup ::
    "(nat \<Rightarrow> nat \<Rightarrow> nat) \<Rightarrow> handler \<Rightarrow> nat \<Rightarrow> string \<Rightarrow> handler variadic \<Rightarrow> shared \<Rightarrow> gopanic + shared" where
  "sl_SubGroup grow z i prefix a st =
     (if prefix = [] \<or> prefix ! 0 \<noteq> CHR ''/'' then Inl (badGroupPrefix prefix)
      else case passArgs a (shHeap st) of
             (m, h1) \<Rightarrow>
               (case sl_join grow z (snd (shGroups st ! i)) m h1 of
                  (mw, h2) \<Rightarrow>
                    Inr (st\<lparr>shHeap := h2,
                           shGroups := shGroups st @ [(fst (shGroups st ! i) @ trimSuffix prefix (CHR ''/''), mw)]\<rparr>)))"

definition sl_GroupUse ::
    "(nat \<Rightarrow> nat \<Rightarrow> nat) \<Rightarrow> handler \<Rightarrow> nat \<Rightarrow> handler variadic \<Rightarrow> shared \<Rightarrow> shared" where
  "sl_GroupUse grow z i a st =
     (case passArgs a (shHeap st) of
        (m, h1) \<Rightarrow>
          (case appendSlice grow z (snd (shGroups st ! i)) (elems h1 m) h1 of
             (s, h2) \<Rightarrow> st\<lparr>shHeap := h2, shGroups := (shGroups st)[i := (fst (shGroups st ! i), s)]\<rparr>))"

definition sl_GroupHandle ::
    "(nat \<Rightarrow> nat \<Rightarrow> nat) \<Rightarrow> handler \<Rightarrow> nat \<Rightarrow> string \<Rightarrow> string \<Rightarrow> handler variadic \<Rightarrow> shared \<Rightarrow>
     (gopanic + shared) option" where
  "sl_GroupHandle grow z i method path a st =
     (case passArgs a (shHeap st) of
        (hs, h1) \<Rightarrow>
          (case sl_join grow z (snd (shGroups st ! i)) hs h1 of
             (chain, h2) \<Rightarrow>
               sl_Handle grow z method (joinPaths (fst (shGroups st ! i)) path) (Spread chain) (st\<lparr>shHeap := h2\<rparr>)))"

text \<open>The set-up calls of a program, over groups numbered in the order of their making.  A method of a
  group that was never made is a call on a nil pointer.\<close>

datatype 'a groupCall =
    CUse 'a
  | CHandle string string 'a
  | CGroup string 'a
  | CSubGroup nat string 'a
  | CGroupUse nat 'a
  | CGroupHandle nat string string 'a

definition nilPointer :: gopanic where
  "nilPointer = PanicMsg ''invalid memory address or nil pointer dereference''"

fun sharedCall ::
    "(nat \<Rightarrow> nat \<Rightarrow> nat) \<Rightarrow> handler \<Rightarrow> handler variadic groupCall \<Rightarrow> shared \<Rightarrow> (gopanic + shared) option" where
  "sharedCall grow z (CUse a) st = Some (Inr (sl_Use grow z a st))"
| "sharedCall grow z (CHandle m p a) st = sl_Handle grow z m p a st"
| "sharedCall grow z (CGroup p a) st = Some (sl_Group p a st)"
| "sharedCall grow z (CSubGroup i p a) st =
     Some (if i < length (shGroups st) then sl_SubGroup grow z i p a st else Inl nilPointer)"
| "sharedCall grow z (CGroupUse i a) st =
     Some (if i < length (shGroups st) then Inr (sl_GroupUse grow z i a st) else Inl nilPointer)"
| "sharedCall grow z (CGroupHandle i m p a) st =
     (if i < length (shGroups st) then sl_GroupHandle grow z i m p a st else Some (Inl nilPointer))"

text \<open>The same calls over values, by the operations of \<open>Router\<close> and \<open>Group\<close>.\<close>

fun valueCall :: "handler list groupCall \<Rightarrow> router \<times> group list \<Rightarrow> (gopanic + router \<times> group list) option" where
  "valueCall (CUse hs) (r, gs) = Some (Inr (Use hs r, gs))"
| "valueCall (CHandle m p hs) (r, gs) = map_option (map_sum id (\<lambda>r'. (r', gs))) (Handle m p hs r)"
| "valueCall (CGroup p hs) (r, gs) = Some (map_sum id (\<lambda>g. (r, gs @ [g])) (Router_Group p hs))"
| "valueCall (CSubGroup i p hs) (r, gs) =
     Some (if i < length gs then map_sum id (\<lambda>g. (r, gs @ [g])) (Group_Group (gs ! i) p hs) else Inl nilPointer)"
| "valueCall (CGroupUse i hs) (r, gs) =
     Some (if i < length gs then Inr (r, gs[i := Group_Use hs (gs ! i)]) else Inl nilPointer)"
| "valueCall (CGroupHandle i m p hs) (r, gs) =
     (if i < length gs then map_option (map_sum id (\<lambda>r'. (r', gs))) (Group_Handle (gs ! i) m p hs r)
      else Some (Inl nilPointer))"

fun runCalls :: "('a \<Rightarrow> 's \<Rightarrow> (gopanic + 's) option) \<Rightarrow> 'a list \<Rightarrow> 's \<Rightarrow> (gopanic + 's) option" where
  "runCalls step [] s = Some (Inr s)"
| "runCalls step (c # cs) s =
     (case step c s of
        None \<Rightarrow> None
      | Some (Inl e) \<Rightarrow> Some (Inl e)
      | Some (Inr s') \<Rightarrow> runCalls step cs s')"

section \<open>What a slice operation touches\<close>

definition validSlice :: "'h heap \<Rightarrow> slice \<Rightarrow> bool" where
  "validSlice h s \<longleftrightarrow>
     slLen s \<le> slCap s \<and>
     (slCap s \<noteq> 0 \<longrightarrow> slArray s < hpNext h \<and> slOff s + slCap s \<le> length (hpArrays h (slArray s)))"

definition foot :: "slice \<Rightarrow> nat set" where
  "foot s = (if slCap s = 0 then {} else {slArray s})"

text \<open>The array that an append may write.\<close>

definition owns :: "slice \<Rightarrow> nat set" where
  "owns s = (if slLen s < slCap s then {slArray s} else {})"

text \<open>From \<open>h\<close> to \<open>h'\<close> only arrays in \<open>A\<close> and new ones change.\<close>

definition frame :: "nat set \<Rightarrow> 'h heap \<Rightarrow> 'h heap \<Rightarrow> bool" where
  "frame A h h' \<longleftrightarrow> hpNext h \<le> hpNext h' \<and> (\<forall>a < hpNext h. a \<notin> A \<longrightarrow> hpArrays h' a = hpArrays h a)"

definition newArrays :: "'h heap \<Rightarrow> 'h heap \<Rightarrow> nat set" where
  "newArrays h h' = {hpNext h ..< hpNext h'}"

definition grows :: "(nat \<Rightarrow> nat \<Rightarrow> nat) \<Rightarrow> bool" where
  "grows grow \<longleftrightarrow> (\<forall>c n. n \<le> grow c n)"

lemma owns_foot: "owns s \<subseteq> foot s"
  by (auto simp: owns_def foot_def)

lemma foot_valid: "validSlice h s \<Longrightarrow> a \<in> foot s \<Longrightarrow> a < hpNext h"
  by (auto simp: validSlice_def foot_def split: if_splits)

lemma frame_refl [simp]: "frame A h h"
  by (simp add: frame_def)

lemma frame_trans: "frame A h h1 \<Longrightarrow> frame B h1 h2 \<Longrightarrow> B \<inter> {..<hpNext h} \<subseteq> A \<Longrightarrow> frame A h h2"
  unfolding frame_def by (metis Int_iff lessThan_iff order.strict_trans2 order_trans subsetD)

lemma frame_mono: "frame A h h' \<Longrightarrow> A \<subseteq> B \<Longrightarrow> frame B h h'"
  by (auto simp: frame_def)

lemma frame_slice:
  assumes "frame A h h'" "validSlice h s" "foot s \<inter> A = {}"
  shows "elems h' s = elems h s" "validSlice h' s"
proof -
  have "slCap s \<noteq> 0 \<longrightarrow> hpArrays h' (slArray s) = hpArrays h (slArray s)"
    using assms by (auto simp: frame_def validSlice_def foot_def)
  then show "elems h' s = elems h s" "validSlice h' s"
    using assms by (auto simp: elems_def validSlice_def frame_def)
qed

lemma frame_alloc: "frame {} h (allocArray xs h)"
  by (simp add: frame_def allocArray_def)

text \<open>What an operation that makes or extends a slice does: the new slice holds \<open>xs\<close>, and the memory it
  uses is the old slice's or new.\<close>

definition yields :: "'h heap \<Rightarrow> slice \<Rightarrow> 'h list \<Rightarrow> slice \<times> 'h heap \<Rightarrow> bool" where
  "yields h s xs r \<longleftrightarrow>
     (case r of (s', h') \<Rightarrow>
        validSlice h' s' \<and> elems h' s' = xs \<and> slLen s' = length xs \<and> frame (owns s) h h' \<and>
        owns s' \<subseteq> owns s \<union> newArrays h h' \<and> foot s' \<subseteq> foot s \<union> newArrays h h')"

lemma length_elems: "validSlice h s \<Longrightarrow> length (elems h s) = slLen s"
  by (cases "slCap s = 0") (auto simp: validSlice_def elems_def)

lemma writeAt_window:
  assumes "i + k + length xs \<le> length ys"
  shows "take (k + length xs) (drop i (writeAt (i + k) xs ys)) = take k (drop i ys) @ xs"
    "length (writeAt (i + k) xs ys) = length ys"
  using assms by (simp_all add: writeAt_def drop_take)

lemma appendSlice_yields:
  assumes "grows grow" "validSlice h s"
  shows "yields h s (elems h s @ xs) (appendSlice grow z s xs h)"
proof (cases "slLen s + length xs \<le> slCap s")
  case True
  show ?thesis
  proof (cases "xs = []")
    case True
    then have "appendSlice grow z s xs h = (s, h)"
      using assms(2) by (simp add: appendSlice_def writeAt_def validSlice_def fun_upd_idem)
    then show ?thesis using True assms(2) length_elems [OF assms(2)] by (simp add: yields_def)
  next
    case False
    then have "0 < length xs" by simp
    with True have "slLen s < slCap s" by linarith
    then have o: "owns s = {slArray s}" "slCap s \<noteq> 0" by (simp_all add: owns_def)
    let ?ys = "hpArrays h (slArray s)"
    have "slOff s + slLen s + length xs \<le> length ?ys"
      using assms(2) True o(2) by (auto simp: validSlice_def)
    note W = writeAt_window [OF this]
    let ?s = "s\<lparr>slLen := slLen s + length xs\<rparr>"
    let ?h = "h\<lparr>hpArrays := (hpArrays h)(slArray s := writeAt (slOff s + slLen s) xs ?ys)\<rparr>"
    have "appendSlice grow z s xs h = (?s, ?h)" using True by (simp add: appendSlice_def Let_def)
    moreover have "validSlice ?h ?s" using assms(2) True W(2) by (simp add: validSlice_def)
    moreover have "elems ?h ?s = elems h s @ xs" using W(1) by (simp add: elems_def)
    moreover have "frame (owns s) h ?h" by (simp add: frame_def o(1))
    moreover have "owns ?s \<subseteq> owns s" "foot ?s = foot s" using o by (auto simp: owns_def foot_def)
    ultimately show ?thesis using length_elems [OF assms(2)] by (auto simp: yields_def)
  qed
next
  case False
  let ?n = "slLen s + length xs"
  have n: "?n \<le> grow (slCap s) ?n" using assms(1) by (simp add: grows_def)
  have "0 < ?n" using False by linarith
  then show ?thesis
    using False n length_elems [OF assms(2)]
    by (auto simp: yields_def appendSlice_def Let_def validSlice_def elems_def frame_def foot_def owns_def
        newArrays_def allocArray_def)
qed

lemma newArrays_trans:
  "frame A h h1 \<Longrightarrow> frame B h1 h2 \<Longrightarrow> newArrays h h1 \<union> newArrays h1 h2 \<subseteq> newArrays h h2"
  by (auto simp: newArrays_def frame_def)

lemma makeSlice_new:
  assumes "makeSlice z c h = (s, h')"
  shows "validSlice h' s" "elems h' s = []" "slLen s = 0" "frame {} h h'" "foot s \<subseteq> newArrays h h'"
  using assms by (auto simp: makeSlice_def validSlice_def elems_def foot_def newArrays_def allocArray_def frame_def)

lemma sl_join_new:
  assumes g: "grows grow" and v: "validSlice h a" "validSlice h b" and j: "sl_join grow z a b h = (c, h')"
  shows "validSlice h' c" "elems h' c = elems h a @ elems h b" "frame {} h h'" "foot c \<subseteq> newArrays h h'"
proof -
  obtain c0 h1 where m: "makeSlice z (slLen a + slLen b) h = (c0, h1)" by force
  obtain c1 h2 where a1: "appendSlice grow z c0 (elems h1 a) h1 = (c1, h2)" by force
  have a2: "appendSlice grow z c1 (elems h2 b) h2 = (c, h')" using j m a1 by (simp add: sl_join_def)
  note M = makeSlice_new [OF m]
  have y1: "yields h1 c0 (elems h1 a) (c1, h2)"
    using appendSlice_yields [OF g M(1), of "elems h1 a" z] M(2) a1 by simp
  then have Y: "validSlice h2 c1" "elems h2 c1 = elems h1 a" "frame (owns c0) h1 h2"
    "foot c1 \<subseteq> foot c0 \<union> newArrays h1 h2" by (auto simp: yields_def)
  have f1: "foot c1 \<subseteq> newArrays h h2" using M(5) Y(4) newArrays_trans [OF M(4) Y(3)] by blast
  note v1 = Y(1-3) f1
  have y2: "yields h2 c1 (elems h2 c1 @ elems h2 b) (c, h')"
    using appendSlice_yields [OF g v1(1), of "elems h2 b" z] a2 by simp
  have o: "owns c0 \<inter> {..<hpNext h} \<subseteq> {}" "owns c1 \<inter> {..<hpNext h} \<subseteq> {}"
    using M(5) v1(4) owns_foot [of c0] owns_foot [of c1] by (auto simp: newArrays_def)
  have f2: "frame {} h h2" using frame_trans [OF M(4) v1(3)] o(1) by simp
  have f3: "frame (owns c1) h2 h'" using y2 by (simp add: yields_def)
  show "frame {} h h'" using frame_trans [OF f2 f3] o(2) by simp
  have "elems h1 a = elems h a" "elems h2 b = elems h b"
    using frame_slice [OF M(4) v(1)] frame_slice [OF f2 v(2)] by simp_all
  then show "validSlice h' c" "elems h' c = elems h a @ elems h b" using y2 v1(2) by (simp_all add: yields_def)
  have "foot c \<subseteq> foot c1 \<union> newArrays h2 h'" using y2 by (simp add: yields_def)
  then show "foot c \<subseteq> newArrays h h'"
    using v1(4) newArrays_trans [OF f2 f3] by blast
qed

section \<open>Slices that share nothing\<close>

text \<open>The caller's arrays are those of \<open>h0\<close>, where the set-up starts.\<close>

definition argOK :: "'h heap \<Rightarrow> 'h variadic \<Rightarrow> bool" where
  "argOK h0 a = (case a of Listed xs \<Rightarrow> True | Spread s \<Rightarrow> validSlice h0 s)"

definition argValues :: "'h heap \<Rightarrow> 'h variadic \<Rightarrow> 'h list" where
  "argValues h0 a = (case a of Listed xs \<Rightarrow> xs | Spread s \<Rightarrow> elems h0 s)"

text \<open>A slice without room behind its elements.\<close>

definition fullArg :: "'h variadic \<Rightarrow> bool" where
  "fullArg a = (case a of Listed xs \<Rightarrow> True | Spread s \<Rightarrow> slLen s = slCap s)"

lemma passArgs_ok:
  assumes "argOK h0 a" "frame {} h0 h" "passArgs a h = (m, h1)"
  shows "validSlice h1 m" "elems h1 m = argValues h0 a" "slLen m = length (argValues h0 a)" "frame {} h h1"
    "foot m \<subseteq> {..<hpNext h0} \<union> newArrays h h1" "fullArg a \<Longrightarrow> owns m = {}"
proof -
  show "elems h1 m = argValues h0 a" "validSlice h1 m" "frame {} h h1"
    using assms frame_slice [OF assms(2)]
    by (auto simp: passArgs_def argOK_def argValues_def nilSlice_def elems_def validSlice_def frame_def allocArray_def
        split: variadic.splits if_splits)
  then show "slLen m = length (argValues h0 a)" using length_elems by metis
  show "foot m \<subseteq> {..<hpNext h0} \<union> newArrays h h1"
    using assms(1,3) foot_valid
    by (auto simp: passArgs_def argOK_def nilSlice_def foot_def newArrays_def allocArray_def validSlice_def
        split: variadic.splits if_splits)
  show "owns m = {}" if "fullArg a"
    using assms(3) that
    by (auto simp: passArgs_def fullArg_def nilSlice_def owns_def split: variadic.splits if_splits)
qed

definition separate :: "'h heap \<Rightarrow> 'h heap \<Rightarrow> slice list \<Rightarrow> bool" where
  "separate h0 h ss \<longleftrightarrow>
     frame {} h0 h \<and> (\<forall>s\<in>set ss. validSlice h s \<and> owns s \<inter> {..<hpNext h0} = {}) \<and>
     (\<forall>i<length ss. \<forall>j<length ss. i \<noteq> j \<longrightarrow> owns (ss ! i) \<inter> foot (ss ! j) = {})"

lemma separate_frame:
  assumes "separate h0 h ss" "frame {} h h'"
  shows "separate h0 h' ss" "map (elems h') ss = map (elems h) ss"
  using assms frame_slice [OF assms(2)] frame_trans [OF _ assms(2), of "{}" h0]
  by (auto simp: separate_def)

lemma separate_update:
  assumes sep: "separate h0 h ss" and i: "i < length ss" and y: "yields h (ss ! i) xs (s', h')"
  shows "separate h0 h' (ss[i := s'])" "map (elems h') (ss[i := s']) = (map (elems h) ss)[i := xs]"
proof -
  have Y: "validSlice h' s'" "elems h' s' = xs" "frame (owns (ss ! i)) h h'"
    "owns s' \<subseteq> owns (ss ! i) \<union> newArrays h h'" "foot s' \<subseteq> foot (ss ! i) \<union> newArrays h h'"
    using y by (auto simp: yields_def)
  have v: "validSlice h (ss ! j)" "owns (ss ! j) \<inter> {..<hpNext h0} = {}" if "j < length ss" for j
    using sep that by (auto simp: separate_def)
  have dis: "owns (ss ! j) \<inter> foot (ss ! k) = {}" if "j < length ss" "k < length ss" "j \<noteq> k" for j k
    using sep that by (auto simp: separate_def)
  have new: "newArrays h h' \<inter> foot (ss ! j) = {}" if "j < length ss" for j
    using foot_valid [OF v(1) [OF that]] by (fastforce simp: newArrays_def)
  have keep: "elems h' (ss ! j) = elems h (ss ! j)" "validSlice h' (ss ! j)" if "j < length ss" "j \<noteq> i" for j
    using frame_slice [OF Y(3) v(1) [OF that(1)]] dis [OF i that(1)] that(2) by blast+
  have base: "frame {} h0 h" using sep by (simp add: separate_def)
  have "frame {} h0 h'" using frame_trans [OF base Y(3)] v(2) [OF i] by simp
  moreover have "validSlice h' (ss[i := s'] ! j) \<and> owns (ss[i := s'] ! j) \<inter> {..<hpNext h0} = {}" if "j < length ss" for j
  proof (cases "j = i")
    case True
    have "newArrays h h' \<inter> {..<hpNext h0} = {}" using base by (auto simp: newArrays_def frame_def)
    then show ?thesis using True i Y(1,4) v(2) [OF i] by auto
  next
    case False
    then show ?thesis using keep(2) [OF that] v(2) [OF that] by simp
  qed
  moreover have "owns (ss[i := s'] ! j) \<inter> foot (ss[i := s'] ! k) = {}" if "j < length ss" "k < length ss" "j \<noteq> k" for j k
  proof -
    consider "j = i" | "k = i" | "j \<noteq> i" "k \<noteq> i" by blast
    then show ?thesis
    proof cases
      case 1
      then show ?thesis using that i Y(4) dis [of i k] new [of k] by auto
    next
      case 2
      have "owns (ss ! j) \<subseteq> foot (ss ! j)" by (rule owns_foot)
      then show ?thesis using 2 that i Y(5) dis [of j i] new [of j] by auto
    next
      case 3
      then show ?thesis using that dis by simp
    qed
  qed
  ultimately show "separate h0 h' (ss[i := s'])"
    by (auto simp: separate_def all_set_conv_all_nth)
  show "map (elems h') (ss[i := s']) = (map (elems h) ss)[i := xs]"
    by (rule nth_equalityI) (use i Y(2) keep(1) in \<open>auto simp: nth_list_update\<close>)
qed

lemma separate_snoc:
  assumes sep: "separate h0 h ss" and f: "frame {} h h'"
    and m: "validSlice h' m" "foot m \<subseteq> {..<hpNext h0} \<union> newArrays h h'" "owns m \<subseteq> newArrays h h'"
  shows "separate h0 h' (ss @ [m])"
proof -
  have s: "separate h0 h' ss" by (rule separate_frame [OF sep f])
  have base: "frame {} h0 h" using sep by (simp add: separate_def)
  have new: "newArrays h h' \<inter> foot t = {}" if "t \<in> set ss" for t
    using foot_valid [of h t] sep that by (fastforce simp: newArrays_def separate_def)
  have "owns m \<inter> {..<hpNext h0} = {}" using m(3) base by (fastforce simp: newArrays_def frame_def)
  moreover have "owns m \<inter> foot t = {}" if "t \<in> set ss" for t using m(3) new [OF that] by blast
  moreover have "owns t \<inter> foot m = {}" if t: "t \<in> set ss" for t
  proof -
    have "owns t \<inter> {..<hpNext h0} = {}" using sep t by (simp add: separate_def)
    then show ?thesis using m(2) new [OF t] owns_foot [of t] by blast
  qed
  ultimately show ?thesis
    using s m(1) by (auto simp: separate_def nth_append all_set_conv_all_nth less_Suc_eq)
qed

section \<open>Set-up over slices is set-up over values\<close>

definition slicesOf :: "shared \<Rightarrow> slice list" where
  "slicesOf st = shMiddleware st # map snd (shGroups st)"

definition asGroup :: "handler heap \<Rightarrow> string \<times> slice \<Rightarrow> group" where
  "asGroup h g = \<lparr>grPrefix = fst g, grMiddleware = elems h (snd g)\<rparr>"

text \<open>The trees with the values behind their slices.\<close>

definition asTrees :: "'h heap \<Rightarrow> (string \<times> slice node) list \<Rightarrow> (string \<times> 'h list node) list" where
  "asTrees h = map (map_prod id (map_node (elems h)))"

definition absShared :: "shared \<Rightarrow> router \<times> group list" where
  "absShared st =
     ((shRouter st)\<lparr>rtMiddleware := elems (shHeap st) (shMiddleware st), rtTrees := asTrees (shHeap st) (shTrees st)\<rparr>,
      map (asGroup (shHeap st)) (shGroups st))"

definition stored :: "(string \<times> slice node) list \<Rightarrow> slice set" where
  "stored ts = (\<Union>n\<in>snd ` set ts. set_node n)"

text \<open>No slice of the set-up can write behind a stored one.\<close>

definition intact :: "'h heap \<Rightarrow> slice list \<Rightarrow> slice set \<Rightarrow> bool" where
  "intact h ss S \<longleftrightarrow> (\<forall>a\<in>S. validSlice h a \<and> (\<forall>t\<in>set ss. owns t \<inter> foot a = {}))"

definition sharedInv :: "handler heap \<Rightarrow> shared \<Rightarrow> bool" where
  "sharedInv h0 st \<longleftrightarrow>
     separate h0 (shHeap st) (slicesOf st) \<and> intact (shHeap st) (slicesOf st) (stored (shTrees st))"

definition callFits :: "handler heap \<Rightarrow> handler variadic groupCall \<Rightarrow> bool" where
  "callFits h0 c \<longleftrightarrow>
     (case c of
        CUse a \<Rightarrow> argOK h0 a
      | CHandle m p a \<Rightarrow> argOK h0 a
      | CGroup p a \<Rightarrow> argOK h0 a \<and> fullArg a
      | CSubGroup i p a \<Rightarrow> argOK h0 a
      | CGroupUse i a \<Rightarrow> argOK h0 a
      | CGroupHandle i m p a \<Rightarrow> argOK h0 a)"

text \<open>A step of the set-up over slices and the one over values agree and keep the invariant.\<close>

definition agreeStep ::
    "handler heap \<Rightarrow> (gopanic + shared) option \<Rightarrow> (gopanic + router \<times> group list) option \<Rightarrow> bool" where
  "agreeStep h0 x y \<longleftrightarrow>
     map_option (map_sum id absShared) x = y \<and> (\<forall>st'. x = Some (Inr st') \<longrightarrow> sharedInv h0 st')"

lemma separate_valid: "separate h0 h ss \<Longrightarrow> s \<in> set ss \<Longrightarrow> validSlice h s"
  by (simp add: separate_def)

lemma asGroup_cong: "map (elems h') (map snd gs) = map (elems h) (map snd gs) \<Longrightarrow> map (asGroup h') gs = map (asGroup h) gs"
  by (auto simp: asGroup_def)

lemma asTrees_cong: "(\<And>a. a \<in> stored ts \<Longrightarrow> elems h' a = elems h a) \<Longrightarrow> asTrees h' ts = asTrees h ts"
  by (fastforce simp: asTrees_def stored_def intro!: node.map_cong)

text \<open>A step that writes only where the slices may write leaves what the trees store.\<close>

lemma intact_step:
  assumes i: "intact h ss (stored ts)" and f: "frame A h h'" and A: "A \<subseteq> \<Union> (owns ` set ss)"
    and ss': "\<And>t. t \<in> set ss' \<Longrightarrow> owns t \<subseteq> \<Union> (owns ` set ss) \<union> newArrays h h'"
  shows "intact h' ss' (stored ts)" "asTrees h' ts = asTrees h ts"
proof -
  have a: "validSlice h' a" "elems h' a = elems h a" "foot a \<inter> newArrays h h' = {}" if "a \<in> stored ts" for a
  proof -
    have v: "validSlice h a" "\<And>t. t \<in> set ss \<Longrightarrow> owns t \<inter> foot a = {}" using i that by (simp_all add: intact_def)
    then have "foot a \<inter> A = {}" using A by blast
    note v = v(1) this
    show "validSlice h' a" "elems h' a = elems h a" using frame_slice [OF f v] by simp_all
    show "foot a \<inter> newArrays h h' = {}" using foot_valid [OF v(1)] by (fastforce simp: newArrays_def)
  qed
  show "asTrees h' ts = asTrees h ts" by (rule asTrees_cong) (rule a(2))
  have "owns t \<inter> foot a = {}" if "a \<in> stored ts" "t \<in> set ss'" for a t
    using i that(1) a(3) [OF that(1)] ss' [OF that(2)] by (fastforce simp: intact_def)
  then show "intact h' ss' (stored ts)" using a(1) by (simp add: intact_def)
qed

text \<open>Arguments and new arrays leave what there is alone.\<close>

lemma inv_frame:
  assumes "sharedInv h0 st" "frame {} (shHeap st) h'"
  shows "sharedInv h0 (st\<lparr>shHeap := h'\<rparr>)" "absShared (st\<lparr>shHeap := h'\<rparr>) = absShared st"
    "elems h' (shMiddleware st) = elems (shHeap st) (shMiddleware st)"
    "i < length (shGroups st) \<Longrightarrow> elems h' (snd (shGroups st ! i)) = elems (shHeap st) (snd (shGroups st ! i))"
proof -
  have inv: "separate h0 (shHeap st) (slicesOf st)" "intact (shHeap st) (slicesOf st) (stored (shTrees st))"
    using assms(1) by (simp_all add: sharedInv_def)
  note S = separate_frame [OF inv(1) assms(2)]
  note I = intact_step [OF inv(2) assms(2), of "slicesOf st"]
  have "intact h' (slicesOf st) (stored (shTrees st))" by (rule I(1)) auto
  moreover have "slicesOf (st\<lparr>shHeap := h'\<rparr>) = slicesOf st" by (simp add: slicesOf_def)
  ultimately show "sharedInv h0 (st\<lparr>shHeap := h'\<rparr>)" using S(1) by (simp add: sharedInv_def)
  show mw: "elems h' (shMiddleware st) = elems (shHeap st) (shMiddleware st)" using S(2) by (simp add: slicesOf_def)
  have gs: "map (elems h') (map snd (shGroups st)) = map (elems (shHeap st)) (map snd (shGroups st))"
    using S(2) by (simp add: slicesOf_def)
  have "asTrees h' (shTrees st) = asTrees (shHeap st) (shTrees st)" by (rule I(2)) auto
  then show "absShared (st\<lparr>shHeap := h'\<rparr>) = absShared st"
    using mw asGroup_cong [OF gs] by (simp add: absShared_def)
  show "elems h' (snd (shGroups st ! i)) = elems (shHeap st) (snd (shGroups st ! i))" if "i < length (shGroups st)"
    using arg_cong [OF gs, of "\<lambda>xs. xs ! i"] that by simp
qed

lemma inv_valid:
  "sharedInv h0 st \<Longrightarrow> validSlice (shHeap st) (shMiddleware st)"
  "sharedInv h0 st \<Longrightarrow> i < length (shGroups st) \<Longrightarrow> validSlice (shHeap st) (snd (shGroups st ! i))"
  by (auto simp: sharedInv_def slicesOf_def intro!: separate_valid)

lemma inv_base: "sharedInv h0 st \<Longrightarrow> frame {} h0 (shHeap st)"
  by (simp add: sharedInv_def separate_def)

lemma inv_args:
  assumes inv: "sharedInv h0 st" and a: "argOK h0 a" and p: "passArgs a (shHeap st) = (m, h1)"
  shows "validSlice h1 m" "elems h1 m = argValues h0 a" "slLen m = length (argValues h0 a)"
    "sharedInv h0 (st\<lparr>shHeap := h1\<rparr>)" "absShared (st\<lparr>shHeap := h1\<rparr>) = absShared st"
proof -
  note P = passArgs_ok [OF a inv_base [OF inv] p]
  show "validSlice h1 m" "elems h1 m = argValues h0 a" "slLen m = length (argValues h0 a)" by (rule P(1-3))+
  show "sharedInv h0 (st\<lparr>shHeap := h1\<rparr>)" "absShared (st\<lparr>shHeap := h1\<rparr>) = absShared st"
    by (rule inv_frame [OF inv P(4)])+
qed

text \<open>A slice is replaced by one that extends it.\<close>

lemma inv_extend:
  assumes inv: "sharedInv h0 st" and i: "i < length (slicesOf st)" and y: "yields (shHeap st) (slicesOf st ! i) xs (s', h')"
    and st': "shHeap st' = h'" "slicesOf st' = (slicesOf st)[i := s']" "shTrees st' = shTrees st"
  shows "sharedInv h0 st'" "map (elems h') (slicesOf st') = (map (elems (shHeap st)) (slicesOf st))[i := xs]"
    "asTrees h' (shTrees st) = asTrees (shHeap st) (shTrees st)"
proof -
  have S: "separate h0 (shHeap st) (slicesOf st)" "intact (shHeap st) (slicesOf st) (stored (shTrees st))"
    using inv by (simp_all add: sharedInv_def)
  note U = separate_update [OF S(1) i y]
  have y': "frame (owns (slicesOf st ! i)) (shHeap st) h'" "owns s' \<subseteq> owns (slicesOf st ! i) \<union> newArrays (shHeap st) h'"
    using y by (simp_all add: yields_def)
  have o: "owns (slicesOf st ! i) \<subseteq> \<Union> (owns ` set (slicesOf st))" using i by (auto intro: nth_mem)
  have "owns t \<subseteq> \<Union> (owns ` set (slicesOf st)) \<union> newArrays (shHeap st) h'" if "t \<in> set ((slicesOf st)[i := s'])" for t
    using set_update_subset_insert [of "slicesOf st" i s'] that y'(2) o by blast
  note I = intact_step [OF S(2) y'(1) o this]
  show "sharedInv h0 st'" using U(1) I(1) st' by (simp add: sharedInv_def)
  show "asTrees h' (shTrees st) = asTrees (shHeap st) (shTrees st)" by (rule I(2))
  show "map (elems h') (slicesOf st') = (map (elems (shHeap st)) (slicesOf st))[i := xs]"
    using U(2) st' by simp
qed

text \<open>A new slice.\<close>

lemma inv_snoc:
  assumes inv: "sharedInv h0 st" and f: "frame {} (shHeap st) h'"
    and m: "validSlice h' m" "foot m \<subseteq> {..<hpNext h0} \<union> newArrays (shHeap st) h'" "owns m \<subseteq> newArrays (shHeap st) h'"
  shows "sharedInv h0 (st\<lparr>shHeap := h', shGroups := shGroups st @ [(q, m)]\<rparr>)"
    "absShared (st\<lparr>shHeap := h', shGroups := shGroups st @ [(q, m)]\<rparr>) =
       (fst (absShared st), snd (absShared st) @ [\<lparr>grPrefix = q, grMiddleware = elems h' m\<rparr>])"
proof -
  let ?st = "st\<lparr>shHeap := h', shGroups := shGroups st @ [(q, m)]\<rparr>"
  have S: "separate h0 (shHeap st) (slicesOf st)" "intact (shHeap st) (slicesOf st) (stored (shTrees st))"
    using inv by (simp_all add: sharedInv_def)
  have ss: "slicesOf ?st = slicesOf st @ [m]" by (simp add: slicesOf_def)
  have "intact h' (slicesOf st @ [m]) (stored (shTrees st))"
    by (rule intact_step(1) [OF S(2) f]) (use m(3) in auto)
  then show "sharedInv h0 ?st" using separate_snoc [OF S(1) f m] by (simp add: sharedInv_def ss)
  show "absShared ?st = (fst (absShared st), snd (absShared st) @ [\<lparr>grPrefix = q, grMiddleware = elems h' m\<rparr>])"
    using inv_frame(2) [OF inv f] by (simp add: absShared_def asGroup_def)
qed

text \<open>A chain in arrays of its own is stored.\<close>

lemma stored_update: "stored (AList.update k n ts) \<subseteq> stored ts \<union> set_node n"
  by (induction ts) (auto simp: stored_def)

lemma asTrees_update: "asTrees h (AList.update k n ts) = AList.update k (map_node (elems h) n) (asTrees h ts)"
  by (induction ts) (auto simp: asTrees_def)

lemma asTrees_lookup: "map_of (asTrees h ts) k = map_option (map_node (elems h)) (map_of ts k)"
  by (induction ts) (auto simp: asTrees_def)

lemma stored_lookup: "map_of ts k = Some n \<Longrightarrow> set_node n \<subseteq> stored ts"
  by (force simp: stored_def dest: map_of_SomeD)

lemma emptyNode_stores [simp]: "set_node emptyNode = {}"
  by (simp add: emptyNode_def)

lemma intact_store:
  assumes "intact h ss S" "validSlice h c" "\<And>t. t \<in> set ss \<Longrightarrow> owns t \<inter> foot c = {}" "S' \<subseteq> insert c S"
  shows "intact h ss S'"
  using assms by (auto simp: intact_def)

lemma sl_Use_agrees:
  assumes g: "grows grow" and inv: "sharedInv h0 st" and a: "argOK h0 a"
  shows "agreeStep h0 (Some (Inr (sl_Use grow z a st))) (valueCall (CUse (argValues h0 a)) (absShared st))"
proof -
  obtain m h1 where p: "passArgs a (shHeap st) = (m, h1)" by force
  note P = inv_args [OF inv a p]
  obtain s h2 where ap: "appendSlice grow z (shMiddleware st) (elems h1 m) h1 = (s, h2)" by force
  let ?st1 = "st\<lparr>shHeap := h1\<rparr>" and ?st2 = "st\<lparr>shHeap := h2, shMiddleware := s\<rparr>"
  have "validSlice h1 (shMiddleware st)" using inv_valid(1) [OF P(4)] by simp
  from appendSlice_yields [OF g this, of "elems h1 m" z]
  have y: "yields (shHeap ?st1) (slicesOf ?st1 ! 0) (elems h1 (shMiddleware st) @ elems h1 m) (s, h2)"
    using ap by (simp add: slicesOf_def)
  note U = inv_extend [OF P(4) _ y, of ?st2]
  have inv2: "sharedInv h0 ?st2" by (rule U(1)) (simp_all add: slicesOf_def)
  have "map (elems h2) (slicesOf ?st2) = (map (elems h1) (slicesOf ?st1))[0 := elems h1 (shMiddleware st) @ elems h1 m]"
    using U(2) by (simp add: slicesOf_def)
  then have e: "elems h2 s = elems h1 (shMiddleware st) @ argValues h0 a"
    "map (elems h2) (map snd (shGroups st)) = map (elems h1) (map snd (shGroups st))"
    using P(2) by (simp_all add: slicesOf_def)
  have "asTrees h2 (shTrees st) = asTrees h1 (shTrees st)" using U(3) by (simp add: slicesOf_def)
  then have "absShared ?st2 = (Use (argValues h0 a) (fst (absShared ?st1)), snd (absShared ?st1))"
    using e(1) asGroup_cong [OF e(2)] by (simp add: absShared_def Use_def)
  moreover have "sl_Use grow z a st = ?st2" by (simp add: sl_Use_def p ap)
  ultimately show ?thesis
    using inv2 P(5) by (cases "absShared st") (simp add: agreeStep_def)
qed

lemma sl_Handle_agrees:
  assumes g: "grows grow" and inv: "sharedInv h0 st" and p: "passArgs a (shHeap st) = (hs, h1)"
    and P: "validSlice h1 hs" "elems h1 hs = xs" "slLen hs = length xs" "frame {} (shHeap st) h1"
  shows "agreeStep h0 (sl_Handle grow z m q a st) (valueCall (CHandle m q xs) (absShared st))"
proof -
  let ?st1 = "st\<lparr>shHeap := h1\<rparr>"
  note F = inv_frame [OF inv P(4)]
  obtain c h2 where j: "sl_join grow z (shMiddleware st) hs h1 = (c, h2)" by force
  have v: "validSlice h1 (shMiddleware st)" using inv_valid(1) [OF F(1)] by simp
  note J = sl_join_new [OF g v P(1) j]
  let ?st2 = "st\<lparr>shHeap := h2\<rparr>"
  have "frame {} (shHeap ?st1) h2" using J(3) by simp
  note F2 = inv_frame [OF F(1) this, simplified]
  have abs2: "absShared ?st2 = absShared st" using F2(2) F(2) by simp
  have inv2: "separate h0 h2 (slicesOf st)" "intact h2 (slicesOf st) (stored (shTrees st))"
    using F2(1) by (simp_all add: sharedInv_def slicesOf_def)
  have el: "elems h2 c = elems h2 (shMiddleware st) @ xs" using J(2) P(2) F2(3) by simp
  have "owns t \<inter> foot c = {}" if "t \<in> set (slicesOf st)" for t
  proof -
    have "t \<in> set (slicesOf ?st1)" using that by (simp add: slicesOf_def)
    then have "validSlice h1 t" using F(1) by (auto simp: sharedInv_def dest: separate_valid)
    then show ?thesis using foot_valid [of h1 t] owns_foot [of t] J(4) by (fastforce simp: newArrays_def)
  qed
  note store = intact_store [OF inv2(2) J(1) this]
  define root where "root = (case map_of (shTrees st) m of None \<Rightarrow> emptyNode | Some n \<Rightarrow> n)"
  have "set_node root \<subseteq> stored (shTrees st)"
    using stored_lookup [of "shTrees st" m] by (simp add: root_def split: option.splits)
  then have keep: "intact h2 (slicesOf st) (stored (AList.update m root' (shTrees st)))"
    if "addRoute root q c = Some (Inr root')" for root'
    using store addRoute_stores [OF that] stored_update [of m root' "shTrees st"] by blast
  have root': "(case map_of (asTrees h2 (shTrees st)) m of None \<Rightarrow> emptyNode | Some n \<Rightarrow> n) = map_node (elems h2) root"
    by (simp add: root_def asTrees_lookup map_node_setters split: option.splits)
  have add: "addRoute (map_node (elems h2) root) q (elems h2 (shMiddleware st) @ xs) =
      map_option (map_sum id (map_node (elems h2))) (addRoute root q c)"
    using addRoute_map [of "elems h2" root q c] el by simp
  have same: "valueCall (CHandle m q xs) (absShared st) = valueCall (CHandle m q xs) (absShared ?st2)"
    by (simp only: abs2)
  show ?thesis
    unfolding same
    using inv2(1) keep P(3) p j
    by (auto simp: agreeStep_def sl_Handle_def absShared_def Handle_def compose_def Let_def sharedInv_def
        slicesOf_def root' add asTrees_update root_def [symmetric] split: option.splits sum.splits)
qed

lemma sl_Group_agrees:
  assumes inv: "sharedInv h0 st" and a: "argOK h0 a" "fullArg a"
  shows "agreeStep h0 (Some (sl_Group q a st)) (valueCall (CGroup q (argValues h0 a)) (absShared st))"
proof -
  obtain m h1 where p: "passArgs a (shHeap st) = (m, h1)" by force
  note Q = passArgs_ok [OF a(1) inv_base [OF inv] p]
  have "owns m \<subseteq> newArrays (shHeap st) h1" by (simp add: Q(6) [OF a(2)])
  note S = inv_snoc [OF inv Q(4,1,5) this]
  show ?thesis
    using S Q(2)
    by (cases "absShared st") (simp add: agreeStep_def sl_Group_def p Router_Group_def)
qed

lemma sl_SubGroup_agrees:
  assumes g: "grows grow" and inv: "sharedInv h0 st" and a: "argOK h0 a" and i: "i < length (shGroups st)"
  shows "agreeStep h0 (Some (sl_SubGroup grow z i q a st)) (valueCall (CSubGroup i q (argValues h0 a)) (absShared st))"
proof -
  obtain m h1 where p: "passArgs a (shHeap st) = (m, h1)" by force
  note P = inv_args [OF inv a p]
  let ?s = "snd (shGroups st ! i)" and ?st1 = "st\<lparr>shHeap := h1\<rparr>"
  obtain c h2 where j: "sl_join grow z ?s m h1 = (c, h2)" by force
  have v: "validSlice h1 ?s" using inv_valid(2) [OF P(4)] i by simp
  note J = sl_join_new [OF g v P(1) j]
  have "frame {} (shHeap ?st1) h2" "foot c \<subseteq> {..<hpNext h0} \<union> newArrays (shHeap ?st1) h2"
    "owns c \<subseteq> newArrays (shHeap ?st1) h2"
    using J(3,4) owns_foot [of c] by auto
  note S = inv_snoc [OF P(4) this(1) J(1) this(2,3), simplified]
  have "snd (absShared st) ! i = asGroup h1 (shGroups st ! i)" "length (snd (absShared st)) = length (shGroups st)"
    using P(5) [symmetric] i by (simp_all add: absShared_def)
  then show ?thesis
    using S J(2) P(2,5) i
    by (cases "absShared st") (simp add: agreeStep_def sl_SubGroup_def p j Group_Group_def asGroup_def)
qed

lemma sl_GroupUse_agrees:
  assumes g: "grows grow" and inv: "sharedInv h0 st" and a: "argOK h0 a" and i: "i < length (shGroups st)"
  shows "agreeStep h0 (Some (Inr (sl_GroupUse grow z i a st))) (valueCall (CGroupUse i (argValues h0 a)) (absShared st))"
proof -
  obtain m h1 where p: "passArgs a (shHeap st) = (m, h1)" by force
  note P = inv_args [OF inv a p]
  let ?s = "snd (shGroups st ! i)" and ?p = "fst (shGroups st ! i)" and ?st1 = "st\<lparr>shHeap := h1\<rparr>"
  obtain s h2 where ap: "appendSlice grow z ?s (elems h1 m) h1 = (s, h2)" by force
  let ?st2 = "st\<lparr>shHeap := h2, shGroups := (shGroups st)[i := (?p, s)]\<rparr>"
  have v: "validSlice h1 ?s" using inv_valid(2) [OF P(4)] i by simp
  from appendSlice_yields [OF g v, of "elems h1 m" z]
  have y: "yields (shHeap ?st1) (slicesOf ?st1 ! Suc i) (elems h1 ?s @ elems h1 m) (s, h2)"
    using ap i by (simp add: slicesOf_def)
  have l: "Suc i < length (slicesOf ?st1)" using i by (simp add: slicesOf_def)
  have ss: "slicesOf ?st2 = (slicesOf ?st1)[Suc i := s]" by (simp add: slicesOf_def map_update)
  note U = inv_extend [OF P(4) l y, of ?st2]
  have inv2: "sharedInv h0 ?st2" by (rule U(1)) (simp_all add: ss)
  have e: "map (elems h2) (slicesOf ?st2) = (map (elems h1) (slicesOf ?st1))[Suc i := elems h1 ?s @ argValues h0 a]"
    using U(2) P(2) by (simp add: ss)
  have mw: "elems h2 (shMiddleware st) = elems h1 (shMiddleware st)" using e by (simp add: slicesOf_def)
  have gs: "map (elems h2) ((map snd (shGroups st))[i := s]) =
      (map (elems h1) (map snd (shGroups st)))[i := elems h1 ?s @ argValues h0 a]"
    using e by (simp add: slicesOf_def map_update)
  have "map (asGroup h2) ((shGroups st)[i := (?p, s)]) =
      (map (asGroup h1) (shGroups st))[i := Group_Use (argValues h0 a) (asGroup h1 (shGroups st ! i))]"
  proof (rule nth_equalityI)
    fix j
    assume "j < length (map (asGroup h2) ((shGroups st)[i := (?p, s)]))"
    then have jl: "j < length (shGroups st)" by simp
    have "elems h2 ((map snd (shGroups st))[i := s] ! j) =
        (map (elems h1) (map snd (shGroups st)))[i := elems h1 ?s @ argValues h0 a] ! j"
      using arg_cong [OF gs, of "\<lambda>xs. xs ! j"] jl by simp
    then show "map (asGroup h2) ((shGroups st)[i := (?p, s)]) ! j =
        (map (asGroup h1) (shGroups st))[i := Group_Use (argValues h0 a) (asGroup h1 (shGroups st ! i))] ! j"
      using jl i by (cases "j = i") (simp_all add: asGroup_def Group_Use_def)
  qed simp
  moreover have "asTrees h2 (shTrees st) = asTrees h1 (shTrees st)" using U(3) by (simp add: ss)
  ultimately have "absShared ?st2 =
      (fst (absShared ?st1), (snd (absShared ?st1))[i := Group_Use (argValues h0 a) (snd (absShared ?st1) ! i)])"
    using mw i by (simp add: absShared_def)
  moreover have "length (snd (absShared ?st1)) = length (shGroups st)" by (simp add: absShared_def)
  moreover have "sl_GroupUse grow z i a st = ?st2" by (simp add: sl_GroupUse_def p ap)
  ultimately show ?thesis
    using inv2 P(5) i by (cases "absShared st") (simp add: agreeStep_def)
qed

lemma sl_GroupHandle_agrees:
  assumes g: "grows grow" and inv: "sharedInv h0 st" and a: "argOK h0 a" and i: "i < length (shGroups st)"
  shows "agreeStep h0 (sl_GroupHandle grow z i m q a st) (valueCall (CGroupHandle i m q (argValues h0 a)) (absShared st))"
proof -
  obtain hs h1 where p: "passArgs a (shHeap st) = (hs, h1)" by force
  note P = inv_args [OF inv a p]
  let ?s = "snd (shGroups st ! i)" and ?p = "fst (shGroups st ! i)" and ?st1 = "st\<lparr>shHeap := h1\<rparr>"
  obtain c h2 where j: "sl_join grow z ?s hs h1 = (c, h2)" by force
  have v: "validSlice h1 ?s" using inv_valid(2) [OF P(4)] i by simp
  note J = sl_join_new [OF g v P(1) j]
  have "frame {} (shHeap ?st1) h2" using J(3) by simp
  note F2 = inv_frame [OF P(4) this, simplified]
  let ?st = "st\<lparr>shHeap := h2\<rparr>" and ?xs = "elems h1 ?s @ argValues h0 a"
  have xs: "elems h2 c = ?xs" using J(2) P(2) by simp
  have "agreeStep h0 (sl_Handle grow z m (joinPaths ?p q) (Spread c) ?st)
      (valueCall (CHandle m (joinPaths ?p q) ?xs) (absShared ?st))"
    by (rule sl_Handle_agrees [OF g F2(1), where hs = c and ?h1.0 = h2])
      (use J(1) xs length_elems [OF J(1)] in \<open>simp_all add: passArgs_def\<close>)
  moreover have "absShared ?st = absShared st" using F2(2) P(5) by simp
  moreover have "valueCall (CHandle m (joinPaths ?p q) ?xs) (absShared st) =
      valueCall (CGroupHandle i m q (argValues h0 a)) (absShared st)"
    using i unfolding P(5) [symmetric] by (simp add: absShared_def Group_Handle_def asGroup_def)
  ultimately show ?thesis by (simp add: sl_GroupHandle_def p j)
qed

lemma sharedCall_agrees:
  assumes g: "grows grow" and inv: "sharedInv h0 st" and c: "callFits h0 c"
  shows "agreeStep h0 (sharedCall grow z c st) (valueCall (map_groupCall (argValues h0) c) (absShared st))"
proof (cases c)
  case (CUse a)
  then show ?thesis using sl_Use_agrees [OF g inv] c by (simp add: callFits_def)
next
  case (CHandle m q a)
  obtain hs h1 where p: "passArgs a (shHeap st) = (hs, h1)" by force
  have "argOK h0 a" using c CHandle by (simp add: callFits_def)
  note P = passArgs_ok [OF this inv_base [OF inv] p]
  show ?thesis using sl_Handle_agrees [OF g inv p P(1-4)] CHandle by simp
next
  case (CGroup q a)
  then show ?thesis using sl_Group_agrees [OF inv] c by (simp add: callFits_def)
next
  case (CSubGroup i q a)
  then show ?thesis
    using sl_SubGroup_agrees [OF g inv, of a i z q] c
    by (cases "i < length (shGroups st)") (simp_all add: callFits_def agreeStep_def absShared_def)
next
  case (CGroupUse i a)
  then show ?thesis
    using sl_GroupUse_agrees [OF g inv, of a i z] c
    by (cases "i < length (shGroups st)") (simp_all add: callFits_def agreeStep_def absShared_def)
next
  case (CGroupHandle i m q a)
  then show ?thesis
    using sl_GroupHandle_agrees [OF g inv, of a i z m q] c
    by (cases "i < length (shGroups st)") (simp_all add: callFits_def agreeStep_def absShared_def)
qed

lemma runShared_agrees:
  assumes "grows grow"
  shows "sharedInv h0 st \<Longrightarrow> list_all (callFits h0) calls \<Longrightarrow>
     map_option (map_sum id absShared) (runCalls (sharedCall grow z) calls st) =
       runCalls valueCall (map (map_groupCall (argValues h0)) calls) (absShared st)"
proof (induction calls arbitrary: st)
  case (Cons c calls)
  have A: "map_option (map_sum id absShared) (sharedCall grow z c st) =
      valueCall (map_groupCall (argValues h0) c) (absShared st)"
    "\<And>st'. sharedCall grow z c st = Some (Inr st') \<Longrightarrow> sharedInv h0 st'"
    using sharedCall_agrees [OF assms Cons.prems(1), of c z] Cons.prems(2) by (simp_all add: agreeStep_def)
  show ?case
    using A(2) Cons.IH Cons.prems(2) by (auto simp: A(1) [symmetric] split: option.splits sum.splits)
qed simp

definition sharedStart :: "handler heap \<Rightarrow> router \<Rightarrow> shared" where
  "sharedStart h0 r = \<lparr>shHeap = h0, shRouter = r, shMiddleware = nilSlice, shTrees = [], shGroups = []\<rparr>"

text \<open>C39. Whatever capacities \<^verbatim>\<open>append\<close> chooses, every sequence of set-up calls on a new router over slices,
  with the slices of the chains stored in the trees, does what it does over values: the same panics, and
  in the end the same routes with the same chains behind the stored slices, the same middleware in the
  router and in every group.  The one condition is on \<^verbatim>\<open>Router.Group\<close>, which keeps the slice it is
  given: a slice the caller passes there with three dots has no room behind its elements.\<close>

theorem slices_are_values:
  assumes "grows grow" "list_all (callFits h0) calls" "rtMiddleware r = []" "rtTrees r = []"
  shows "map_option (map_sum id absShared) (runCalls (sharedCall grow z) calls (sharedStart h0 r)) =
    runCalls valueCall (map (map_groupCall (argValues h0)) calls) (r, [])"
proof -
  have "validSlice h0 nilSlice" "owns nilSlice = {}" "elems h0 nilSlice = []"
    by (simp_all add: validSlice_def nilSlice_def owns_def elems_def)
  then have "sharedInv h0 (sharedStart h0 r)" "absShared (sharedStart h0 r) = (r, [])"
    using assms(3,4)
    by (auto simp: sharedInv_def sharedStart_def slicesOf_def separate_def absShared_def intact_def stored_def asTrees_def)
  then show ?thesis using runShared_agrees [OF assms(1) _ assms(2), of "sharedStart h0 r" z] by simp
qed

definition goGrow :: "nat \<Rightarrow> nat \<Rightarrow> nat" where
  "goGrow c n = max n (2 * c)"

text \<open>An array of two with one element in use, and the slice on it.\<close>

definition callerHeap :: "handler \<Rightarrow> handler \<Rightarrow> handler heap" where
  "callerHeap a z = \<lparr>hpArrays = (\<lambda>i. if i = 0 then [a, z] else []), hpNext = 1\<rparr>"

definition callerSlice :: slice where
  "callerSlice = \<lparr>slArray = 0, slOff = 0, slLen = 1, slCap = 2\<rparr>"

theorem slices_are_values_witness:
  "map_option (map_sum id absShared)
     (runCalls (sharedCall goGrow (Return None))
       [CGroup ''/a'' (Listed [okHandler]), CGroupUse 0 (Spread callerSlice), CGroupHandle 0 ''GET'' ''/r'' (Listed [okHandler])]
       (sharedStart (callerHeap okHandler (Return None)) (New sampleLib))) =
   runCalls valueCall
     [CGroup ''/a'' [okHandler], CGroupUse 0 [okHandler], CGroupHandle 0 ''GET'' ''/r'' [okHandler]] (New sampleLib, [])"
proof -
  let ?calls = "[CGroup ''/a'' (Listed [okHandler]), CGroupUse 0 (Spread callerSlice),
      CGroupHandle 0 ''GET'' ''/r'' (Listed [okHandler])]"
  have "grows goGrow" by (simp add: grows_def goGrow_def)
  moreover have "list_all (callFits (callerHeap okHandler (Return None))) ?calls"
    by (simp add: callFits_def argOK_def fullArg_def validSlice_def callerHeap_def callerSlice_def)
  moreover have "rtMiddleware (New sampleLib) = []" "rtTrees (New sampleLib) = []" by (simp_all add: New_def)
  moreover have "map (map_groupCall (argValues (callerHeap okHandler (Return None)))) ?calls =
      [CGroup ''/a'' [okHandler], CGroupUse 0 [okHandler], CGroupHandle 0 ''GET'' ''/r'' [okHandler]]"
    by (simp add: argValues_def elems_def callerHeap_def callerSlice_def)
  ultimately show ?thesis
    using slices_are_values [of goGrow "callerHeap okHandler (Return None)" ?calls "New sampleLib" "Return None"] by simp
qed

lemma addRoute_a_r:
  "addRoute emptyNode ''/a/r'' hs = Some (Inr (Node ''/a/r'' [] [] (Some hs) [] 1 NodeRoot False))"
  by (simp add: addRoute_def emptyNode_def insertChild.simps [of "Node [] [] [] None [] 1 NodeStatic False"]
      findWildcard_def isWild_def)

text \<open>With room behind it, two groups made from one slice write into each other: the middleware \<open>y\<close> of
  the second group runs in the place of the first group's \<open>x\<close>.\<close>

lemma shared_slice_overwritten:
  "\<exists>st n res c. runCalls (sharedCall goGrow z)
       [CGroup ''/a'' (Spread callerSlice), CGroup ''/b'' (Spread callerSlice), CGroupUse 0 (Listed [x]),
        CGroupUse 1 (Listed [y]), CGroupHandle 0 ''GET'' ''/r'' (Listed [h])]
       (sharedStart (callerHeap a z) (New sampleLib)) = Some (Inr st) \<and>
     map_of (shTrees st) ''GET'' = Some n \<and>
     getValue n ''/a/r'' [] = Inr res \<and> rhandlers res = Some c \<and> elems (shHeap st) c = [a, y, h]"
proof -
  obtain st c where st: "runCalls (sharedCall goGrow z)
       [CGroup ''/a'' (Spread callerSlice), CGroup ''/b'' (Spread callerSlice), CGroupUse 0 (Listed [x]),
        CGroupUse 1 (Listed [y]), CGroupHandle 0 ''GET'' ''/r'' (Listed [h])]
       (sharedStart (callerHeap a z) (New sampleLib)) = Some (Inr st)"
    "map_of (shTrees st) ''GET'' = Some (Node ''/a/r'' [] [] (Some c) [] 1 NodeRoot False)"
    "elems (shHeap st) c = [a, y, h]"
    by (simp add: sharedStart_def callerHeap_def callerSlice_def nilSlice_def New_def sl_Group_def passArgs_def
        sl_GroupUse_def sl_GroupHandle_def sl_Handle_def sl_join_def makeSlice_def appendSlice_def elems_def
        writeAt_def allocArray_def joinPaths_def trimSuffix_def trimPrefix_def addRoute_a_r numeral_eq_Suc)
  let ?n = "Node ''/a/r'' [] [] (Some c) [] 1 NodeRoot False"
  have "getValue ?n ''/a/r'' [] = Inr \<lparr>rhandlers = Some c, rparams = [], rtsr = False\<rparr>"
    using getValue_exact [of ?n "[]"] exactMatch_Some [of ?n c "''/a/r''" "[]"] by simp
  then show ?thesis using st by (intro exI conjI) auto
qed

end
