(* ===== verification/Streaming.thy ===== *)
theory Streaming
  imports Ws RouterProps
begin

text \<open>
  The streaming example (\<^verbatim>\<open>examples/streaming/main.go\<close>) and the basic one (\<^verbatim>\<open>examples/basic/main.go\<close>):
  programs over the router, the events of \<open>Context\<close> and the connections of \<open>Ws\<close>.  The ticker and the
  client that leaves are the sequence of choices that \<^verbatim>\<open>select\<close> makes.
\<close>

section \<open>Server-Sent Events\<close>

datatype choice = Tick | Gone

text \<open>The loop of the handler of \<^verbatim>\<open>/events\<close>: its value is \<open>None\<close> as long as the client stays.\<close>

fun eventLoop :: "int \<Rightarrow> choice list \<Rightarrow> ctx \<Rightarrow> (goerr option \<times> ctx) option" where
  "eventLoop n [] c = None"
| "eventLoop n (Gone # cs) c = Some (None, c)"
| "eventLoop n (Tick # cs) c =
     (case cx_SSEvent ''tick'' (itoa n) c of
        (Some err, c') \<Rightarrow> Some (Some err, c')
      | (None, c') \<Rightarrow> eventLoop (n + 1) cs c')"

definition eventsHandler :: "choice list \<Rightarrow> ctx \<Rightarrow> (goerr option \<times> ctx) option" where
  "eventsHandler cs c = eventLoop 1 cs c"

section \<open>Echo\<close>







section \<open>Events as they are read\<close>

text \<open>A connection that takes everything, before or after the status line.\<close>

definition liveStream :: "ctx \<Rightarrow> bool" where
  "liveStream c \<longleftrightarrow>
     (let w = cxWriter c; u = rwUnder w
      in \<not> rwSuppress w \<and> wRoom u = None \<and>
         (if rwStatus w = noStatus then wSent u = None else map_option fst (wSent u) = Some 200))"

lemma cx_SSEvent_live:
  assumes "liveStream c"
  shows "\<exists>c'. cx_SSEvent event data c = (None, c') \<and> liveStream c' \<and>
    wBody (rwUnder (cxWriter c')) = wBody (rwUnder (cxWriter c)) @ sseFrame event data"
proof -
  have "sseFrame event data \<noteq> []" by (simp add: sseFrame_def)
  then show ?thesis
    using assms
    by (cases "rwStatus (cxWriter c) = noStatus")
      (auto simp: liveStream_def cx_SSEvent_def cxWritten_def rw_Written_def cxWriteHeader_def rw_WriteHeader_def
        cxWrite_def rw_Write_def std_Write_def std_WriteHeader_def informational_def bodyAllowed_def noStatus_def
        cx_Flush_def rw_Unwrap_def Let_def mapHeader_def)
qed

lemma eventLoop_ticks:
  "liveStream c \<Longrightarrow> \<exists>c'. eventLoop n (replicate k Tick @ Gone # cs) c = Some (None, c') \<and>
     wBody (rwUnder (cxWriter c')) = wBody (rwUnder (cxWriter c)) @
       concat (map (\<lambda>i. sseFrame ''tick'' (itoa (n + int i))) [0..<k])"
proof (induction k arbitrary: n c)
  case (Suc k)
  obtain c1 where c1: "cx_SSEvent ''tick'' (itoa n) c = (None, c1)" "liveStream c1"
    "wBody (rwUnder (cxWriter c1)) = wBody (rwUnder (cxWriter c)) @ sseFrame ''tick'' (itoa n)"
    using cx_SSEvent_live [OF Suc.prems] by blast
  obtain c2 where c2: "eventLoop (n + 1) (replicate k Tick @ Gone # cs) c1 = Some (None, c2)"
    "wBody (rwUnder (cxWriter c2)) = wBody (rwUnder (cxWriter c1)) @
       concat (map (\<lambda>i. sseFrame ''tick'' (itoa (n + 1 + int i))) [0..<k])"
    using Suc.IH [OF c1(2)] by blast
  have shift: "map (\<lambda>i. sseFrame ''tick'' (itoa (n + int i))) [0..<Suc k] =
      sseFrame ''tick'' (itoa n) # map (\<lambda>i. sseFrame ''tick'' (itoa (n + 1 + int i))) [0..<k]"
    by (simp add: upt_conv_Cons map_Suc_upt [symmetric] add.assoc del: upt_Suc)
  show ?case using c1 c2 shift by (simp del: upt_Suc)
qed simp

lemma itoa_oneLine: "oneLine (itoa n)"
proof -
  have "c \<noteq> LF \<and> c \<noteq> CR" if "c \<in> set (natDigits m)" for c m
    using natDigits_isDigit [of m] that by (auto simp: list_all_iff isDigit_def)
  then show ?thesis by (auto simp: itoa_def)
qed

text \<open>A client that stays for \<open>k\<close> ticks of \<^verbatim>\<open>/events\<close> reads the \<open>k\<close> events it was sent, numbered from one,
  and nothing else; when it leaves the handler returns nil.\<close>

theorem ticks_are_read:
  assumes "liveStream c" "wBody (rwUnder (cxWriter c)) = []"
  shows "\<exists>c'. eventsHandler (replicate k Tick @ Gone # cs) c = Some (None, c') \<and>
    sseRead (wBody (rwUnder (cxWriter c'))) = map (\<lambda>i. (''tick'', itoa (1 + int i))) [0..<k]"
proof -
  obtain c' where c': "eventLoop 1 (replicate k Tick @ Gone # cs) c = Some (None, c')"
    "wBody (rwUnder (cxWriter c')) = concat (map (\<lambda>i. sseFrame ''tick'' (itoa (1 + int i))) [0..<k])"
    using eventLoop_ticks [OF assms(1), of 1 k cs] assms(2) by auto
  let ?evs = "map (\<lambda>i. (''tick'', itoa (1 + int i))) [0..<k]"
  have "sseRead (concat (map (\<lambda>(event, data). sseFrame event data) ?evs)) = ?evs"
    by (rule sse_frames_read) (use itoa_oneLine in auto)
  then show ?thesis using c' by (simp add: eventsHandler_def o_def)
qed

section \<open>The echo conversation\<close>









theorem ticks_are_read_witness:
  "\<exists>c'. eventsHandler [Tick, Tick, Gone] (cctx (freshState ''GET'' ''/events'')) = Some (None, c') \<and>
     sseRead (wBody (rwUnder (cxWriter c'))) = [(''tick'', ''1''), (''tick'', ''2'')]"
proof -
  have "liveStream (cctx (freshState ''GET'' ''/events''))"
    "wBody (rwUnder (cxWriter (cctx (freshState ''GET'' ''/events'')))) = []"
    by (simp_all add: liveStream_def freshState_def rw_reset_def freshWriter_def)
  moreover have "itoa 1 = ''1''" "itoa 2 = ''2''" by code_simp+
  ultimately show ?thesis
    using ticks_are_read [of "cctx (freshState ''GET'' ''/events'')" 2 "[]"] by (simp add: numeral_2_eq_2)
qed

end
