(* ===== verification/BookApi.thy ===== *)
theory BookApi
  imports Bind Group
begin

text \<open>
  The REST example (\<^verbatim>\<open>examples/rest-api/main.go\<close>): a repository behind a mutex, three handlers and their
  routes in a group.  Each handler makes at most one call on the repository, and the mutex makes that
  call one step (\<open>Locks\<close>), so concurrent requests are a sequence of these steps.  A handler is a function of the
  repository and the context; on the router stands the handler at the repository it finds.  The JSON
  encodings are arguments, and so is the middleware.
\<close>

section \<open>The repository\<close>

text \<open>Go's \<^verbatim>\<open>int\<close>, of 64 bits.\<close>

definition goInt :: "int \<Rightarrow> int" where
  "goInt i = sint (of_int i :: 64 word)"

record book =
  bkID :: int
  bkTitle :: string
  bkAuthor :: string

text \<open>The order of the list stands for the iteration order of the map.\<close>

record bookStore =
  bsBooks :: "(int \<times> book) list"
  bsNextID :: int

definition newStore :: bookStore where
  "newStore = \<lparr>bsBooks = [], bsNextID = 1\<rparr>"

definition store_list :: "bookStore \<Rightarrow> book list" where
  "store_list st = map snd (bsBooks st)"

definition store_create :: "book \<Rightarrow> bookStore \<Rightarrow> book \<times> bookStore" where
  "store_create b st =
     (let b1 = b\<lparr>bkID := bsNextID st\<rparr>
      in (b1, st\<lparr>bsBooks := AList.update (bkID b1) b1 (bsBooks st), bsNextID := goInt (bsNextID st + 1)\<rparr>))"

definition store_get :: "int \<Rightarrow> bookStore \<Rightarrow> book option" where
  "store_get i st = map_of (bsBooks st) i"

section \<open>Identifiers\<close>

text \<open>The loop of \<^verbatim>\<open>parseID\<close>.  A character outside ASCII is no digit, and neither is any of its bytes.\<close>

fun parseFrom :: "int \<Rightarrow> string \<Rightarrow> int option" where
  "parseFrom i [] = Some i"
| "parseFrom i (c # s) =
     (if \<not> isDigit c then None
      else parseFrom (goInt (goInt (i * 10) + (int (of_char c) - 48))) s)"

definition parseID :: "string \<Rightarrow> int option" where
  "parseID s =
     (case parseFrom 0 s of
        None \<Rightarrow> None
      | Some i \<Rightarrow> if s = [] then None else Some i)"

section \<open>Handlers\<close>

definition bookField :: "string \<Rightarrow> string \<Rightarrow> fieldInfo" where
  "bookField name tag = \<lparr>fiName = name, fiExported = True, fiTags = [(''json'', tag)]\<rparr>"

definition bookType :: gotype where
  "bookType = TStruct
     [(bookField ''ID'' ''id'', TInt 64), (bookField ''Title'' ''title'', TString), (bookField ''Author'' ''author'', TString)]"

text \<open>The fields of a bound book, in their order.\<close>

definition bookOf :: "target \<Rightarrow> book" where
  "bookOf v =
     (case v of
        PointsTo t [VInt i, VString title, VString author] \<Rightarrow> \<lparr>bkID = i, bkTitle = title, bkAuthor = author\<rparr>
      | _ \<Rightarrow> \<lparr>bkID = 0, bkTitle = [], bkAuthor = []\<rparr>)"

definition zeroBook :: target where
  "zeroBook = PointsTo bookType [VInt 0, VString [], VString []]"

record bookLib =
  blBook :: "book \<Rightarrow> encoded"
  blBooks :: "book list \<Rightarrow> encoded"
  blDecode :: jsonDecoder
  blFloat :: floatParser
  blTypes :: tyenv

type_synonym bookHandler = "bookStore \<Rightarrow> ctx \<Rightarrow> (goerr option \<times> ctx) \<times> bookStore"

definition listBooks :: "bookLib \<Rightarrow> bookHandler" where
  "listBooks bl st c = (cx_JSON 200 (blBooks bl (store_list st)) c, st)"

definition createBook :: "bookLib \<Rightarrow> bookHandler" where
  "createBook bl st c =
     (case Bind (blDecode bl) (blFloat bl) (blTypes bl) zeroBook c of
        ((Some err, v), c1) \<Rightarrow> ((Some err, c1), st)
      | ((None, v), c1) \<Rightarrow>
          let b = bookOf v
          in if bkTitle b = [] then ((Some (NewHTTPError 422 [''title is required'']), c1), st)
             else case store_create b st of
                    (b1, st1) \<Rightarrow> (cx_JSON 201 (blBook bl b1) c1, st1))"

definition getBook :: "bookLib \<Rightarrow> bookHandler" where
  "getBook bl st c =
     (case parseID (cx_Param ''id'' c) of
        None \<Rightarrow> ((Some (NewHTTPError 400 [''invalid id'']), c), st)
      | Some i \<Rightarrow>
          (case store_get i st of
             None \<Rightarrow> ((Some (NewHTTPError 404 [''book not found'']), c), st)
           | Some b \<Rightarrow> (cx_JSON 200 (blBook bl b) c, st)))"

section \<open>The program\<close>

definition atStore :: "bookHandler \<Rightarrow> bookStore \<Rightarrow> handler" where
  "atStore f st = Effect (\<lambda>c. snd (fst (f st c))) (\<lambda>c. Return (fst (fst (f st c))))"

fun thenDo :: "(gopanic + router) option \<Rightarrow> (router \<Rightarrow> (gopanic + router) option) \<Rightarrow> (gopanic + router) option" where
  "thenDo None f = None"
| "thenDo (Some (Inl e)) f = Some (Inl e)"
| "thenDo (Some (Inr r)) f = f r"

text \<open>\<^verbatim>\<open>main\<close> up to \<^verbatim>\<open>Listen\<close>; \<open>mw\<close> are the four handlers it puts in front.\<close>

definition bookMain :: "stdlib \<Rightarrow> handler list \<Rightarrow> bookLib \<Rightarrow> bookStore \<Rightarrow> (gopanic + router) option" where
  "bookMain lib mw bl db =
     (let app = Use mw (New lib)
      in case Router_Group ''/api/v1'' [] of
           Inl e \<Rightarrow> Some (Inl e)
         | Inr api \<Rightarrow>
             thenDo (gr_Get api ''/books'' [atStore (listBooks bl) db] app)
               (\<lambda>r1. thenDo (gr_Post api ''/books'' [atStore (createBook bl) db] r1)
                 (\<lambda>r2. gr_Get api ''/books/:id'' [atStore (getBook bl) db] r2)))"

section \<open>Identifiers are read modulo \<open>2 ^ 64\<close>\<close>

lemma goInt_cong: "(of_int i :: 64 word) = of_int j \<Longrightarrow> goInt i = goInt j"
  by (simp add: goInt_def)

lemma goInt_idem: "goInt (goInt i * 10 + k) = goInt (i * 10 + k)"
  by (rule goInt_cong) (simp add: goInt_def)

lemma goInt_small: "- (2 ^ 63) \<le> i \<Longrightarrow> i < 2 ^ 63 \<Longrightarrow> goInt i = i"
  by (simp add: goInt_def sint_sbintrunc' signed_take_bit_int_eq_self)

lemma parseFrom_digits:
  "list_all isDigit s \<Longrightarrow>
     parseFrom (goInt (int n)) s = Some (goInt (int (foldl (\<lambda>n c. 10 * n + (of_char c - 48)) n s)))"
proof (induction s arbitrary: n)
  case (Cons c s)
  have d: "int (of_char c) - 48 = int (of_char c - 48)" using Cons.prems by (simp add: isDigit_def of_nat_diff)
  have "goInt (goInt (goInt (int n) * 10) + (int (of_char c) - 48)) = goInt (int (10 * n + (of_char c - 48)))"
    unfolding d by (rule goInt_cong) (simp add: goInt_def algebra_simps)
  then have "parseFrom (goInt (int n)) (c # s) = parseFrom (goInt (int (10 * n + (of_char c - 48)))) s"
    using Cons.prems by simp
  also have "\<dots> = Some (goInt (int (foldl (\<lambda>n c. 10 * n + (of_char c - 48)) (10 * n + (of_char c - 48)) s)))"
    by (rule Cons.IH) (use Cons.prems in simp)
  finally show ?case by simp
qed simp

lemma parseID_digits: "list_all isDigit s \<Longrightarrow> s \<noteq> [] \<Longrightarrow> parseID s = Some (goInt (int (readNat s)))"
  using parseFrom_digits [of s 0] by (simp add: parseID_def readNat_def goInt_small)

lemma parseFrom_bad: "\<not> list_all isDigit s \<Longrightarrow> parseFrom i s = None"
  by (induction s arbitrary: i) auto

lemma parseID_itoa: "0 \<le> i \<Longrightarrow> i < 2 ^ 63 \<Longrightarrow> parseID (itoa i) = Some i"
  using parseID_digits [OF natDigits_isDigit natDigits_nonempty, of "nat i"] goInt_small [of i]
  by (simp add: itoa_def)

text \<open>Too large a number is not refused: it names another book.\<close>

lemma parseID_wraps: "parseID ''18446744073709551617'' = Some 1"
  by code_simp

section \<open>The repository is a log of the created books\<close>

fun createAll :: "book list \<Rightarrow> bookStore \<Rightarrow> bookStore" where
  "createAll [] st = st"
| "createAll (b # bs) st = createAll bs (snd (store_create b st))"

definition numbered :: "book list \<Rightarrow> book list" where
  "numbered bs = map (\<lambda>i. (bs ! i)\<lparr>bkID := int i + 1\<rparr>) [0..<length bs]"

definition holds :: "book list \<Rightarrow> bookStore \<Rightarrow> bool" where
  "holds bs st \<longleftrightarrow>
     bsNextID st = int (length bs) + 1 \<and> bsBooks st = map (\<lambda>b. (bkID b, b)) (numbered bs)"

lemma numbered_snoc: "numbered (bs @ [b]) = numbered bs @ [b\<lparr>bkID := int (length bs) + 1\<rparr>]"
  by (simp add: numbered_def nth_append)

lemma numbered_ids: "i \<in> set (map bkID (numbered bs)) \<Longrightarrow> 1 \<le> i \<and> i \<le> int (length bs)"
  by (auto simp: numbered_def)

lemma update_fresh: "k \<notin> fst ` set xs \<Longrightarrow> AList.update k v xs = xs @ [(k, v)]"
  by (induction xs) auto

lemma store_create_holds:
  assumes "holds bs st" "int (length bs) + 2 < 2 ^ 63"
  shows "holds (bs @ [b]) (snd (store_create b st))"
proof -
  have "int (length bs) + 1 \<notin> fst ` set (bsBooks st)"
    using assms(1) numbered_ids [of "int (length bs) + 1" bs] by (auto simp: holds_def image_image)
  moreover have "goInt (int (length bs) + 1 + 1) = int (length bs) + 2"
    using goInt_small [of "int (length bs) + 2"] assms(2) by (simp add: add.assoc)
  ultimately show ?thesis
    using assms(1) by (simp add: holds_def store_create_def Let_def update_fresh numbered_snoc)
qed

lemma createAll_holds:
  "holds bs0 st \<Longrightarrow> int (length bs0 + length bs) + 1 < 2 ^ 63 \<Longrightarrow> holds (bs0 @ bs) (createAll bs st)"
proof (induction bs arbitrary: bs0 st)
  case (Cons b bs)
  have "holds (bs0 @ [b]) (snd (store_create b st))"
    by (rule store_create_holds [OF Cons.prems(1)]) (use Cons.prems(2) in simp)
  then show ?case using Cons.IH [of "bs0 @ [b]"] Cons.prems(2) by simp
qed simp

lemma store_get_holds:
  assumes "holds bs st" "i < length bs"
  shows "store_get (int i + 1) st = Some ((bs ! i)\<lparr>bkID := int i + 1\<rparr>)"
proof -
  have "distinct (map bkID (numbered bs))"
    by (simp add: numbered_def distinct_map inj_on_def)
  moreover have "(int i + 1, (bs ! i)\<lparr>bkID := int i + 1\<rparr>) \<in> set (bsBooks st)"
    using assms by (auto simp: holds_def numbered_def image_iff)
  ultimately show ?thesis
    using assms(1) by (simp add: store_get_def holds_def map_of_eq_Some_iff o_def)
qed

section \<open>Routes\<close>

definition bookCalls :: "handler list \<Rightarrow> bookLib \<Rightarrow> bookStore \<Rightarrow> setupCall list" where
  "bookCalls mw bl db =
     [SUse mw, SHandle ''GET'' ''/api/v1/books'' [atStore (listBooks bl) db],
      SHandle ''POST'' ''/api/v1/books'' [atStore (createBook bl) db],
      SHandle ''GET'' ''/api/v1/books/:id'' [atStore (getBook bl) db]]"

lemma book_paths:
  "Router_Group ''/api/v1'' [] = Inr \<lparr>grPrefix = ''/api/v1'', grMiddleware = []\<rparr>"
  "joinPaths ''/api/v1'' ''/books'' = ''/api/v1/books''" "joinPaths ''/api/v1'' ''/books/:id'' = ''/api/v1/books/:id''"
  by (simp_all add: Router_Group_def joinPaths_def trimSuffix_def trimPrefix_def)

lemma bookMain_calls: "bookMain lib mw bl db = runSetup (bookCalls mw bl db) (New lib)"
proof -
  have t: "thenDo x f = (case x of None \<Rightarrow> None | Some (Inl e) \<Rightarrow> Some (Inl e) | Some (Inr r) \<Rightarrow> f r)" for x f
    by (cases x; cases "the x") auto
  show ?thesis
    by (simp add: bookMain_def bookCalls_def book_paths gr_Get_def gr_Post_def Group_Handle_def t Let_def
        split: option.splits sum.splits)
qed

lemma book_pats:
  "pat ''/api/v1/books'' = map Lit ''/api/v1/books''" "pat ''/api/v1/books/:id'' = map Lit ''/api/v1/books/'' @ [Par ''id'']"
  by code_simp+

lemma bookCalls_table:
  "tableOf [] (bookCalls mw bl db) m =
     (if m = ''GET'' then [(''/api/v1/books'', mw @ [atStore (listBooks bl) db]),
                            (''/api/v1/books/:id'', mw @ [atStore (getBook bl) db])]
      else if m = ''POST'' then [(''/api/v1/books'', mw @ [atStore (createBook bl) db])] else [])"
  by (simp add: bookCalls_def)

lemma bookCalls_good: "goodSetup (bookCalls mw bl db)"
proof -
  have "readable ''/api/v1/books''" "readable ''/api/v1/books/:id''" by code_simp+
  moreover have "compat (pat ''/api/v1/books'') (pat ''/api/v1/books/:id'')" by code_simp
  moreover have "methodsOf (bookCalls mw bl db) = [''POST'', ''GET''] \<or> methodsOf (bookCalls mw bl db) = [''GET'', ''POST'']"
    by (simp add: bookCalls_def List.insert_def)
  moreover have "list_all callOK (bookCalls mw bl db)" by (simp add: bookCalls_def)
  ultimately show ?thesis by (auto simp: goodSetup_def bookCalls_table)
qed

lemma book_scan:
  assumes "0 \<le> i"
  shows "scan (tableOf [] (bookCalls mw bl db) ''GET'') (''/api/v1/books/'' @ itoa i) =
    Some (mw @ [atStore (getBook bl) db], [\<lparr>Key = ''id'', Value = itoa i\<rparr>])"
proof -
  have d: "notSlash c" if "c \<in> set (itoa i)" for c
    using natDigits_isDigit [of "nat i"] assms that by (auto simp: itoa_def list_all_iff isDigit_def)
  then have t: "takeWhile notSlash (itoa i) = itoa i" "dropWhile notSlash (itoa i) = []"
    by (simp_all add: takeWhile_eq_all_conv dropWhile_eq_Nil_conv)
  have ne: "itoa i \<noteq> []" using natDigits_nonempty assms by (simp add: itoa_def)
  have "matches (map Lit ''/api/v1/books/'' @ [Par ''id'']) (''/api/v1/books/'' @ itoa i) =
      Some [\<lparr>Key = ''id'', Value = itoa i\<rparr>]"
    using matches_lits [of "''/api/v1/books/''" "[Par ''id'']" "''/api/v1/books/'' @ itoa i"] t ne by simp
  moreover have "matches (map Lit ''/api/v1/books'') (''/api/v1/books/'' @ itoa i) = None"
    using matches_lits [of "''/api/v1/books''" "[]" "''/api/v1/books/'' @ itoa i"] by simp
  ultimately show ?thesis unfolding bookCalls_table by (simp add: book_pats)
qed

section \<open>Properties\<close>

text \<open>After any creations on a new repository, every book is found under its number, the list has each
  once, and no other number is taken (as long as the numbers fit 63 bits).\<close>

theorem store_is_log:
  assumes "int (length bs) + 1 < 2 ^ 63"
  shows "store_list (createAll bs newStore) = numbered bs \<and>
    (\<forall>i<length bs. store_get (int i + 1) (createAll bs newStore) = Some ((bs ! i)\<lparr>bkID := int i + 1\<rparr>)) \<and>
    (\<forall>j. \<not> (1 \<le> j \<and> j \<le> int (length bs)) \<longrightarrow> store_get j (createAll bs newStore) = None)"
proof -
  have "holds [] newStore" by (simp add: holds_def newStore_def numbered_def)
  from createAll_holds [OF this, of bs] have h: "holds bs (createAll bs newStore)" using assms by simp
  have "store_get j (createAll bs newStore) = None" if "\<not> (1 \<le> j \<and> j \<le> int (length bs))" for j
    using h that numbered_ids [of j bs] by (auto simp: store_get_def holds_def map_of_eq_None_iff image_image)
  moreover have "store_list (createAll bs newStore) = numbered bs"
    using h by (simp add: store_list_def holds_def o_def)
  ultimately show ?thesis using store_get_holds [OF h] by blast
qed

theorem store_is_log_witness:
  "store_list (createAll [\<lparr>bkID = 9, bkTitle = ''a'', bkAuthor = []\<rparr>] newStore) =
     [\<lparr>bkID = 1, bkTitle = ''a'', bkAuthor = []\<rparr>]"
  using store_is_log [of "[\<lparr>bkID = 9, bkTitle = ''a'', bkAuthor = []\<rparr>]"] by (simp add: numbered_def)

text \<open>C28. A book that the API created is served by it: it has a title and the number the repository gave
  it, and a GET for that number goes, behind the middleware, to the handler that answers 200 with the book
  as it was stored.\<close>

theorem created_book_is_served:
  assumes "createBook bl st c = ((None, c1), st1)" "0 \<le> bsNextID st" "bsNextID st < 2 ^ 63"
    and "bookMain lib mw bl st1 = Some (Inr r)"
    and "reqMethod (cxRequest (cctx s)) = ''GET''" "cxParams (cctx s) = []"
    and "reqPath (cxRequest (cctx s)) = ''/api/v1/books/'' @ itoa (bsNextID st)"
    and "ps = [\<lparr>Key = ''id'', Value = itoa (bsNextID st)\<rparr>]"
  shows "dispatch lib r s = runChain lib r (mw @ [atStore (getBook bl) st1]) (setParams ps s) \<and>
    (\<exists>b. store_get (bsNextID st) st1 = Some b \<and> bkID b = bsNextID st \<and> bkTitle b \<noteq> [] \<and>
       (\<forall>d. cxParams d = ps \<longrightarrow> getBook bl st1 d = (cx_JSON 200 (blBook bl b) d, st1)))"
proof -
  obtain b where b: "bkTitle b \<noteq> []" "st1 = snd (store_create b st)"
    using assms(1) by (auto simp: createBook_def Let_def split: prod.splits option.splits if_splits)
  let ?b = "b\<lparr>bkID := bsNextID st\<rparr>"
  have g: "store_get (bsNextID st) st1 = Some ?b"
    by (simp add: b(2) store_create_def store_get_def Let_def update_conv')
  have "getBook bl st1 d = (cx_JSON 200 (blBook bl ?b) d, st1)" if "cxParams d = ps" for d
    using that g parseID_itoa [OF assms(2,3)]
    by (simp add: getBook_def cx_Param_def Params_ByName_def assms(8))
  moreover have "dispatch lib r s = runChain lib r (mw @ [atStore (getBook bl) st1]) (setParams ps s)"
    by (rule registered_chain [OF bookCalls_good blank_New assms(4) [unfolded bookMain_calls] assms(6)])
      (simp add: assms(5,7,8) book_scan [OF assms(2), unfolded append.simps])
  ultimately show ?thesis using g b(1) by auto
qed

definition sampleBooks :: bookLib where
  "sampleBooks =
     \<lparr>blBook = (\<lambda>b. (bkTitle b, None)), blBooks = (\<lambda>bs. (concat (map bkTitle bs), None)),
      blDecode = (\<lambda>body v. ((None, v), body)), blFloat = (\<lambda>s w. None), blTypes = filterEnv\<rparr>"

theorem created_book_is_served_witness:
  "\<exists>c1 st1 r. createBook sampleBooks newStore (filterCtx [''Title'' \<mapsto> [''Go'']]) = ((None, c1), st1) \<and>
     dispatch sampleLib r (freshState ''GET'' ''/api/v1/books/1'') =
       runChain sampleLib r [atStore (getBook sampleBooks) st1]
         (setParams [\<lparr>Key = ''id'', Value = ''1''\<rparr>] (freshState ''GET'' ''/api/v1/books/1'')) \<and>
     (\<exists>b. store_get 1 st1 = Some b \<and> bkTitle b \<noteq> [])"
proof -
  have i: "itoa 1 = ''1''" by code_simp
  let ?c = "filterCtx [''Title'' \<mapsto> [''Go'']]"
  have ct: "contentType (filterCtx [''Title'' \<mapsto> [''Go'']]) = []" by (rule filterCtx_contentType)
  have b: "\<exists>d. Bind (blDecode sampleBooks) (blFloat sampleBooks) (blTypes sampleBooks) zeroBook ?c =
      ((None, PointsTo bookType [VInt 0, VString ''Go'', VString []]), d) \<and> cxWriter d = cxWriter ?c"
    by (simp add: Bind_def ct BindQuery_def)
      (simp add: queryValues_def filterCtx_def bindValues_def bookType_def zeroBook_def bookField_def fieldKey_def
        tagGet_def setField_def setScalar_def badRequest_def Let_def)
  then obtain d where d: "Bind (blDecode sampleBooks) (blFloat sampleBooks) (blTypes sampleBooks) zeroBook ?c =
      ((None, PointsTo bookType [VInt 0, VString ''Go'', VString []]), d)" "cxWriter d = cxWriter ?c" by blast
  have "fst (cx_JSON 201 (v, None) d) = None" for v
    using d(2)
    by (simp add: cx_JSON_def cxEncode_def cxWrite_def cxWriteHeader_def rw_WriteHeader_def rw_Write_def std_Write_def
        std_WriteHeader_def informational_def bodyAllowed_def noStatus_def mapHeader_def rw_reset_def freshWriter_def
        filterCtx_def Let_def)
  then have "\<exists>c1. cx_JSON 201 (v, None) d = (None, c1)" for v by (metis prod.collapse)
  then have "\<exists>c1 st1. createBook sampleBooks newStore ?c = ((None, c1), st1)"
    by (simp add: createBook_def d(1) bookOf_def store_create_def Let_def) (simp add: sampleBooks_def)
  then obtain c1 st1 where c: "createBook sampleBooks newStore (filterCtx [''Title'' \<mapsto> [''Go'']]) = ((None, c1), st1)"
    by blast
  obtain r where r: "bookMain sampleLib [] sampleBooks st1 = Some (Inr r)"
    using setup_runs [OF bookCalls_good blank_New] unfolding bookMain_calls by blast
  have n: "bsNextID newStore = 1" by (simp add: newStore_def)
  from created_book_is_served [OF c _ _ r, of "freshState ''GET'' ''/api/v1/books/1''", unfolded n i, OF _ _ _ _ _ refl]
  have "dispatch sampleLib r (freshState ''GET'' ''/api/v1/books/1'') =
       runChain sampleLib r ([] @ [atStore (getBook sampleBooks) st1])
         (setParams [\<lparr>Key = ''id'', Value = ''1''\<rparr>] (freshState ''GET'' ''/api/v1/books/1''))"
    "\<exists>b. store_get 1 st1 = Some b \<and> bkTitle b \<noteq> []"
    by auto
  with c show ?thesis by auto
qed

end
