(* ===== verification/Banner.thy ===== *)
theory Banner
  imports RouterProps Runes
begin

text \<open>
  The start-up banner (\<^verbatim>\<open>banner.go\<close>): the number of routes, the URL to show for a listen address, and the
  box itself.  \<^verbatim>\<open>len([]rune(s))\<close> is \<open>runeCount\<close>.  What \<^verbatim>\<open>printBanner\<close> writes is its value; the process id is an
  argument.
\<close>

section \<open>The URL to show\<close>

text \<open>\<^verbatim>\<open>net.SplitHostPort\<close> and \<^verbatim>\<open>net.JoinHostPort\<close>.\<close>

definition splitHostPort :: "string \<Rightarrow> (string \<times> string) option" where
  "splitHostPort s =
     (case (splitHost s, lastIndexOf (CHR '':'') s) of
        (Some host, Some i) \<Rightarrow> Some (host, drop (i + 1) s)
      | _ \<Rightarrow> None)"

definition joinHostPort :: "string \<Rightarrow> string \<Rightarrow> string" where
  "joinHostPort host port = (if CHR '':'' \<in> set host then ''['' @ host @ '']:'' @ port else host @ '':'' @ port)"

definition displayURL :: "string \<Rightarrow> string" where
  "displayURL addr =
     (case splitHostPort addr of
        None \<Rightarrow> ''http://'' @ addr
      | Some (host, port) \<Rightarrow>
          let host' = (if host = [] \<or> host = ''0.0.0.0'' \<or> host = ''::'' then ''127.0.0.1'' else host)
          in ''http://'' @ joinHostPort host' port)"

section \<open>The box\<close>

definition Version :: string where
  "Version = ''0.1.0''"

definition bannerWidth :: int where
  "bannerWidth = 54"

definition routeCount :: "router \<Rightarrow> int" where
  "routeCount r = sum_list (map (\<lambda>t. uint (npriority (snd t))) (rtTrees r))"

text \<open>The box-drawing characters in UTF-8.\<close>

definition topLeft :: string where
  "topLeft = [CHR 0xE2, CHR 0x94, CHR 0x8C]"

definition topRight :: string where
  "topRight = [CHR 0xE2, CHR 0x94, CHR 0x90]"

definition bottomLeft :: string where
  "bottomLeft = [CHR 0xE2, CHR 0x94, CHR 0x94]"

definition bottomRight :: string where
  "bottomRight = [CHR 0xE2, CHR 0x94, CHR 0x98]"

definition horizontal :: string where
  "horizontal = [CHR 0xE2, CHR 0x94, CHR 0x80]"

definition vertical :: string where
  "vertical = [CHR 0xE2, CHR 0x94, CHR 0x82]"

definition repeated :: "string \<Rightarrow> int \<Rightarrow> string" where
  "repeated s n = concat (replicate (nat n) s)"

definition center :: "string \<Rightarrow> string" where
  "center s =
     (let pad = bannerWidth - runeCount s
      in if pad \<le> 0 then s else let left = pad div 2 in repeated '' '' left @ s @ repeated '' '' (pad - left))"

definition field :: "string \<Rightarrow> string \<Rightarrow> int \<Rightarrow> string" where
  "field key val width =
     (let dots = max (width - runeCount key - runeCount val - 2) 1
      in key @ '' '' @ repeated ''.'' dots @ '' '' @ val)"

definition row :: "string \<Rightarrow> string" where
  "row content = vertical @ content @ vertical"

definition bannerStats :: "router \<Rightarrow> int \<Rightarrow> string" where
  "bannerStats r pid =
     (let col = (bannerWidth - 3) div 2
      in '' '' @ field ''Handlers'' (itoa (routeCount r)) col @ ''  '' @
           field ''PID'' (itoa pid) (bannerWidth - 3 - col))"

definition bannerLines :: "router \<Rightarrow> int \<Rightarrow> string \<Rightarrow> string list" where
  "bannerLines r pid addr =
     [topLeft @ repeated horizontal bannerWidth @ topRight,
      row (center (''goXpress v'' @ Version)),
      row (center (displayURL addr)),
      row (center []),
      row (bannerStats r pid),
      bottomLeft @ repeated horizontal bannerWidth @ bottomRight]"

definition printBanner :: "router \<Rightarrow> int \<Rightarrow> string \<Rightarrow> string" where
  "printBanner r pid addr =
     (if \<not> rtBanner r then [] else joinStrings [LF] (bannerLines r pid addr) @ [LF])"

section \<open>Counting routes\<close>

definition isHandle :: "setupCall \<Rightarrow> bool" where
  "isHandle op = (case op of SHandle m p hs \<Rightarrow> True | _ \<Rightarrow> False)"

lemma sum_update:
  "sum_list (map (\<lambda>t. g (snd t)) (AList.update k v al)) =
     sum_list (map (\<lambda>t. g (snd t)) al) - (case map_of al k of None \<Rightarrow> 0 | Some u \<Rightarrow> g u) + (g v :: int)"
  by (induction al) auto

lemma tree_count_le: "map_of (rtTrees r) m = Some n \<Longrightarrow> uint (npriority n) \<le> routeCount r"
  unfolding routeCount_def by (rule member_le_sum_list) (force dest: map_of_SomeD, auto)

lemma Handle_count:
  assumes "Handle m p hs r = Some (Inr r')" "routeCount r + 1 < 2 ^ 32"
  shows "routeCount r' = routeCount r + 1"
proof -
  let ?root = "case map_of (rtTrees r) m of None \<Rightarrow> emptyNode | Some n \<Rightarrow> n"
  obtain root where a: "addRoute ?root p (compose r hs) = Some (Inr root)"
    and t: "rtTrees r' = AList.update m root (rtTrees r)"
    using assms(1) by (auto simp: Handle_def Let_def split: if_splits option.splits sum.splits)
  have old: "(case map_of (rtTrees r) m of None \<Rightarrow> 0 | Some u \<Rightarrow> uint (npriority u)) = uint (npriority ?root)"
    by (simp add: emptyNode_def split: option.split)
  have "uint (npriority ?root) \<le> routeCount r"
    using tree_count_le [of r m] by (auto simp: emptyNode_def routeCount_def intro!: sum_list_nonneg split: option.split)
  then have "uint (npriority ?root + 1) = uint (npriority ?root) + 1"
    using assms(2) by (simp add: uint_word_ariths mod_pos_pos_trivial)
  then show ?thesis
    using npriority_addRoute [OF a] sum_update [of "\<lambda>n. uint (npriority n)" m root "rtTrees r"] old
    by (simp add: routeCount_def t)
qed

lemma routeCount_nonneg: "0 \<le> routeCount r"
  unfolding routeCount_def by (rule sum_list_nonneg) auto

lemma runSetup_count:
  "runSetup ops r = Some (Inr r') \<Longrightarrow> routeCount r + int (length (filter isHandle ops)) < 2 ^ 32 \<Longrightarrow>
     routeCount r' = routeCount r + int (length (filter isHandle ops))"
proof (induction ops r rule: runSetup.induct)
  case (2 hs ops r)
  then show ?case by (simp add: isHandle_def Use_def routeCount_def)
next
  case (3 m p hs ops r)
  then obtain r1 where r1: "Handle m p hs r = Some (Inr r1)" "runSetup ops r1 = Some (Inr r')"
    by (auto split: option.splits sum.splits)
  have "routeCount r1 = routeCount r + 1"
    using 3(3) Handle_count [OF r1(1)] by (simp add: isHandle_def)
  then show ?case using 3(1) [OF r1(1) refl r1(2)] 3(3) by (simp add: isHandle_def)
qed simp

section \<open>Widths\<close>

lemma runeCount_append: "ascii s \<Longrightarrow> runeCount (s @ t) = int (length s) + runeCount t"
  by (induction s) (simp_all add: runeCount_ascii)

lemma runeCount_length: "ascii s \<Longrightarrow> runeCount s = int (length s)"
  using runeCount_append [of s "[]"] by simp

text \<open>A three-byte sequence of the box-drawing block is one rune.\<close>

definition boxChar :: "string \<Rightarrow> bool" where
  "boxChar s \<longleftrightarrow> (\<exists>b c. s = [CHR 0xE2, b, c] \<and> byteIn 0x80 0xBF b \<and> byteIn 0x80 0xBF c)"

lemma runeCount_box: "boxChar s \<Longrightarrow> runeCount (s @ t) = 1 + runeCount t"
proof -
  assume "boxChar s"
  then obtain b c where s: "s = [CHR 0xE2, b, c]" "byteIn 0x80 0xBF b" "byteIn 0x80 0xBF c"
    by (auto simp: boxChar_def)
  have "runeWidth (CHR 0xE2 # b # c # t) = 3"
    using s(2,3) by (cases t) (simp_all add: byteIn_def)
  then show ?thesis by (subst runeCount.simps) (simp add: s(1))
qed

lemma boxChars: "boxChar topLeft" "boxChar topRight" "boxChar bottomLeft" "boxChar bottomRight" "boxChar horizontal" "boxChar vertical"
  by (simp_all add: boxChar_def topLeft_def topRight_def bottomLeft_def bottomRight_def horizontal_def vertical_def byteIn_def)

lemma runeCount_boxes: "boxChar s \<Longrightarrow> 0 \<le> n \<Longrightarrow> runeCount (repeated s n @ t) = n + runeCount t"
proof -
  assume b: "boxChar s" and n: "0 \<le> n"
  have "runeCount (concat (replicate k s) @ t) = int k + runeCount t" for k
    by (induction k) (simp_all add: runeCount_box [OF b])
  then show ?thesis using n by (simp add: repeated_def)
qed

lemma runeCount_boxLine:
  "boxChar a \<Longrightarrow> boxChar b \<Longrightarrow> runeCount (a @ repeated horizontal bannerWidth @ b) = bannerWidth + 2"
  using runeCount_box [of b "[]"] by (simp add: runeCount_box runeCount_boxes boxChars bannerWidth_def)

lemma runeCount_row: "ascii s \<Longrightarrow> runeCount (row s) = runeCount s + 2"
  using runeCount_box [of vertical "[]"] by (simp add: row_def runeCount_box runeCount_append runeCount_length boxChars)

lemma ascii_repeated: "ascii s \<Longrightarrow> ascii (repeated s n)"
  by (auto simp: repeated_def ascii_def list_all_iff)

lemma length_repeated: "length (repeated [c] n) = nat n"
proof -
  have "length (concat (replicate k [c])) = k" for k by (induction k) simp_all
  then show ?thesis by (simp add: repeated_def)
qed

lemma center_width:
  assumes "ascii s" "int (length s) \<le> bannerWidth"
  shows "ascii (center s) \<and> runeCount (center s) = bannerWidth"
proof -
  have a: "ascii (center s)"
    using assms(1) by (simp add: center_def Let_def ascii_repeated)
  have "int (length (center s)) = bannerWidth"
    using assms by (auto simp: center_def Let_def runeCount_length length_repeated)
  then show ?thesis using a by (simp add: runeCount_length)
qed

lemma field_width:
  assumes "ascii key" "ascii val" "int (length key) + int (length val) + 3 \<le> width"
  shows "ascii (field key val width) \<and> int (length (field key val width)) = width"
  using assms by (simp add: field_def Let_def runeCount_length length_repeated ascii_repeated)

lemma natDigits_ascii: "ascii (natDigits n)"
proof (induction n rule: natDigits.induct)
  case (1 n)
  then show ?case by (cases "n < 10") (simp_all add: natDigits.simps [of n])
qed

lemma itoa_ascii: "ascii (itoa i)"
  by (simp add: itoa_def natDigits_ascii)

lemma splitHost_ascii: "ascii s \<Longrightarrow> splitHost s = Some h \<Longrightarrow> ascii h"
  by (auto simp: splitHost_def split: option.splits if_splits)

lemma displayURL_ascii: "ascii addr \<Longrightarrow> ascii (displayURL addr)"
  using splitHost_ascii [of addr]
  by (auto simp: displayURL_def splitHostPort_def joinHostPort_def Let_def split: option.split)

text \<open>The addresses of the tests.\<close>

lemma displayURL_samples:
  "displayURL '':3200'' = ''http://127.0.0.1:3200''"
  "displayURL ''0.0.0.0:8080'' = ''http://127.0.0.1:8080''"
  "displayURL ''localhost:80'' = ''http://localhost:80''"
  "displayURL ''[::]:3200'' = ''http://127.0.0.1:3200''"
  "displayURL ''[::1]:3200'' = ''http://[::1]:3200''"
  "displayURL ''unix/socket'' = ''http://unix/socket''"
  by code_simp+

section \<open>Properties\<close>

text \<open>For an ASCII address whose URL fits, a route count of at most fourteen digits and a
  process id of at most twenty, the banner is six lines, each as wide as the box with its borders.\<close>

theorem banner_aligned:
  assumes "rtBanner r" "ascii addr" "length (displayURL addr) \<le> 54"
    and "length (itoa (routeCount r)) \<le> 14" "length (itoa pid) \<le> 20"
  shows "\<exists>ls. printBanner r pid addr = joinStrings [LF] ls @ [LF] \<and> length ls = 6 \<and>
    list_all (\<lambda>l. runeCount l = bannerWidth + 2) ls"
proof -
  have l: "runeCount (row s) = bannerWidth + 2" if "ascii s \<and> runeCount s = bannerWidth" for s
    using that runeCount_row by simp
  have h: "ascii (field ''Handlers'' (itoa (routeCount r)) 25) \<and> int (length (field ''Handlers'' (itoa (routeCount r)) 25)) = 25"
    by (rule field_width) (use assms(4) itoa_ascii in simp_all)
  have p: "ascii (field ''PID'' (itoa pid) 26) \<and> int (length (field ''PID'' (itoa pid) 26)) = 26"
    by (rule field_width) (use assms(5) itoa_ascii in simp_all)
  have "ascii (bannerStats r pid) \<and> runeCount (bannerStats r pid) = bannerWidth"
    using h p by (simp add: bannerStats_def bannerWidth_def Let_def runeCount_length)
  moreover have "ascii (center (displayURL addr)) \<and> runeCount (center (displayURL addr)) = bannerWidth"
    using center_width displayURL_ascii [OF assms(2)] assms(3) by (simp add: bannerWidth_def)
  moreover have "ascii (center (''goXpress v'' @ Version)) \<and> runeCount (center (''goXpress v'' @ Version)) = bannerWidth"
    by (rule center_width) (simp_all add: Version_def bannerWidth_def)
  moreover have "ascii (center []) \<and> runeCount (center []) = bannerWidth"
    by (rule center_width) (simp_all add: bannerWidth_def)
  ultimately have "list_all (\<lambda>l. runeCount l = bannerWidth + 2) (bannerLines r pid addr)"
    using l runeCount_boxLine boxChars by (simp add: bannerLines_def)
  then show ?thesis
    using assms(1) by (intro exI [of _ "bannerLines r pid addr"]) (simp add: printBanner_def bannerLines_def)
qed

theorem banner_aligned_witness:
  "\<exists>ls. printBanner (New sampleLib) 7 ''0.0.0.0:8080'' = joinStrings [LF] ls @ [LF] \<and> length ls = 6 \<and>
     list_all (\<lambda>l. runeCount l = bannerWidth + 2) ls"
proof (rule banner_aligned)
  show "rtBanner (New sampleLib)" by (simp add: New_def)
  show "ascii ''0.0.0.0:8080''" by code_simp
  show "length (displayURL ''0.0.0.0:8080'') \<le> 54" by (simp add: displayURL_samples)
  have "length (itoa 0) \<le> 14" by (simp add: itoa_def natDigits.simps)
  then show "length (itoa (routeCount (New sampleLib))) \<le> 14" by (simp add: routeCount_def New_def)
  show "length (itoa 7) \<le> 20" by (simp add: itoa_def natDigits.simps)
qed

text \<open>The number of routes the banner shows is the number of registrations of the
  set-up, over all methods, as long as it fits the 32 bits of a priority.\<close>

theorem banner_counts_routes:
  assumes "blank r0" "runSetup ops r0 = Some (Inr r)" "length (filter isHandle ops) < 2 ^ 32"
  shows "routeCount r = int (length (filter isHandle ops))"
proof -
  have z: "routeCount r0 = 0" using assms(1) by (simp add: routeCount_def blank_def)
  have "int (length (filter isHandle ops)) < 2 ^ 32" using assms(3) by simp
  then show ?thesis using runSetup_count [OF assms(2)] z by simp
qed

theorem banner_counts_routes_witness:
  "\<exists>r. runSetup sampleSetup (New sampleLib) = Some (Inr r) \<and> routeCount r = 3"
proof -
  obtain r where r: "runSetup sampleSetup (New sampleLib) = Some (Inr r)" by (rule sample_runs)
  have n: "length (filter isHandle sampleSetup) = 3" by code_simp
  have "routeCount r = int (length (filter isHandle sampleSetup))"
    by (rule banner_counts_routes [OF blank_New r]) (simp add: n)
  then show ?thesis using r n by simp
qed

end
