(* ===== verification/Server.thy ===== *)
theory Server
  imports Banner
begin

text \<open>
  Running the server (\<^verbatim>\<open>server.go\<close>, \<^verbatim>\<open>Listen\<close> of \<^verbatim>\<open>router.go\<close>).  \<^verbatim>\<open>serve\<close> starts a goroutine, waits for its
  result or the shutdown signal, and drains: a state machine with the goroutine, the channel \<^verbatim>\<open>errc\<close>, the
  signal and the function itself as its parts, whose steps interleave freely.  \<^verbatim>\<open>srv.Serve\<close> and
  \<^verbatim>\<open>srv.Shutdown\<close> belong to \<^verbatim>\<open>net/http\<close>: when they return, and what, is up to the environment, but as
  documented \<^verbatim>\<open>Serve\<close> returns \<^verbatim>\<open>ErrServerClosed\<close> only once \<^verbatim>\<open>Shutdown\<close> was called.
\<close>

section \<open>Configuration\<close>

definition second_ns :: int where
  "second_ns = 1000000000"

definition DefaultShutdownTimeout :: int where
  "DefaultShutdownTimeout = 10 * second_ns"

record httpServer =
  hsAddr :: string
  hsHandler :: router

definition rt_Server :: "string \<Rightarrow> router \<Rightarrow> httpServer" where
  "rt_Server addr r = \<lparr>hsAddr = addr, hsHandler = r\<rparr>"

definition drainTimeout :: "router \<Rightarrow> int" where
  "drainTimeout r = (if rtShutdownTimeout r \<le> 0 then DefaultShutdownTimeout else rtShutdownTimeout r)"

section \<open>The state machine of \<open>serve\<close>\<close>

definition errServerClosed :: goerr where
  "errServerClosed = PlainError ''http: Server closed''"

datatype goroutine = Serving | Sending "goerr option" | Ended

datatype servePhase = Selecting | Draining int | ServeReturned "goerr option"

record serveState =
  ssGoroutine :: goroutine
  ssErrc :: "goerr option option"
  ssSignal :: bool
  ssPhase :: servePhase

definition serveStart :: serveState where
  "serveStart = \<lparr>ssGoroutine = Serving, ssErrc = None, ssSignal = False, ssPhase = Selecting\<rparr>"

datatype serveEvent =
    EvServe goerr
  | EvSend
  | EvSignal
  | EvTakeError
  | EvTakeSignal
  | EvShutdown "goerr option"

text \<open>The goroutine's result: a closed server is no error.\<close>

definition serveResult :: "goerr \<Rightarrow> goerr option" where
  "serveResult err = (if errServerClosed \<in> set (causes err) then None else Some err)"

text \<open>One step; \<^verbatim>\<open>errc\<close> has room for one value, and a send waits for room.\<close>

inductive serveStep :: "router \<Rightarrow> serveState \<Rightarrow> serveEvent \<Rightarrow> serveState \<Rightarrow> bool" for r where
  serve_ends: "ssGoroutine s = Serving \<Longrightarrow> (errServerClosed \<in> set (causes err) \<longrightarrow> ssPhase s \<noteq> Selecting) \<Longrightarrow>
     serveStep r s (EvServe err) (s\<lparr>ssGoroutine := Sending (serveResult err)\<rparr>)"
| send: "ssGoroutine s = Sending e \<Longrightarrow> ssErrc s = None \<Longrightarrow>
     serveStep r s EvSend (s\<lparr>ssGoroutine := Ended, ssErrc := Some e\<rparr>)"
| signal: "serveStep r s EvSignal (s\<lparr>ssSignal := True\<rparr>)"
| take_error: "ssPhase s = Selecting \<Longrightarrow> ssErrc s = Some e \<Longrightarrow>
     serveStep r s EvTakeError (s\<lparr>ssErrc := None, ssPhase := ServeReturned e\<rparr>)"
| take_signal: "ssPhase s = Selecting \<Longrightarrow> ssSignal s \<Longrightarrow>
     serveStep r s EvTakeSignal (s\<lparr>ssPhase := Draining (drainTimeout r)\<rparr>)"
| shutdown: "ssPhase s = Draining t \<Longrightarrow>
     serveStep r s (EvShutdown e) (s\<lparr>ssPhase := ServeReturned e\<rparr>)"

inductive_cases serveStepE: "serveStep r s ev s'"

code_pred serveStep .

text \<open>Runs from the start, with their events, the latest first.\<close>

inductive serveRun :: "router \<Rightarrow> serveEvent list \<Rightarrow> serveState \<Rightarrow> bool" for r where
  start: "serveRun r [] serveStart"
| step: "serveRun r evs s \<Longrightarrow> serveStep r s ev s' \<Longrightarrow> serveRun r (ev # evs) s'"

text \<open>\<^verbatim>\<open>ListenAndServe\<close> and \<^verbatim>\<open>Listen\<close>: what goes to standard output, and how they go on; \<open>listen\<close> is \<^verbatim>\<open>net.Listen\<close>
  with the bound address, \<open>httpListen\<close> is \<^verbatim>\<open>http.ListenAndServe\<close>.\<close>

definition serve :: "int \<Rightarrow> router \<Rightarrow> string \<Rightarrow> string \<times> serveState" where
  "serve pid r bound = (printBanner r pid bound, serveStart)"

definition ListenAndServe :: "(string \<Rightarrow> goerr + string) \<Rightarrow> int \<Rightarrow> string \<Rightarrow> router \<Rightarrow> goerr + string \<times> serveState" where
  "ListenAndServe listen pid addr r = map_sum id (serve pid r) (listen addr)"

definition Listen :: "(string \<Rightarrow> router \<Rightarrow> goerr) \<Rightarrow> int \<Rightarrow> string \<Rightarrow> router \<Rightarrow> string \<times> goerr" where
  "Listen httpListen pid addr r = (printBanner r pid addr, httpListen addr r)"

section \<open>Invariants\<close>

text \<open>What the state says about the events so far.\<close>

definition serveInv :: "router \<Rightarrow> serveEvent list \<Rightarrow> serveState \<Rightarrow> bool" where
  "serveInv r evs s \<longleftrightarrow>
     (ssGoroutine s \<noteq> Ended \<longrightarrow> ssErrc s = None) \<and>
     (ssSignal s \<longrightarrow> EvSignal \<in> set evs) \<and>
     (\<forall>e. ssGoroutine s = Sending e \<longrightarrow> ssPhase s = Selecting \<longrightarrow> (\<exists>err. e = Some err \<and> EvServe err \<in> set evs)) \<and>
     (\<forall>e. ssErrc s = Some e \<longrightarrow> ssPhase s = Selecting \<longrightarrow> (\<exists>err. e = Some err \<and> EvServe err \<in> set evs)) \<and>
     (case ssPhase s of
        Selecting \<Rightarrow> True
      | Draining t \<Rightarrow> EvSignal \<in> set evs \<and> t = drainTimeout r
      | ServeReturned res \<Rightarrow>
          (\<exists>err. res = Some err \<and> EvServe err \<in> set evs) \<or> (EvSignal \<in> set evs \<and> EvShutdown res \<in> set evs))"

lemma serveInv_step: "serveInv r evs s \<Longrightarrow> serveStep r s ev s' \<Longrightarrow> serveInv r (ev # evs) s'"
  by (erule serveStepE) (auto simp: serveInv_def serveResult_def split: servePhase.splits if_splits)

lemma serveRun_inv: "serveRun r evs s \<Longrightarrow> serveInv r evs s"
proof (induction rule: serveRun.induct)
  case start
  show ?case by (simp add: serveInv_def serveStart_def)
next
  case (step evs s ev s')
  from serveInv_step [OF step(3,2)] show ?case .
qed

lemma drainTimeout_pos: "0 < drainTimeout r"
  by (simp add: drainTimeout_def DefaultShutdownTimeout_def second_ns_def)

text \<open>A run that drains, one in which the server fails, and one in which the failure and the signal meet:
  \<^verbatim>\<open>select\<close> may take the signal, and the failure is dropped.\<close>

lemma drain_from:
  assumes "serveRun r evs s" "ssPhase s = Selecting"
  obtains s' where "serveRun r (EvShutdown None # EvTakeSignal # EvSignal # evs) s'" "ssPhase s' = ServeReturned None"
proof -
  have "serveRun r (EvSignal # evs) (s\<lparr>ssSignal := True\<rparr>)"
    by (rule serveRun.step [OF assms(1) serveStep.signal])
  then have "serveRun r (EvTakeSignal # EvSignal # evs) (s\<lparr>ssSignal := True, ssPhase := Draining (drainTimeout r)\<rparr>)"
    by (rule serveRun.step) (use assms(2) serveStep.take_signal [of "s\<lparr>ssSignal := True\<rparr>"] in simp)
  from serveRun.step [OF this serveStep.shutdown [where e = None, of _ "drainTimeout r"]]
  have "serveRun r (EvShutdown None # EvTakeSignal # EvSignal # evs) (s\<lparr>ssSignal := True, ssPhase := ServeReturned None\<rparr>)"
    by simp
  then show ?thesis by (rule that) simp
qed

lemma drained_run:
  obtains s where "serveRun r [EvShutdown None, EvTakeSignal, EvSignal] s" "ssPhase s = ServeReturned None"
  by (rule drain_from [OF serveRun.start]) (simp_all add: serveStart_def)

lemma failing_run:
  assumes "errServerClosed \<notin> set (causes err)"
  obtains s where "serveRun r [EvServe err] s" "ssGoroutine s = Sending (Some err)" "ssPhase s = Selecting" "ssErrc s = None"
  using serveRun.step [OF serveRun.start serveStep.serve_ends, of err r] assms
  by (simp add: serveStart_def serveResult_def)

lemma failure_dropped:
  assumes "errServerClosed \<notin> set (causes err)"
  obtains s where "serveRun r [EvShutdown None, EvTakeSignal, EvSignal, EvSend, EvServe err] s"
    "ssPhase s = ServeReturned None"
proof -
  obtain s where s: "serveRun r [EvServe err] s" "ssGoroutine s = Sending (Some err)" "ssPhase s = Selecting" "ssErrc s = None"
    by (rule failing_run [OF assms])
  have "serveRun r [EvSend, EvServe err] (s\<lparr>ssGoroutine := Ended, ssErrc := Some (Some err)\<rparr>)"
    by (rule serveRun.step [OF s(1) serveStep.send [OF s(2,4)]])
  then show ?thesis by (rule drain_from) (use s(3) that in simp_all)
qed

section \<open>Properties\<close>

text \<open>C25. \<open>serve\<close> returns nil only after a shutdown signal and a shutdown that drained
  without an error; any other return is an error of \<^verbatim>\<open>Serve\<close> or the error of the shutdown, whose
  time limit is positive.\<close>

theorem serve_returns_clean:
  assumes "serveRun r evs s" "ssPhase s = ServeReturned res"
  shows "(res = None \<longrightarrow> EvSignal \<in> set evs \<and> EvShutdown None \<in> set evs) \<and>
    (\<forall>err. res = Some err \<longrightarrow> EvServe err \<in> set evs \<or> EvShutdown (Some err) \<in> set evs) \<and> 0 < drainTimeout r"
  using serveRun_inv [OF assms(1)] assms(2) drainTimeout_pos [of r] by (auto simp: serveInv_def)

theorem serve_returns_clean_witness:
  "\<forall>r. \<exists>s. serveRun r [EvShutdown None, EvTakeSignal, EvSignal] s \<and> ssPhase s = ServeReturned None \<and> 0 < drainTimeout r"
proof
  fix r
  obtain s where s: "serveRun r [EvShutdown None, EvTakeSignal, EvSignal] s" "ssPhase s = ServeReturned None"
    by (rule drained_run)
  from serve_returns_clean [OF s] s show
    "\<exists>s. serveRun r [EvShutdown None, EvTakeSignal, EvSignal] s \<and> ssPhase s = ServeReturned None \<and> 0 < drainTimeout r"
    by blast
qed

text \<open>C26. The goroutine of \<open>serve\<close> is never stuck in its send, whatever the function did
  before or whether it has returned: in every reachable state in which it wants to send, it can.\<close>

theorem goroutine_never_blocks:
  assumes "serveRun r evs s" "ssGoroutine s = Sending e"
  shows "\<exists>s'. serveStep r s EvSend s' \<and> ssGoroutine s' = Ended \<and> ssPhase s' = ssPhase s"
  using serveRun_inv [OF assms(1)] assms(2) by (auto simp: serveInv_def intro!: exI serveStep.send)

theorem goroutine_never_blocks_witness:
  "\<forall>r. \<exists>s s'. serveRun r [EvServe (PlainError ''accept'')] s \<and> serveStep r s EvSend s' \<and> ssGoroutine s' = Ended"
proof
  fix r
  obtain s where s: "serveRun r [EvServe (PlainError ''accept'')] s"
    "ssGoroutine s = Sending (Some (PlainError ''accept''))"
    by (rule failing_run [of "PlainError ''accept''" r]) (simp add: errServerClosed_def)
  from goroutine_never_blocks [OF s] s(1) show
    "\<exists>s s'. serveRun r [EvServe (PlainError ''accept'')] s \<and> serveStep r s EvSend s' \<and> ssGoroutine s' = Ended"
    by blast
qed

end
