(* ===== verification/Examples.thy ===== *)
theory Examples
  imports Streaming BookApi Server
begin

text \<open>
  The programs \<^verbatim>\<open>examples/basic\<close>, \<^verbatim>\<open>examples/graceful\<close> and the set-up of \<^verbatim>\<open>examples/streaming\<close>, up to the
  call that serves.  The handlers of \<open>Streaming\<close> that run while a client stays are given by what they
  do to the context; encoders and the logger are arguments.
\<close>

section \<open>Programs\<close>

definition replyWith :: "(ctx \<Rightarrow> goerr option \<times> ctx) \<Rightarrow> handler" where
  "replyWith f = Effect (\<lambda>c. snd (f c)) (\<lambda>c. Return (fst (f c)))"

definition textReply :: "(string \<Rightarrow> anyval list \<Rightarrow> string) \<Rightarrow> string \<Rightarrow> handler" where
  "textReply sprintf msg = replyWith (cx_String sprintf 200 msg [])"

definition helloHandler :: "((string \<times> string) list \<Rightarrow> encoded) \<Rightarrow> handler" where
  "helloHandler enc = replyWith (\<lambda>c. cx_JSON 200 (enc [(''hello'', cx_Param ''name'' c)]) c)"

definition basicMain ::
    "stdlib \<Rightarrow> (string \<Rightarrow> anyval list \<Rightarrow> string) \<Rightarrow> ((string \<times> string) list \<Rightarrow> encoded) \<Rightarrow> (gopanic + router) option" where
  "basicMain lib sprintf enc =
     thenDo (rt_Get ''/'' [textReply sprintf ''Welcome to goXpress!''] (New lib))
       (\<lambda>r. rt_Get ''/hello/:name'' [helloHandler enc] r)"

text \<open>Sleeping in \<^verbatim>\<open>/slow\<close> does nothing to the context.\<close>

definition gracefulMain ::
    "stdlib \<Rightarrow> (string \<Rightarrow> anyval list \<Rightarrow> string) \<Rightarrow> handler \<Rightarrow> (gopanic + router) option" where
  "gracefulMain lib sprintf logger =
     (let app = (Use [logger] (New lib))\<lparr>rtShutdownTimeout := 15 * 1000000000\<rparr>
      in thenDo (rt_Get ''/'' [textReply sprintf ''ok''] app)
           (\<lambda>r. rt_Get ''/slow'' [textReply sprintf ''slow done''] r))"

definition streamingMain ::
    "stdlib \<Rightarrow> (string \<Rightarrow> anyval list \<Rightarrow> string) \<Rightarrow> handler \<Rightarrow> handler \<Rightarrow> (gopanic + router) option" where
  "streamingMain lib sprintf events echo =
     thenDo (rt_Get ''/events'' [events] (New lib))
       (\<lambda>r1. thenDo (rt_Get ''/ws'' [echo] r1)
         (\<lambda>r2. rt_Get ''/'' [textReply sprintf ''GET /events for SSE, ws://.../ws for WebSocket echo''] r2))"

section \<open>What they serve\<close>

lemma basicMain_calls:
  "basicMain lib sprintf enc =
     runSetup [SHandle ''GET'' ''/'' [textReply sprintf ''Welcome to goXpress!''],
       SHandle ''GET'' ''/hello/:name'' [helloHandler enc]] (New lib)"
  by (auto simp: basicMain_def rt_Get_def split: option.split sum.split)

lemma basic_pats: "pat ''/'' = [Lit CHR ''/'']" "pat ''/hello/:name'' = map Lit ''/hello/'' @ [Par ''name'']"
  by code_simp+

lemma basic_good:
  "goodSetup [SHandle ''GET'' ''/'' [h1], SHandle ''GET'' ''/hello/:name'' [h2]]"
proof -
  have "readable ''/''" "readable ''/hello/:name''" by code_simp+
  moreover have "compat (pat ''/'') (pat ''/hello/:name'')" by code_simp
  ultimately show ?thesis by (simp add: goodSetup_def)
qed

lemma runChain_reply:
  "f (cctx s) = (None, c) \<Longrightarrow> runChain lib r [replyWith f] s = Some (None, s\<lparr>cctx := c, cindex := 1\<rparr>)"
  by (simp add: runChain_def replyWith_def Next_def NextFuel_def advance_def numeral_2_eq_2)

lemma hello_scan:
  assumes "name \<noteq> []" "CHR ''/'' \<notin> set name"
  shows "scan [(''/'', h1), (''/hello/:name'', h2)] (''/hello/'' @ name) = Some (h2, [\<lparr>Key = ''name'', Value = name\<rparr>])"
proof -
  have "\<forall>c\<in>set name. notSlash c" using assms(2) by auto
  then have "takeWhile notSlash name = name" "dropWhile notSlash name = []"
    by (simp_all add: takeWhile_eq_all_conv dropWhile_eq_Nil_conv)
  then show ?thesis
    using matches_lits [of "''/hello/''" "[Par ''name'']" "''/hello/'' @ name"] assms(1) by (simp add: basic_pats)
qed

lemma cx_JSON_fresh:
  assumes "liveStream c" "\<not> cxWritten c" "wBody (rwUnder (cxWriter c)) = []"
  shows "\<exists>c'. cx_JSON 200 (body, None) c = (None, c') \<and> wBody (rwUnder (cxWriter c')) = body \<and>
    map_option fst (wSent (rwUnder (cxWriter c'))) = Some 200"
  using assms
  by (auto simp: liveStream_def cxWritten_def rw_Written_def cx_JSON_def cxEncode_def cxWrite_def cxWriteHeader_def
      rw_WriteHeader_def rw_Write_def std_Write_def std_WriteHeader_def informational_def bodyAllowed_def noStatus_def
      mapHeader_def Let_def)

text \<open>The basic program end to end: a GET for \<^verbatim>\<open>/hello/\<close> and a name is answered with 200 and the encoding of
  a greeting for that name, by way of the tree, the parameters, the chain and the writer.\<close>

theorem hello_is_answered:
  assumes "basicMain lib sprintf enc = Some (Inr r)" "enc [(''hello'', name)] = (body, None)"
    and "reqMethod (cxRequest (cctx s)) = ''GET''" "reqPath (cxRequest (cctx s)) = ''/hello/'' @ name"
    and "name \<noteq> []" "CHR ''/'' \<notin> set name" "cxParams (cctx s) = []"
    and "liveStream (cctx s)" "\<not> cxWritten (cctx s)" "wBody (rwUnder (cxWriter (cctx s))) = []"
  shows "\<exists>s'. dispatch lib r s = Some (None, s') \<and>
    map_option fst (wSent (rwUnder (cxWriter (cctx s')))) = Some 200 \<and> wBody (rwUnder (cxWriter (cctx s'))) = body"
proof -
  let ?ps = "[\<lparr>Key = ''name'', Value = name\<rparr>]" and ?c = "(cctx s)\<lparr>cxParams := [\<lparr>Key = ''name'', Value = name\<rparr>]\<rparr>"
  have d: "dispatch lib r s = runChain lib r [helloHandler enc] (setParams ?ps s)"
    by (rule registered_chain [OF basic_good blank_New assms(1) [unfolded basicMain_calls] assms(7)])
      (use hello_scan [OF assms(5,6)] in \<open>simp add: assms(3,4)\<close>)
  have "liveStream ?c" "\<not> cxWritten ?c" "wBody (rwUnder (cxWriter ?c)) = []"
    using assms(8-10) by (simp_all add: liveStream_def cxWritten_def)
  from cx_JSON_fresh [OF this, of body] obtain c' where
    c': "cx_JSON 200 (body, None) ?c = (None, c')" "wBody (rwUnder (cxWriter c')) = body"
      "map_option fst (wSent (rwUnder (cxWriter c'))) = Some 200" by blast
  have "cx_Param ''name'' ?c = name" by (simp add: cx_Param_def Params_ByName_def)
  then have "runChain lib r [helloHandler enc] (setParams ?ps s) =
      Some (None, (setParams ?ps s)\<lparr>cctx := c', cindex := 1\<rparr>)"
    unfolding helloHandler_def using c'(1) assms(2) by (intro runChain_reply) (simp add: setParams_def)
  then show ?thesis using d c'(2,3) by simp
qed

theorem hello_is_answered_witness:
  "\<exists>r s'. basicMain sampleLib (\<lambda>f as. f) (\<lambda>kvs. (concat (map snd kvs), None)) = Some (Inr r) \<and>
     dispatch sampleLib r (freshState ''GET'' ''/hello/bob'') = Some (None, s') \<and>
     wBody (rwUnder (cxWriter (cctx s'))) = ''bob''"
proof -
  obtain r where r: "basicMain sampleLib (\<lambda>f as. f) (\<lambda>kvs. (concat (map snd kvs), None)) = Some (Inr r)"
    using setup_runs [OF basic_good blank_New] unfolding basicMain_calls by blast
  have "liveStream (cctx (freshState ''GET'' ''/hello/bob''))" "\<not> cxWritten (cctx (freshState ''GET'' ''/hello/bob''))"
    "wBody (rwUnder (cxWriter (cctx (freshState ''GET'' ''/hello/bob'')))) = []"
    by (simp_all add: liveStream_def freshState_def rw_reset_def freshWriter_def cxWritten_def rw_Written_def)
  from hello_is_answered [OF r, of "''bob''" "''bob''", OF _ _ _ _ _ _ this] r show ?thesis
    by (auto simp: freshState_simps)
qed

text \<open>The routes of the streaming program do not conflict.\<close>

lemma streamingMain_runs: "\<exists>r. streamingMain lib sprintf events echo = Some (Inr r)"
proof -
  let ?ops = "[SHandle ''GET'' ''/events'' [events], SHandle ''GET'' ''/ws'' [echo],
      SHandle ''GET'' ''/'' [textReply sprintf ''GET /events for SSE, ws://.../ws for WebSocket echo'']]"
  have "readable ''/events''" "readable ''/ws''" "readable ''/''" by code_simp+
  moreover have "compat (pat ''/events'') (pat ''/ws'')" "compat (pat ''/events'') (pat ''/'')"
    "compat (pat ''/ws'') (pat ''/'')" by code_simp+
  ultimately have "goodSetup ?ops" by (simp add: goodSetup_def)
  then have "\<exists>r. runSetup ?ops (New lib) = Some (Inr r)" using setup_runs [OF _ blank_New] by blast
  moreover have "streamingMain lib sprintf events echo = runSetup ?ops (New lib)"
    by (auto simp: streamingMain_def rt_Get_def split: option.split sum.split)
  ultimately show ?thesis by simp
qed

text \<open>The graceful program gives its requests fifteen seconds to drain.\<close>

lemma gracefulMain_drains: "gracefulMain lib sprintf logger = Some (Inr r) \<Longrightarrow> drainTimeout r = 15 * 1000000000"
proof -
  have keep: "rtShutdownTimeout r' = rtShutdownTimeout r0" if "Handle m p hs r0 = Some (Inr r')" for m p hs r0 r'
    using that by (auto simp: Handle_def Let_def split: if_splits option.splits sum.splits)
  have bind: "\<exists>r1. x = Some (Inr r1) \<and> f r1 = Some (Inr r2)" if "thenDo x f = Some (Inr r2)" for x f r2
    using that by (cases x; cases "the x") auto
  assume "gracefulMain lib sprintf logger = Some (Inr r)"
  then show ?thesis
    by (auto simp: gracefulMain_def rt_Get_def Let_def drainTimeout_def Use_def dest!: bind keep)
qed

end
