(* ===== verification/Mutex.thy ===== *)
theory Mutex
  imports Prelude
begin

text \<open>
  Critical sections under a \<^verbatim>\<open>sync.Mutex\<close>.  A section is a sequence of small steps on the shared state; a
  step depends on what the section has left to do, which is its local state.  Any number of goroutines
  enter sections in any order, and their steps interleave as the lock lets them: a goroutine waits for
  the lock when it enters, and \<^verbatim>\<open>defer Unlock\<close> gives it back with the last step.

  The locale \<open>mutex_client\<close> is the contract of a client: the steps of a section, run without
  interruption, end and amount to one atomic operation.  Then every interleaving amounts to these
  operations one after the other, in the order in which the sections end.
\<close>

section \<open>States and steps\<close>

datatype ('op, 'l) lockPhase = Outside | Inside 'op 'l

record ('op, 'l, 's, 'r) lockState =
  lkShared :: 's
  lkOwner :: "nat option"
  lkPhase :: "nat \<Rightarrow> ('op, 'l) lockPhase"
  lkLog :: "(nat \<times> 'op \<times> 'r) list"

text \<open>\<open>entry\<close> is the local state in which a section starts; \<open>micro\<close> is a step, which goes on with a new
  local state or ends with a result.\<close>

inductive lockStep ::
    "('op \<Rightarrow> 'l) \<Rightarrow> ('l \<Rightarrow> 's \<Rightarrow> ('l + 'r) \<times> 's) \<Rightarrow> ('op, 'l, 's, 'r) lockState \<Rightarrow> ('op, 'l, 's, 'r) lockState \<Rightarrow> bool"
  for entry micro where
  enter: "lkOwner st = None \<Longrightarrow> lkPhase st i = Outside \<Longrightarrow>
     lockStep entry micro st (st\<lparr>lkOwner := Some i, lkPhase := (lkPhase st)(i := Inside op (entry op))\<rparr>)"
| inner: "lkPhase st i = Inside op l \<Longrightarrow> micro l (lkShared st) = (Inl l', s) \<Longrightarrow>
     lockStep entry micro st (st\<lparr>lkShared := s, lkPhase := (lkPhase st)(i := Inside op l')\<rparr>)"
| leave: "lkPhase st i = Inside op l \<Longrightarrow> micro l (lkShared st) = (Inr res, s) \<Longrightarrow>
     lockStep entry micro st
       (st\<lparr>lkShared := s, lkOwner := None, lkPhase := (lkPhase st)(i := Outside), lkLog := lkLog st @ [(i, op, res)]\<rparr>)"

definition lockStart :: "'s \<Rightarrow> ('op, 'l, 's, 'r) lockState" where
  "lockStart s = \<lparr>lkShared = s, lkOwner = None, lkPhase = (\<lambda>i. Outside), lkLog = []\<rparr>"

inductive lockReach ::
    "('op \<Rightarrow> 'l) \<Rightarrow> ('l \<Rightarrow> 's \<Rightarrow> ('l + 'r) \<times> 's) \<Rightarrow> 's \<Rightarrow> ('op, 'l, 's, 'r) lockState \<Rightarrow> bool"
  for entry micro s0 where
  start: "lockReach entry micro s0 (lockStart s0)"
| step: "lockReach entry micro s0 st \<Longrightarrow> lockStep entry micro st st' \<Longrightarrow> lockReach entry micro s0 st'"

abbreviation opsOf :: "(nat \<times> 'op \<times> 'r) list \<Rightarrow> 'op list" where
  "opsOf log \<equiv> map (\<lambda>e. fst (snd e)) log"

abbreviation resultsOf :: "(nat \<times> 'op \<times> 'r) list \<Rightarrow> 'r list" where
  "resultsOf log \<equiv> map (\<lambda>e. snd (snd e)) log"

lemma opsOf_calls:
  assumes "map (\<lambda>e. (fst e, fst (snd e))) log = calls"
  shows "opsOf log = map snd calls" "length log = length calls"
  using assms by auto

section \<open>One after the other\<close>

fun serialRun :: "('op \<Rightarrow> 's \<Rightarrow> 'r \<times> 's) \<Rightarrow> 'op list \<Rightarrow> 's \<Rightarrow> 'r list \<times> 's" where
  "serialRun atomic [] s = ([], s)"
| "serialRun atomic (op # ops) s =
     (case atomic op s of (r, s1) \<Rightarrow> (case serialRun atomic ops s1 of (rs, s2) \<Rightarrow> (r # rs, s2)))"

lemma serialRun_snoc:
  "serialRun atomic (ops @ [op]) s =
     (fst (serialRun atomic ops s) @ [fst (atomic op (snd (serialRun atomic ops s)))],
      snd (atomic op (snd (serialRun atomic ops s))))"
  by (induction ops arbitrary: s) (simp_all split: prod.splits)

text \<open>The steps of a section that nobody interrupts.\<close>

inductive undisturbed :: "('l \<Rightarrow> 's \<Rightarrow> ('l + 'r) \<times> 's) \<Rightarrow> 'l \<Rightarrow> 's \<Rightarrow> 'l \<Rightarrow> 's \<Rightarrow> bool" for micro where
  here: "undisturbed micro l s l s"
| more: "undisturbed micro l s l1 s1 \<Longrightarrow> micro l1 s1 = (Inl l2, s2) \<Longrightarrow> undisturbed micro l s l2 s2"

section \<open>The interface\<close>

text \<open>The invariant: a section is open only in the hands of the owner of the lock, the log is a serial
  run, and the shared state is where that run has led, but for the open section.\<close>

definition lockInv ::
    "('op \<Rightarrow> 'l) \<Rightarrow> ('l \<Rightarrow> 's \<Rightarrow> ('l + 'r) \<times> 's) \<Rightarrow> ('op \<Rightarrow> 's \<Rightarrow> 'r \<times> 's) \<Rightarrow> 's \<Rightarrow>
     ('op, 'l, 's, 'r) lockState \<Rightarrow> bool" where
  "lockInv entry micro atomic s0 st \<longleftrightarrow>
     (\<forall>i. lkPhase st i \<noteq> Outside \<longleftrightarrow> lkOwner st = Some i) \<and>
     resultsOf (lkLog st) = fst (serialRun atomic (opsOf (lkLog st)) s0) \<and>
     (lkOwner st = None \<longrightarrow> lkShared st = snd (serialRun atomic (opsOf (lkLog st)) s0)) \<and>
     (\<forall>i op l. lkPhase st i = Inside op l \<longrightarrow>
        undisturbed micro (entry op) (snd (serialRun atomic (opsOf (lkLog st)) s0)) l (lkShared st))"

locale mutex_client =
  fixes entry :: "'op \<Rightarrow> 'l"
    and micro :: "'l \<Rightarrow> 's \<Rightarrow> ('l + 'r) \<times> 's"
    and atomic :: "'op \<Rightarrow> 's \<Rightarrow> 'r \<times> 's"
  assumes ends_as: "undisturbed micro (entry op) s l s1 \<Longrightarrow> micro l s1 = (Inr res, s2) \<Longrightarrow> atomic op s = (res, s2)"
    and can_end: "undisturbed micro (entry op) s l s1 \<Longrightarrow>
       \<exists>l1 s2 res s3. undisturbed micro l s1 l1 s2 \<and> micro l1 s2 = (Inr res, s3)"
begin

lemma inv_enter:
  assumes "lockInv entry micro atomic s0 st" "lkOwner st = None"
  shows "lockInv entry micro atomic s0 (st\<lparr>lkOwner := Some i, lkPhase := (lkPhase st)(i := Inside op (entry op))\<rparr>)"
  using assms by (auto simp: lockInv_def intro: undisturbed.here)

lemma inv_inner:
  assumes inv: "lockInv entry micro atomic s0 st"
    and ph: "lkPhase st i = Inside op l" and m: "micro l (lkShared st) = (Inl l', s)"
  shows "lockInv entry micro atomic s0 (st\<lparr>lkShared := s, lkPhase := (lkPhase st)(i := Inside op l')\<rparr>)"
proof -
  have own: "lkOwner st = Some i" using inv ph by (auto simp: lockInv_def)
  then have "lkPhase st j = Outside" if "j \<noteq> i" for j using inv that unfolding lockInv_def by (metis option.inject)
  moreover have "undisturbed micro (entry op) (snd (serialRun atomic (opsOf (lkLog st)) s0)) l' s"
    using inv ph m unfolding lockInv_def by (metis undisturbed.more)
  ultimately show ?thesis
    using inv own by (auto simp: lockInv_def)
qed

lemma inv_leave:
  assumes inv: "lockInv entry micro atomic s0 st"
    and ph: "lkPhase st i = Inside op l" and m: "micro l (lkShared st) = (Inr res, s)"
  shows "lockInv entry micro atomic s0
    (st\<lparr>lkShared := s, lkOwner := None, lkPhase := (lkPhase st)(i := Outside), lkLog := lkLog st @ [(i, op, res)]\<rparr>)"
proof -
  have own: "lkOwner st = Some i" using inv ph by (auto simp: lockInv_def)
  then have out: "lkPhase st j = Outside" if "j \<noteq> i" for j using inv that unfolding lockInv_def by (metis option.inject)
  have "undisturbed micro (entry op) (snd (serialRun atomic (opsOf (lkLog st)) s0)) l (lkShared st)"
    using inv ph unfolding lockInv_def by metis
  then have "atomic op (snd (serialRun atomic (opsOf (lkLog st)) s0)) = (res, s)" by (rule ends_as [OF _ m])
  then show ?thesis
    using inv out by (auto simp: lockInv_def serialRun_snoc)
qed

lemma inv_step:
  "lockInv entry micro atomic s0 st \<Longrightarrow> lockStep entry micro st st' \<Longrightarrow> lockInv entry micro atomic s0 st'"
  by (erule lockStep.cases) (simp_all add: inv_enter inv_inner inv_leave)

lemma reach_inv: "lockReach entry micro s0 st \<Longrightarrow> lockInv entry micro atomic s0 st"
proof (induction rule: lockReach.induct)
  case start
  show ?case by (simp add: lockInv_def lockStart_def)
next
  case (step st st')
  then show ?case by (blast intro: inv_step)
qed

lemma exclusive:
  assumes "lockReach entry micro s0 st" "lkPhase st i \<noteq> Outside" "lkPhase st j \<noteq> Outside"
  shows "i = j"
  using reach_inv [OF assms(1)] assms(2,3) unfolding lockInv_def by (metis option.inject)

lemma serial:
  assumes "lockReach entry micro s0 st"
  shows "resultsOf (lkLog st) = fst (serialRun atomic (opsOf (lkLog st)) s0)"
    and "lkOwner st = None \<Longrightarrow> lkShared st = snd (serialRun atomic (opsOf (lkLog st)) s0)"
  using reach_inv [OF assms] by (simp_all add: lockInv_def)

text \<open>Nobody is stuck: the owner can always go on to the end of its section, and gives the lock back.\<close>

lemma undisturbed_steps:
  assumes "undisturbed micro l s l1 s1" "lockReach entry micro s0 st" "lkPhase st i = Inside op l" "lkShared st = s"
  shows "lockReach entry micro s0 (st\<lparr>lkShared := s1, lkPhase := (lkPhase st)(i := Inside op l1)\<rparr>)"
  using assms
proof (induction rule: undisturbed.induct)
  case (here l s)
  then have "st\<lparr>lkShared := s, lkPhase := (lkPhase st)(i := Inside op l)\<rparr> = st" by (auto simp: fun_upd_idem)
  with here.prems(1) show ?case by (simp only:)
next
  case (more l s l1 s1 l2 s2)
  let ?st = "st\<lparr>lkShared := s1, lkPhase := (lkPhase st)(i := Inside op l1)\<rparr>"
  let ?st' = "?st\<lparr>lkShared := s2, lkPhase := (lkPhase ?st)(i := Inside op l2)\<rparr>"
  have e: "?st' = st\<lparr>lkShared := s2, lkPhase := (lkPhase st)(i := Inside op l2)\<rparr>" by simp
  have "lockStep entry micro ?st ?st'" by (rule lockStep.inner [where l = l1]) (simp_all add: more.hyps)
  then have "lockReach entry micro s0 ?st'" by (rule lockReach.step [OF more.IH [OF more.prems]])
  then show ?case by (simp only: e)
qed

lemma owner_finishes:
  assumes reach: "lockReach entry micro s0 st" and own: "lkOwner st = Some i"
  shows "\<exists>st' op res. lockReach entry micro s0 st' \<and> lkOwner st' = None \<and> lkLog st' = lkLog st @ [(i, op, res)]"
proof -
  have inv: "lockInv entry micro atomic s0 st" by (rule reach_inv [OF reach])
  then obtain op l where ph: "lkPhase st i = Inside op l"
    using own by (cases "lkPhase st i") (auto simp: lockInv_def)
  then have "undisturbed micro (entry op) (snd (serialRun atomic (opsOf (lkLog st)) s0)) l (lkShared st)"
    using inv unfolding lockInv_def by metis
  then obtain l1 s2 res s3 where e: "undisturbed micro l (lkShared st) l1 s2" "micro l1 s2 = (Inr res, s3)"
    using can_end by blast
  let ?st = "st\<lparr>lkShared := s2, lkPhase := (lkPhase st)(i := Inside op l1)\<rparr>"
  let ?st' = "?st\<lparr>lkShared := s3, lkOwner := None, lkPhase := (lkPhase ?st)(i := Outside),
    lkLog := lkLog ?st @ [(i, op, res)]\<rparr>"
  have "lockStep entry micro ?st ?st'"
    by (rule lockStep.leave [where l = l1]) (simp_all add: e(2))
  then have "lockReach entry micro s0 ?st'"
    by (rule lockReach.step [OF undisturbed_steps [OF e(1) reach ph refl]])
  moreover have "lkOwner ?st' = None" "lkLog ?st' = lkLog st @ [(i, op, res)]" by simp_all
  ultimately show ?thesis by blast
qed

lemma whole_section:
  assumes "lockReach entry micro s0 st" "lkOwner st = None" "lkPhase st i = Outside"
    and "atomic op (lkShared st) = (res, s)"
  shows "lockReach entry micro s0 (st\<lparr>lkShared := s, lkLog := lkLog st @ [(i, op, res)]\<rparr>)"
proof -
  let ?in = "st\<lparr>lkOwner := Some i, lkPhase := (lkPhase st)(i := Inside op (entry op))\<rparr>"
  have r: "lockReach entry micro s0 ?in"
    by (rule lockReach.step [OF assms(1)]) (rule lockStep.enter [OF assms(2,3)])
  obtain l1 s2 res' s3 where
    e: "undisturbed micro (entry op) (lkShared st) l1 s2" "micro l1 s2 = (Inr res', s3)"
    using can_end [OF undisturbed.here] by blast
  then have res: "res' = res" "s3 = s" using ends_as assms(4) by force+
  let ?mid = "?in\<lparr>lkShared := s2, lkPhase := (lkPhase ?in)(i := Inside op l1)\<rparr>"
  have "lockReach entry micro s0 ?mid" by (rule undisturbed_steps [OF e(1) r]) simp_all
  moreover let ?out = "?mid\<lparr>lkShared := s3, lkOwner := None, lkPhase := (lkPhase ?mid)(i := Outside),
    lkLog := lkLog ?mid @ [(i, op, res')]\<rparr>"
  have "lockStep entry micro ?mid ?out" by (rule lockStep.leave [where l = l1]) (simp_all add: e(2))
  ultimately have "lockReach entry micro s0 ?out" by (rule lockReach.step)
  moreover have "?out = st\<lparr>lkShared := s, lkLog := lkLog st @ [(i, op, res)]\<rparr>"
    using assms(2,3) by (simp add: res fun_upd_idem)
  ultimately show ?thesis by (simp only:)
qed

text \<open>Every serial order is one of the interleavings.\<close>

lemma serial_order_reached:
  "\<exists>st. lockReach entry micro s0 st \<and> lkOwner st = None \<and> lkPhase st = (\<lambda>i. Outside) \<and>
     map (\<lambda>e. (fst e, fst (snd e))) (lkLog st) = calls"
proof (induction calls rule: rev_induct)
  case Nil
  show ?case by (rule exI [of _ "lockStart s0"]) (simp add: lockReach.start, simp add: lockStart_def)
next
  case (snoc c calls)
  then obtain st where st: "lockReach entry micro s0 st" "lkOwner st = None" "lkPhase st = (\<lambda>i. Outside)"
    "map (\<lambda>e. (fst e, fst (snd e))) (lkLog st) = calls" by blast
  obtain i op where c: "c = (i, op)" by force
  obtain res s where a: "atomic op (lkShared st) = (res, s)" by force
  let ?st = "st\<lparr>lkShared := s, lkLog := lkLog st @ [(i, op, res)]\<rparr>"
  have "lockReach entry micro s0 ?st" by (rule whole_section [OF st(1,2) _ a]) (simp add: st(3))
  moreover have "lkOwner ?st = None" "lkPhase ?st = (\<lambda>i. Outside)" by (simp_all add: st(2,3))
  moreover have "map (\<lambda>e. (fst e, fst (snd e))) (lkLog ?st) = calls @ [c]" by (simp add: st(4) c)
  ultimately show ?case by blast
qed

end

text \<open>A client is lawful when a relation between the operation, the state it started from, what is left
  to do and the state reached so far holds at the entry and is kept by each step, gives the atomic
  operation at the end, and each step leaves less to do.\<close>

lemma undisturbed_keeps:
  assumes "undisturbed micro l s l1 s1" "P l s"
    and "\<And>l s l' s'. P l s \<Longrightarrow> micro l s = (Inl l', s') \<Longrightarrow> P l' s'"
  shows "P l1 s1"
  using assms(1,2) by (induction rule: undisturbed.induct) (auto intro: assms(3))

lemma undisturbed_ends:
  assumes "\<And>l s l' s'. micro l s = (Inl l', s') \<Longrightarrow> left l' s' < (left l s :: nat)"
  shows "\<exists>l1 s1 res s2. undisturbed micro l s l1 s1 \<and> micro l1 s1 = (Inr res, s2)"
proof -
  have ends: "\<exists>l2 s2 res s3. undisturbed micro l s l2 s2 \<and> micro l2 s2 = (Inr res, s3)"
    if "undisturbed micro l s l1 s1" for l1 s1
    using that
  proof (induction "left l1 s1" arbitrary: l1 s1 rule: less_induct)
    case less
    obtain out s2 where m: "micro l1 s1 = (out, s2)" by force
    show ?case
    proof (cases out)
      case (Inl l2)
      then show ?thesis
        using less.hyps [OF _ undisturbed.more [OF less.prems]] m assms by blast
    next
      case (Inr res)
      then show ?thesis using less.prems m by blast
    qed
  qed
  show ?thesis by (rule ends [OF undisturbed.here])
qed

lemma mutex_clientI:
  assumes entry: "\<And>op s. P op s (entry op) s"
    and keep: "\<And>op s l s1 l' s2. P op s l s1 \<Longrightarrow> micro l s1 = (Inl l', s2) \<Longrightarrow> P op s l' s2"
    and end_as: "\<And>op s l s1 res s2. P op s l s1 \<Longrightarrow> micro l s1 = (Inr res, s2) \<Longrightarrow> atomic op s = (res, s2)"
    and less: "\<And>l s l' s'. micro l s = (Inl l', s') \<Longrightarrow> left l' s' < (left l s :: nat)"
  shows "mutex_client entry micro atomic"
proof
  fix op s l s1 res s2
  assume u: "undisturbed micro (entry op) s l s1" and m: "micro l s1 = (Inr res, s2)"
  have "P op s l s1" by (rule undisturbed_keeps [where P = "P op s", OF u entry keep])
  then show "atomic op s = (res, s2)" using m by (rule end_as)
next
  fix op s l s1
  show "\<exists>l1 s2 res s3. undisturbed micro l s1 l1 s2 \<and> micro l1 s2 = (Inr res, s3)"
    by (rule undisturbed_ends [where left = left, OF less])
qed

text \<open>A simulation between two serial runs; the relation may depend on how many operations are left.\<close>

lemma serialRun_simulates:
  assumes "\<And>n op s a. R (Suc n) s a \<Longrightarrow> Q (fst (f op s)) (fst (g op a)) \<and> R n (snd (f op s)) (snd (g op a))"
    and "R (length ops) s a"
  shows "list_all2 Q (fst (serialRun f ops s)) (fst (serialRun g ops a)) \<and>
    R 0 (snd (serialRun f ops s)) (snd (serialRun g ops a))"
  using assms(2)
proof (induction ops arbitrary: s a)
  case (Cons op ops)
  then have "R (Suc (length ops)) s a" by simp
  then have "Q (fst (f op s)) (fst (g op a))" "R (length ops) (snd (f op s)) (snd (g op a))"
    using assms(1) by simp_all
  then show ?case using Cons.IH [of "snd (f op s)" "snd (g op a)"] by (simp add: split_beta)
qed simp

end
