(* ===== verification/Locks.thy ===== *)
theory Locks
  imports Mutex Ws RateLimit BookApi
begin

text \<open>
  The three mutexes of the program: \<^verbatim>\<open>Conn.wmu\<close> of \<^verbatim>\<open>ws/ws.go\<close>, \<^verbatim>\<open>rateLimiter.mu\<close> of
  \<^verbatim>\<open>middleware/ratelimit.go\<close> and \<^verbatim>\<open>store.mu\<close> of \<^verbatim>\<open>examples/rest-api/main.go\<close>.  For each, the body between
  \<^verbatim>\<open>Lock\<close> and \<^verbatim>\<open>Unlock\<close> as steps that other goroutines could come between, and the interpretation of
  \<open>mutex_client\<close> that makes it the operation of \<open>Ws\<close>, \<open>RateLimit\<close> and \<open>BookApi\<close>.
\<close>

section \<open>Writers of a WebSocket connection\<close>

text \<open>\<^verbatim>\<open>writeFrame\<close>: the header and the payload are two calls of \<^verbatim>\<open>net.Conn.Write\<close>.\<close>

datatype frameStep = PutHeader u8 "u8 list" | PutPayload "u8 list"

fun frameEntry :: "u8 \<times> u8 list \<Rightarrow> frameStep" where
  "frameEntry (opcode, payload) = PutHeader opcode payload"

fun frameMicro :: "frameStep \<Rightarrow> wsconn \<Rightarrow> (frameStep + wserr option) \<times> wsconn" where
  "frameMicro (PutHeader opcode payload) c =
     (case connWrite (frameHeader (0x80 OR opcode) (length payload)) c of
        (Some e, c1) \<Rightarrow> (Inr (Some e), c1)
      | (None, c1) \<Rightarrow> (if payload \<noteq> [] then Inl (PutPayload payload) else Inr None, c1))"
| "frameMicro (PutPayload payload) c = (case connWrite payload c of (e, c1) \<Rightarrow> (Inr e, c1))"

fun frameAtomic :: "u8 \<times> u8 list \<Rightarrow> wsconn \<Rightarrow> wserr option \<times> wsconn" where
  "frameAtomic (opcode, payload) c = writeFrame opcode payload c"

fun frameSoFar :: "u8 \<times> u8 list \<Rightarrow> wsconn \<Rightarrow> frameStep \<Rightarrow> wsconn \<Rightarrow> bool" where
  "frameSoFar (opcode, payload) c (PutHeader opcode1 payload1) c1 \<longleftrightarrow> opcode1 = opcode \<and> payload1 = payload \<and> c1 = c"
| "frameSoFar (opcode, payload) c (PutPayload payload1) c1 \<longleftrightarrow>
     payload1 = payload \<and> payload \<noteq> [] \<and> connWrite (frameHeader (0x80 OR opcode) (length payload)) c = (None, c1)"

interpretation frames: mutex_client frameEntry frameMicro frameAtomic
proof (rule mutex_clientI [where P = frameSoFar and left = "\<lambda>l c. case l of PutHeader _ _ \<Rightarrow> 1 | PutPayload _ \<Rightarrow> 0"])
  fix op c
  show "frameSoFar op c (frameEntry op) c" by (cases op) simp
next
  fix op c l c1 l' c2
  assume "frameSoFar op c l c1" "frameMicro l c1 = (Inl l', c2)"
  then show "frameSoFar op c l' c2"
    by (cases op; cases l) (auto split: prod.splits option.splits if_splits)
next
  fix op c l c1 res c2
  assume "frameSoFar op c l c1" "frameMicro l c1 = (Inr res, c2)"
  then show "frameAtomic op c = (res, c2)"
    by (cases op; cases l) (auto simp: writeFrame_def split: prod.splits option.splits if_splits)
next
  fix l c l' c'
  assume "frameMicro l c = (Inl l', c')"
  then show "(case l' of PutHeader _ _ \<Rightarrow> 1 | PutPayload _ \<Rightarrow> 0) < (case l of PutHeader _ _ \<Rightarrow> 1 | PutPayload _ \<Rightarrow> (0::nat))"
    by (cases l) (auto split: prod.splits option.splits if_splits)
qed

text \<open>What a run of frames puts on a connection with or without room for all of it.\<close>

definition upToRoom :: "nat option \<Rightarrow> 'a list \<Rightarrow> 'a list" where
  "upToRoom room b = (case room of None \<Rightarrow> b | Some k \<Rightarrow> take k b)"

abbreviation streamOf :: "(u8 \<times> u8 list) list \<Rightarrow> u8 list" where
  "streamOf ops \<equiv> concat (map (\<lambda>(opcode, payload). frame True opcode None payload) ops)"

lemma writeFrame_room:
  "snd (writeFrame opcode payload c) =
     c\<lparr>wsOut := wsOut c @ upToRoom (wsRoom c) (frame True opcode None payload),
       wsRoom := map_option (\<lambda>k. k - length (frame True opcode None payload)) (wsRoom c)\<rparr>"
proof -
  have f: "frame True opcode None payload = frameHeader (0x80 OR opcode) (length payload) @ payload"
    by (simp add: frame_def frameHeader_def lengthBytes_def Let_def)
  show ?thesis unfolding f
    by (cases "wsRoom c") (auto simp: writeFrame_def connWrite_def upToRoom_def)
qed

lemma writeFrame_room_result:
  "fst (writeFrame opcode payload c) = None \<longleftrightarrow>
     (\<forall>k. wsRoom c = Some k \<longrightarrow> length (frame True opcode None payload) \<le> k)"
proof -
  have f: "frame True opcode None payload = frameHeader (0x80 OR opcode) (length payload) @ payload"
    by (simp add: frame_def frameHeader_def lengthBytes_def Let_def)
  show ?thesis unfolding f
    by (cases "wsRoom c") (auto simp: writeFrame_def connWrite_def)
qed

lemma frames_in_order:
  "snd (serialRun frameAtomic ops c) =
     c\<lparr>wsOut := wsOut c @ upToRoom (wsRoom c) (streamOf ops),
       wsRoom := map_option (\<lambda>k. k - length (streamOf ops)) (wsRoom c)\<rparr>"
proof (induction ops arbitrary: c)
  case (Cons op ops)
  obtain opcode payload where op: "op = (opcode, payload)" by force
  have "snd (serialRun frameAtomic (op # ops) c) = snd (serialRun frameAtomic ops (snd (writeFrame opcode payload c)))"
    by (simp add: op split_beta)
  then show ?case
    by (cases "wsRoom c") (simp_all add: Cons.IH writeFrame_room op upToRoom_def)
qed (simp add: upToRoom_def split: option.splits)

text \<open>A peer that reads a number of frames.\<close>

fun readFrames :: "nat \<Rightarrow> wsconn \<Rightarrow> (wserr + (bool \<times> u8 \<times> u8 list) list) \<times> wsconn" where
  "readFrames 0 c = (Inr [], c)"
| "readFrames (Suc n) c =
     (case readFrame c of
        (Inl e, c1) \<Rightarrow> (Inl e, c1)
      | (Inr f, c1) \<Rightarrow>
          (case readFrames n c1 of
             (Inl e, c2) \<Rightarrow> (Inl e, c2)
           | (Inr fs, c2) \<Rightarrow> (Inr (f # fs), c2)))"

definition writable :: "u8 \<times> u8 list \<Rightarrow> bool" where
  "writable op \<longleftrightarrow> fst op < 16 \<and> length (snd op) \<le> 33554432"

lemma readFrames_stream:
  "list_all writable ops \<Longrightarrow> wsIn d = streamOf ops @ rest \<Longrightarrow>
     readFrames (length ops) d = (Inr (map (\<lambda>(opcode, payload). (True, opcode, payload)) ops), d\<lparr>wsIn := rest\<rparr>)"
proof (induction ops arbitrary: d)
  case (Cons op ops)
  obtain opcode payload where op: "op = (opcode, payload)" by force
  have "readFrame d = (Inr (True, opcode, payload), d\<lparr>wsIn := streamOf ops @ rest\<rparr>)"
    by (rule readFrame_frame [where mkey = None]) (use Cons.prems in \<open>simp_all add: op writable_def\<close>)
  then show ?case
    using Cons.IH [of "d\<lparr>wsIn := streamOf ops @ rest\<rparr>"] Cons.prems(1) by (simp add: op)
qed simp

text \<open>C31. However the goroutines that write to a connection interleave, the peer receives whole frames: no
  two write at a time, one who has the lock can always finish, and between two writes the bytes sent are the frames of the writes in the order
  they took the lock, cut only where the connection fails; over a connection that does not fail the peer
  reads back every opcode and payload in that order and nothing else.\<close>

theorem concurrent_writes_arrive:
  assumes "lockReach frameEntry frameMicro c st"
  shows "(lkPhase st i \<noteq> Outside \<and> lkPhase st j \<noteq> Outside \<longrightarrow> i = j) \<and>
    (lkOwner st = Some i \<longrightarrow>
       (\<exists>st' op res. lockReach frameEntry frameMicro c st' \<and> lkOwner st' = None \<and> lkLog st' = lkLog st @ [(i, op, res)])) \<and>
    (lkOwner st = None \<longrightarrow>
       wsOut (lkShared st) = wsOut c @ upToRoom (wsRoom c) (streamOf (opsOf (lkLog st))) \<and>
       (wsRoom c = None \<and> list_all writable (opsOf (lkLog st)) \<longrightarrow>
          readFrames (length (lkLog st)) (d\<lparr>wsIn := drop (length (wsOut c)) (wsOut (lkShared st))\<rparr>) =
            (Inr (map (\<lambda>(opcode, payload). (True, opcode, payload)) (opsOf (lkLog st))), d\<lparr>wsIn := []\<rparr>)))"
proof (intro conjI impI)
  show "i = j" if "lkPhase st i \<noteq> Outside \<and> lkPhase st j \<noteq> Outside"
    using frames.exclusive [OF assms] that by blast
  show "\<exists>st' op res. lockReach frameEntry frameMicro c st' \<and> lkOwner st' = None \<and> lkLog st' = lkLog st @ [(i, op, res)]"
    if "lkOwner st = Some i"
    by (rule frames.owner_finishes [OF assms that])
  assume free: "lkOwner st = None"
  show out: "wsOut (lkShared st) = wsOut c @ upToRoom (wsRoom c) (streamOf (opsOf (lkLog st)))"
    using frames.serial(2) [OF assms free] by (simp add: frames_in_order)
  assume w: "wsRoom c = None \<and> list_all writable (opsOf (lkLog st))"
  let ?d = "d\<lparr>wsIn := drop (length (wsOut c)) (wsOut (lkShared st))\<rparr>"
  have "wsIn ?d = streamOf (opsOf (lkLog st)) @ []" using out w by (simp add: upToRoom_def)
  from readFrames_stream [OF _ this] w
  show "readFrames (length (lkLog st)) ?d =
      (Inr (map (\<lambda>(opcode, payload). (True, opcode, payload)) (opsOf (lkLog st))), d\<lparr>wsIn := []\<rparr>)" by simp
qed

theorem concurrent_writes_arrive_witness:
  "\<exists>st. lockReach frameEntry frameMicro sampleConn st \<and> opsOf (lkLog st) = [(opText, [104]), (opPong, []), (opText, [105])] \<and>
     readFrames 3 (sampleConn\<lparr>wsIn := wsOut (lkShared st)\<rparr>) =
       (Inr [(True, opText, [104]), (True, opPong, []), (True, opText, [105])], sampleConn)"
proof -
  obtain st where st: "lockReach frameEntry frameMicro sampleConn st" "lkOwner st = None"
    "map (\<lambda>e. (fst e, fst (snd e))) (lkLog st) = [(4, (opText, [104])), (7, (opPong, [])), (4, (opText, [105]))]"
    using frames.serial_order_reached by blast
  have ops: "opsOf (lkLog st) = [(opText, [104]), (opPong, []), (opText, [105])]" and n: "length (lkLog st) = 3"
    using opsOf_calls [OF st(3)] by simp_all
  have d: "sampleConn\<lparr>wsIn := []\<rparr> = sampleConn" "drop (length (wsOut sampleConn)) xs = xs" for xs
    by (simp_all add: sampleConn_def)
  have w: "wsRoom sampleConn = None" "list_all writable [(opText, [104]), (opPong, []), (opText, [105])]"
    by (simp_all add: sampleConn_def writable_def opText_def opPong_def)
  have "readFrames 3 (sampleConn\<lparr>wsIn := wsOut (lkShared st)\<rparr>) =
      (Inr (map (\<lambda>(opcode, payload). (True, opcode, payload)) [(opText, [104]), (opPong, []), (opText, [105])]), sampleConn)"
    using concurrent_writes_arrive [OF st(1), of 0 0 sampleConn] st(2) w unfolding ops n d by blast
  then show ?thesis using st(1) ops by (intro exI [of _ st]) simp
qed

section \<open>The limiter\<close>

text \<open>\<^verbatim>\<open>allow\<close> in three steps: the sweep, the new or refilled bucket, the token.  The last step goes on with
  the pointer that the second has put into the map or found there; nobody else sweeps meanwhile, so the
  bucket is still the one of the key.\<close>

datatype allowStep = SweepIdle string int | FillBucket string int | TakeToken string

fun allowEntry :: "string \<times> int \<Rightarrow> allowStep" where
  "allowEntry (key, now) = SweepIdle key now"

definition sweepDue :: "int \<Rightarrow> rateLimiter \<Rightarrow> rateLimiter" where
  "sweepDue now l =
     (if sweepInterval \<le> timeSub now (lmLastSweep l) then (sweep now l)\<lparr>lmLastSweep := now\<rparr> else l)"

definition fillBucket :: "string \<Rightarrow> int \<Rightarrow> rateLimiter \<Rightarrow> tokenBucket" where
  "fillBucket key now l =
     (case lmBuckets l key of
        None \<Rightarrow> \<lparr>tkTokens = lmBurst l, tkLast = now\<rparr>
      | Some b \<Rightarrow> b\<lparr>tkTokens := refill (lmRate l) (lmBurst l) now b, tkLast := now\<rparr>)"

fun allowMicro :: "int \<Rightarrow> allowStep \<Rightarrow> rateLimiter \<Rightarrow> (allowStep + bool \<times> int) \<times> rateLimiter" where
  "allowMicro oor (SweepIdle key now) l = (Inl (FillBucket key now), sweepDue now l)"
| "allowMicro oor (FillBucket key now) l =
     (Inl (TakeToken key), l\<lparr>lmBuckets := (lmBuckets l)(key \<mapsto> fillBucket key now l)\<rparr>)"
| "allowMicro oor (TakeToken key) l =
     (case lmBuckets l key of
        None \<Rightarrow> (Inr (False, 0), l)
      | Some b \<Rightarrow>
          if tkTokens b < 1
          then (Inr (False, truncToInt64 oor (rnd (rnd (rnd (1 - tkTokens b) / lmRate l) * rnd (of_int second)))), l)
          else (Inr (True, 0), l\<lparr>lmBuckets := (lmBuckets l)(key \<mapsto> b\<lparr>tkTokens := rnd (tkTokens b - 1)\<rparr>)\<rparr>))"

fun allowAtomic :: "int \<Rightarrow> string \<times> int \<Rightarrow> rateLimiter \<Rightarrow> (bool \<times> int) \<times> rateLimiter" where
  "allowAtomic oor (key, now) l = allow oor key now l"

fun allowSoFar :: "string \<times> int \<Rightarrow> rateLimiter \<Rightarrow> allowStep \<Rightarrow> rateLimiter \<Rightarrow> bool" where
  "allowSoFar (key, now) l (SweepIdle key1 now1) l1 \<longleftrightarrow> key1 = key \<and> now1 = now \<and> l1 = l"
| "allowSoFar (key, now) l (FillBucket key1 now1) l1 \<longleftrightarrow> key1 = key \<and> now1 = now \<and> l1 = sweepDue now l"
| "allowSoFar (key, now) l (TakeToken key1) l1 \<longleftrightarrow>
     key1 = key \<and> l1 = (sweepDue now l)\<lparr>lmBuckets := (lmBuckets (sweepDue now l))(key \<mapsto> fillBucket key now (sweepDue now l))\<rparr>"

lemma allow_by_steps:
  "allow oor key now l =
     (let l1 = sweepDue now l; b = fillBucket key now l1
      in if tkTokens b < 1
         then ((False, truncToInt64 oor (rnd (rnd (rnd (1 - tkTokens b) / lmRate l1) * rnd (of_int second)))),
               l1\<lparr>lmBuckets := (lmBuckets l1)(key \<mapsto> b)\<rparr>)
         else ((True, 0), l1\<lparr>lmBuckets := (lmBuckets l1)(key \<mapsto> b\<lparr>tkTokens := rnd (tkTokens b - 1)\<rparr>)\<rparr>))"
  by (simp only: allow_def sweepDue_def fillBucket_def)

fun stepsLeft :: "allowStep \<Rightarrow> nat" where
  "stepsLeft (SweepIdle key now) = 2"
| "stepsLeft (FillBucket key now) = 1"
| "stepsLeft (TakeToken key) = 0"

interpretation limiter: mutex_client allowEntry "allowMicro oor" "allowAtomic oor" for oor
proof (rule mutex_clientI [where P = allowSoFar and left = "\<lambda>st l. stepsLeft st"])
  fix op l
  show "allowSoFar op l (allowEntry op) l" by (cases op) simp
next
  fix op l st l1 st' l2
  assume "allowSoFar op l st l1" "allowMicro oor st l1 = (Inl st', l2)"
  then show "allowSoFar op l st' l2"
    by (cases op; cases st) (auto split: option.splits if_splits)
next
  fix op l st l1 res l2
  assume "allowSoFar op l st l1" "allowMicro oor st l1 = (Inr res, l2)"
  then show "allowAtomic oor op l = (res, l2)"
    by (cases op; cases st) (auto simp: allow_by_steps Let_def split: if_splits)
next
  fix st l st' l'
  assume "allowMicro oor st l = (Inl st', l')"
  then show "stepsLeft st' < stepsLeft st"
    by (cases st) (auto split: option.splits if_splits)
qed

lemma limiterRun_serial:
  "limiterRun oor l ops =
     map (\<lambda>((k, now), (ok, retry)). (k, ok)) (zip ops (fst (serialRun (allowAtomic oor) ops l)))"
proof (induction ops arbitrary: l)
  case (Cons op ops)
  obtain k now where "op = (k, now)" by force
  then show ?case by (simp add: Cons.IH split_beta)
qed simp

text \<open>C13. Requests that ask the limiter at the same time are answered as if they came one after the other,
  in the order in which they take the lock.  When the clock readings are in that order as well, burst and
  rate are at most 2^53 and the burst is at most 600 times the rate, each key is served by a bucket of its
  own that is never forgotten, whatever the other goroutines do meanwhile.\<close>

theorem concurrent_requests_share_limiter:
  assumes "RateLimitWithConfig cfg t0 = Inr (l, key)" "lockReach allowEntry (allowMicro oor) l st"
    and "answers = map (\<lambda>(i, (k, now), (ok, retry)). (k, ok)) (lkLog st)"
  shows "answers = limiterRun oor l (opsOf (lkLog st)) \<and>
    (cfBurst cfg \<le> 2 ^ 53 \<and> cfRate cfg \<le> 2 ^ 53 \<and> lmBurst l \<le> 600 * cfRate cfg \<and>
     sorted (t0 # map snd (opsOf (lkLog st))) \<longrightarrow>
       ofKey k answers = bucketRun (cfRate cfg) (lmBurst l) None (ofKey k (opsOf (lkLog st))))"
proof -
  have "zip (opsOf (lkLog st)) (resultsOf (lkLog st)) = map (\<lambda>e. (fst (snd e), snd (snd e))) (lkLog st)"
    by (simp add: zip_map_map zip_same_conv_map)
  then have a: "answers = limiterRun oor l (opsOf (lkLog st))"
    using limiter.serial(1) [OF assms(2)] by (simp add: limiterRun_serial assms(3) split_beta)
  have "ofKey k answers = bucketRun (cfRate cfg) (lmBurst l) None (ofKey k (opsOf (lkLog st)))"
    if b: "cfBurst cfg \<le> 2 ^ 53" "cfRate cfg \<le> 2 ^ 53" "lmBurst l \<le> 600 * cfRate cfg"
      and o: "sorted (t0 # map snd (opsOf (lkLog st)))"
  proof -
    note c = config_sound [OF assms(1) b(1,2)]
    have "forgets t0 (lmBuckets l k) None" using c(4) by (simp add: forgets_def)
    then show ?thesis
      using a limiterRun_bucketRun [OF c(1,2) _ _ validBucket_simps(1)] b(3) o c(3) by simp
  qed
  with a show ?thesis by blast
qed

theorem concurrent_requests_share_limiter_witness:
  "\<exists>st. lockReach allowEntry (allowMicro 0) sampleLimiter st \<and>
     opsOf (lkLog st) = [(''a'', 1), (''b'', 2), (''a'', 3)] \<and>
     ofKey ''a'' (map (\<lambda>(i, (k, now), (ok, retry)). (k, ok)) (lkLog st)) = bucketRun 2 3 None [1, 3]"
proof -
  obtain st where st: "lockReach allowEntry (allowMicro 0) sampleLimiter st"
    "map (\<lambda>e. (fst e, fst (snd e))) (lkLog st) = [(5, (''a'', 1)), (6, (''b'', 2)), (5, (''a'', 3))]"
    using limiter.serial_order_reached by blast
  have ops: "opsOf (lkLog st) = [(''a'', 1), (''b'', 2), (''a'', 3)]" using opsOf_calls(1) [OF st(2)] by simp
  have c: "cfBurst sampleConfig \<le> 2 ^ 53" "cfRate sampleConfig \<le> 2 ^ 53" "lmBurst sampleLimiter \<le> 600 * cfRate sampleConfig"
    by (simp_all add: sampleConfig_def sampleLimiter_def)
  have "ofKey ''a'' (map (\<lambda>(i, (k, now), (ok, retry)). (k, ok)) (lkLog st)) =
      bucketRun (cfRate sampleConfig) (lmBurst sampleLimiter) None (ofKey ''a'' [(''a'', 1), (''b'', 2), (''a'', 3)])"
    by (rule concurrent_requests_share_limiter [OF sampleConfig_gives st(1) refl, of "''a''", unfolded ops, THEN conjunct2, rule_format])
      (use c in simp)
  then show ?thesis
    using st(1) ops by (intro exI [of _ st]) (simp add: sampleConfig_def sampleLimiter_def)
qed

section \<open>The repository of books\<close>

text \<open>\<^verbatim>\<open>list\<close> copies one entry of the map after the other; \<^verbatim>\<open>create\<close> takes the next number, moves it on and
  stores the book.\<close>

datatype storeOp = ListOp | CreateOp book | GetOp int

datatype storeAnswer = Listed "book list" | Created book | Found "book option"

datatype storeStep =
    ListBegin | ListMore "(int \<times> book) list" "book list" | TakeNumber book | MoveNumber book | PutBook book | Lookup int

fun storeEntry :: "storeOp \<Rightarrow> storeStep" where
  "storeEntry ListOp = ListBegin"
| "storeEntry (CreateOp b) = TakeNumber b"
| "storeEntry (GetOp i) = Lookup i"

fun storeMicro :: "storeStep \<Rightarrow> bookStore \<Rightarrow> (storeStep + storeAnswer) \<times> bookStore" where
  "storeMicro ListBegin st = (Inl (ListMore (bsBooks st) []), st)"
| "storeMicro (ListMore [] out) st = (Inr (Listed out), st)"
| "storeMicro (ListMore (e # todo) out) st = (Inl (ListMore todo (out @ [snd e])), st)"
| "storeMicro (TakeNumber b) st = (Inl (MoveNumber (b\<lparr>bkID := bsNextID st\<rparr>)), st)"
| "storeMicro (MoveNumber b) st = (Inl (PutBook b), st\<lparr>bsNextID := goInt (bsNextID st + 1)\<rparr>)"
| "storeMicro (PutBook b) st = (Inr (Created b), st\<lparr>bsBooks := AList.update (bkID b) b (bsBooks st)\<rparr>)"
| "storeMicro (Lookup i) st = (Inr (Found (store_get i st)), st)"

fun storeAtomic :: "storeOp \<Rightarrow> bookStore \<Rightarrow> storeAnswer \<times> bookStore" where
  "storeAtomic ListOp st = (Listed (store_list st), st)"
| "storeAtomic (CreateOp b) st = (case store_create b st of (b1, st1) \<Rightarrow> (Created b1, st1))"
| "storeAtomic (GetOp i) st = (Found (store_get i st), st)"

fun storeSoFar :: "storeOp \<Rightarrow> bookStore \<Rightarrow> storeStep \<Rightarrow> bookStore \<Rightarrow> bool" where
  "storeSoFar op st ListBegin st1 \<longleftrightarrow> op = ListOp \<and> st1 = st"
| "storeSoFar op st (ListMore todo out) st1 \<longleftrightarrow> op = ListOp \<and> st1 = st \<and> out @ map snd todo = store_list st"
| "storeSoFar op st (TakeNumber b) st1 \<longleftrightarrow> op = CreateOp b \<and> st1 = st"
| "storeSoFar op st (MoveNumber b) st1 \<longleftrightarrow> (\<exists>b0. op = CreateOp b0 \<and> b = b0\<lparr>bkID := bsNextID st\<rparr>) \<and> st1 = st"
| "storeSoFar op st (PutBook b) st1 \<longleftrightarrow>
     (\<exists>b0. op = CreateOp b0 \<and> b = b0\<lparr>bkID := bsNextID st\<rparr>) \<and> st1 = st\<lparr>bsNextID := goInt (bsNextID st + 1)\<rparr>"
| "storeSoFar op st (Lookup i) st1 \<longleftrightarrow> op = GetOp i \<and> st1 = st"

fun storeLeft :: "storeStep \<Rightarrow> bookStore \<Rightarrow> nat" where
  "storeLeft ListBegin st = Suc (length (bsBooks st))"
| "storeLeft (ListMore todo out) st = length todo"
| "storeLeft (TakeNumber b) st = 2"
| "storeLeft (MoveNumber b) st = 1"
| "storeLeft (PutBook b) st = 0"
| "storeLeft (Lookup i) st = 0"

interpretation books: mutex_client storeEntry storeMicro storeAtomic
proof (rule mutex_clientI [where P = storeSoFar and left = storeLeft])
  fix op st
  show "storeSoFar op st (storeEntry op) st" by (cases op) simp_all
next
  fix op st l st1 l' st2
  assume "storeSoFar op st l st1" "storeMicro l st1 = (Inl l', st2)"
  then show "storeSoFar op st l' st2"
    by (cases "(l, st1)" rule: storeMicro.cases) (auto simp: store_list_def)
next
  fix op st l st1 res st2
  assume "storeSoFar op st l st1" "storeMicro l st1 = (Inr res, st2)"
  then show "storeAtomic op st = (res, st2)"
    by (cases "(l, st1)" rule: storeMicro.cases) (auto simp: store_create_def Let_def)
next
  fix l st l' st'
  assume "storeMicro l st = (Inl l', st')"
  then show "storeLeft l' st' < storeLeft l st"
    by (cases "(l, st)" rule: storeMicro.cases) auto
qed

text \<open>The specification: a shelf of the books in the order of their creation, numbered from 1.\<close>

fun shelfStep :: "storeOp \<Rightarrow> book list \<Rightarrow> storeAnswer \<times> book list" where
  "shelfStep ListOp bs = (Listed (numbered bs), bs)"
| "shelfStep (CreateOp b) bs = (Created (b\<lparr>bkID := int (length bs) + 1\<rparr>), bs @ [b])"
| "shelfStep (GetOp i) bs =
     (Found (if 1 \<le> i \<and> i \<le> int (length bs) then Some ((bs ! nat (i - 1))\<lparr>bkID := i\<rparr>) else None), bs)"

text \<open>A listing has the books in some order.\<close>

fun sameAnswer :: "storeAnswer \<Rightarrow> storeAnswer \<Rightarrow> bool" where
  "sameAnswer (Listed bs) r \<longleftrightarrow> (case r of Listed cs \<Rightarrow> mset bs = mset cs | _ \<Rightarrow> False)"
| "sameAnswer (Created b) r \<longleftrightarrow> r = Created b"
| "sameAnswer (Found b) r \<longleftrightarrow> r = Found b"

definition createdIn :: "storeAnswer list \<Rightarrow> book list" where
  "createdIn rs = List.map_filter (\<lambda>r. case r of Created b \<Rightarrow> Some b | _ \<Rightarrow> None) rs"

definition givenIn :: "storeOp list \<Rightarrow> book list" where
  "givenIn ops = List.map_filter (\<lambda>op. case op of CreateOp b \<Rightarrow> Some b | _ \<Rightarrow> None) ops"

lemma inOrder_simps [simp]:
  "createdIn [] = []" "createdIn (Created b # rs) = b # createdIn rs"
  "createdIn (Listed bs # rs) = createdIn rs" "createdIn (Found f # rs) = createdIn rs"
  "givenIn [] = []" "givenIn (CreateOp b # ops) = b # givenIn ops"
  "givenIn (ListOp # ops) = givenIn ops" "givenIn (GetOp i # ops) = givenIn ops"
  by (simp_all add: createdIn_def givenIn_def List.map_filter_simps)

definition onShelf :: "nat \<Rightarrow> bookStore \<Rightarrow> book list \<Rightarrow> bool" where
  "onShelf n st bs \<longleftrightarrow> holds bs st \<and> int (length bs + n) + 1 < 2 ^ 63"

lemma store_get_shelf:
  assumes "holds bs st"
  shows "store_get i st = (if 1 \<le> i \<and> i \<le> int (length bs) then Some ((bs ! nat (i - 1))\<lparr>bkID := i\<rparr>) else None)"
proof (cases "1 \<le> i \<and> i \<le> int (length bs)")
  case True
  then have "int (nat (i - 1)) + 1 = i" "nat (i - 1) < length bs" by linarith+
  then show ?thesis using store_get_holds [OF assms, of "nat (i - 1)"] True by simp
next
  case False
  then have "i \<notin> fst ` set (bsBooks st)"
    using assms numbered_ids [of i bs] by (auto simp: holds_def image_image)
  then have "store_get i st = None" by (simp add: store_get_def map_of_eq_None_iff)
  then show ?thesis using False by (simp only: if_False)
qed

lemma store_on_shelf:
  assumes "onShelf (Suc n) st bs"
  shows "sameAnswer (fst (storeAtomic op st)) (fst (shelfStep op bs)) \<and>
    onShelf n (snd (storeAtomic op st)) (snd (shelfStep op bs))"
proof (cases op)
  case (CreateOp b)
  have h: "holds bs st" "int (length bs) + 2 < 2 ^ 63" using assms by (simp_all add: onShelf_def)
  have "fst (store_create b st) = b\<lparr>bkID := int (length bs) + 1\<rparr>"
    using h(1) by (simp add: store_create_def holds_def Let_def)
  then show ?thesis
    using CreateOp assms store_create_holds [OF h] by (simp add: onShelf_def split_beta)
next
  case ListOp
  then show ?thesis
    using assms by (simp add: onShelf_def store_list_def holds_def o_def)
next
  case (GetOp i)
  then show ?thesis using assms store_get_shelf [of bs st i] by (simp add: onShelf_def)
qed

lemma shelf_numbers:
  "numbered bs @ createdIn (fst (serialRun shelfStep ops bs)) = numbered (bs @ givenIn ops) \<and>
     snd (serialRun shelfStep ops bs) = bs @ givenIn ops"
proof (induction ops arbitrary: bs)
  case (Cons op ops)
  show ?case
    by (cases op) (use Cons.IH [of bs] Cons.IH [of "bs @ [b]" for b] in \<open>simp_all add: split_beta numbered_snoc\<close>)
qed simp

lemma createdIn_same: "list_all2 sameAnswer rs qs \<Longrightarrow> createdIn rs = createdIn qs"
proof (induction rs qs rule: list_all2_induct)
  case (Cons r rs q qs)
  then show ?case by (cases r; cases q) simp_all
qed simp

text \<open>C29. The repository is safe for concurrent use: however the calls of the handlers interleave, their
  answers are those of a shelf that serves them one after the other; in particular the books created are
  numbered 1, 2, 3 and so on without a gap or a repetition, and between two calls the repository holds
  exactly these (as long as the numbers fit 63 bits).\<close>

theorem concurrent_books_numbered:
  assumes "lockReach storeEntry storeMicro newStore st" "int (length (lkLog st)) + 1 < 2 ^ 63"
  shows "list_all2 sameAnswer (resultsOf (lkLog st)) (fst (serialRun shelfStep (opsOf (lkLog st)) [])) \<and>
    createdIn (resultsOf (lkLog st)) = numbered (givenIn (opsOf (lkLog st))) \<and>
    (lkOwner st = None \<longrightarrow> mset (store_list (lkShared st)) = mset (numbered (givenIn (opsOf (lkLog st)))))"
proof -
  have "onShelf (length (opsOf (lkLog st))) newStore []"
    using assms(2) by (simp add: onShelf_def holds_def newStore_def numbered_def)
  from serialRun_simulates [where R = onShelf and Q = sameAnswer, OF store_on_shelf this]
  have s: "list_all2 sameAnswer (resultsOf (lkLog st)) (fst (serialRun shelfStep (opsOf (lkLog st)) []))"
    "onShelf 0 (snd (serialRun storeAtomic (opsOf (lkLog st)) newStore)) (snd (serialRun shelfStep (opsOf (lkLog st)) []))"
    using books.serial(1) [OF assms(1)] by simp_all
  have "createdIn (fst (serialRun shelfStep (opsOf (lkLog st)) [])) = numbered (givenIn (opsOf (lkLog st)))"
    "snd (serialRun shelfStep (opsOf (lkLog st)) []) = givenIn (opsOf (lkLog st))"
    using shelf_numbers [of "[]" "opsOf (lkLog st)"] by (simp_all add: numbered_def)
  then show ?thesis
    using s createdIn_same [OF s(1)] books.serial(2) [OF assms(1)]
    by (simp add: onShelf_def holds_def store_list_def o_def)
qed

theorem concurrent_books_numbered_witness:
  "\<exists>st. lockReach storeEntry storeMicro newStore st \<and>
     createdIn (resultsOf (lkLog st)) =
       [\<lparr>bkID = 1, bkTitle = ''a'', bkAuthor = []\<rparr>, \<lparr>bkID = 2, bkTitle = ''b'', bkAuthor = []\<rparr>]"
proof -
  let ?a = "\<lparr>bkID = 0, bkTitle = ''a'', bkAuthor = []\<rparr>" and ?b = "\<lparr>bkID = 7, bkTitle = ''b'', bkAuthor = []\<rparr>"
  obtain st where st: "lockReach storeEntry storeMicro newStore st"
    "map (\<lambda>e. (fst e, fst (snd e))) (lkLog st) = [(1, CreateOp ?a), (2, ListOp), (2, CreateOp ?b)]"
    using books.serial_order_reached by blast
  have ops: "opsOf (lkLog st) = [CreateOp ?a, ListOp, CreateOp ?b]" and n: "length (lkLog st) = 3"
    using opsOf_calls [OF st(2)] by simp_all
  have "createdIn (resultsOf (lkLog st)) = numbered [?a, ?b]"
    using concurrent_books_numbered [OF st(1)] unfolding n ops by simp
  then show ?thesis using st(1) by (intro exI [of _ st]) (simp add: numbered_def)
qed

end
