(* ===== verification/Spec2Isabelle.thy ===== *)
theory Spec2Isabelle
  imports TreeFaults Group Ws MiddlewareProps RateLimit OpenAPI Bind Adapter Static Timeout Redirects Requests Guards Slices Examples Locks
begin

text \<open>
  A model of goXpress, an HTTP router and middleware library for Go, and the theorems that make its
  core correct.  Definitions follow the Go sources under \<^verbatim>\<open>src/\<close>, function by function.

  \<^bold>\<open>The program.\<close>  A \<^verbatim>\<open>Router\<close> keeps one radix tree of patterns for each HTTP method.  Set-up calls
  (\<^verbatim>\<open>Use\<close>, \<^verbatim>\<open>Handle\<close>, groups, \<^verbatim>\<open>Mount\<close>) compose chains of handlers and register them; a request takes a
  \<^verbatim>\<open>Context\<close> from a pool, looks its path up in the tree of its method, and runs the chain found, or
  answers with a redirect, the GET handler without its body, an Allow header, 405 or 404.  Handlers
  call \<^verbatim>\<open>Next\<close> and \<^verbatim>\<open>Abort\<close>, write through a \<^verbatim>\<open>responseWriter\<close>, and return errors, which an error handler
  turns into responses; panics are recovered into errors.

  \<^bold>\<open>Theories.\<close>
  \<^item> \<open>Prelude\<close>: machine types, panics, Go's \<^verbatim>\<open>string(byte)\<close>, splitting and joining strings, list lemmas.
  \<^item> \<open>Params\<close>: \<^verbatim>\<open>params.go\<close>.
  \<^item> \<open>Tree\<close>: \<^verbatim>\<open>tree.go\<close>, all of it.  \<open>walk\<close> is the loop of \<^verbatim>\<open>addRoute\<close>, a partial function (its value
    \<open>None\<close> is divergence); \<open>insertChild\<close>, \<open>incrementChildPriority\<close> and \<open>getValue\<close> are total.
  \<^item> \<open>RouteSpec\<close>: what a pattern means (\<open>toks\<close>, \<open>matches\<close>) and when two can share a table (\<open>compat\<close>).
  \<^item> \<open>TreeInv\<close>, \<open>TreeLookup\<close>, \<open>TreeInsert\<close>, \<open>TreeWalk\<close>: the abstraction \<open>routes\<close>, the invariant
    \<open>wfNode\<close>; lookup on a well-formed tree agrees with its routes; registration of a compatible
    pattern returns a well-formed tree with that route added; a registered one is refused.
  \<^item> \<open>TreeMap\<close>: registration commutes with a change of what the nodes store.
  \<^item> \<open>TreeTable\<close>: the locale \<open>route_table\<close>, its interpretation on the tree, whole tables.
  \<^item> \<open>TreeFaults\<close>: concrete tables, and what the tree does on tables with conflicts it does not see.
  \<^item> \<open>Errors\<close>: \<^verbatim>\<open>errors.go\<close>, status texts, numerals.
  \<^item> \<open>Http\<close>: the headers, requests and server writer of \<^verbatim>\<open>net/http\<close>, as far as they are used;
    requests are in origin form.
  \<^item> \<open>Url\<close>: \<^verbatim>\<open>path.Clean\<close>, percent-encoding, \<^verbatim>\<open>URL.String\<close> and the location that \<^verbatim>\<open>http.Redirect\<close> sends; decoding gives
    an encoded path back, and cleaning goes through the encoding.
  \<^item> \<open>Response\<close>: \<^verbatim>\<open>response.go\<close>; the locale \<open>http_writer\<close> of a lawful writer, interpreted on the
    server's writer and on the program's writer over it.
  \<^item> \<open>Chain\<close>: \<^verbatim>\<open>Next\<close>, \<^verbatim>\<open>Abort\<close>, \<^verbatim>\<open>IsAborted\<close> of \<^verbatim>\<open>context.go\<close>, over handlers as programs, and a
    trace of the handlers that start.
  \<^item> \<open>Context\<close>: the rest of \<^verbatim>\<open>context.go\<close>.
  \<^item> \<open>RouteMeta\<close>: the metadata of a route (\<^verbatim>\<open>Route\<close> of \<^verbatim>\<open>openapi.go\<close>).
  \<^item> \<open>Router\<close>, \<open>RouterSpec\<close>, \<open>RouterProps\<close>: \<^verbatim>\<open>router.go\<close>, the tables of a set-up, its properties.
  \<^item> \<open>TreeSlash\<close>, \<open>Redirects\<close>: the trailing-slash recommendation of the tree (the locale \<open>slash_table\<close>
    extends \<open>route_table\<close>) and a client that goes to the locations the redirects send.
  \<^item> \<open>Pools\<close>: concurrent calls over a \<^verbatim>\<open>sync.Pool\<close> as a step relation; the locale \<open>pool_client\<close> of a client
    whose reset forgets.  \<open>Requests\<close> interprets it on \<^verbatim>\<open>ServeHTTP\<close> and its contexts, and on \<^verbatim>\<open>Compress\<close> and its
    compressors.
  \<^item> \<open>Mutex\<close>: critical sections under a \<^verbatim>\<open>sync.Mutex\<close> as interleaved steps; the locale \<open>mutex_client\<close> of a client
    whose section, left alone, is one operation: then every interleaving is a serial run.  \<open>Locks\<close> interprets
    it on the three mutexes of the program: the writers of a WebSocket connection, the limiter, the
    repository of the book API.
  \<^item> \<open>Group\<close>: \<^verbatim>\<open>group.go\<close>; \<open>Slices\<close>: the set-up calls again, over slices in a store of arrays with the
    chains' slices stored in the trees, and when these are the calls over values.
  \<^item> \<open>Ws\<close>: \<^verbatim>\<open>ws/ws.go\<close>.
  \<^item> \<open>Middleware\<close>: the stateless handlers of \<^verbatim>\<open>middleware/\<close> (CORS, security headers, Basic authentication,
    client address, request identifiers, body limit, decompression).
  \<^item> \<open>Observers\<close>: \<^verbatim>\<open>Recoverer\<close> and \<^verbatim>\<open>Logger\<close> over a log, \<^verbatim>\<open>Compress\<close> over a stack of writers.
  \<^item> \<open>MiddlewareProps\<close>: what these do to a request in a chain.
  \<^item> \<open>Guards\<close>: global middleware and \<^verbatim>\<open>dispatch\<close> together: the first handler of every chain, and Basic
    authentication in front of a whole program.
  \<^item> \<open>Float64\<close>: rounding to binary64, its monotonicity and its error.
  \<^item> \<open>RateLimit\<close>: \<^verbatim>\<open>middleware/ratelimit.go\<close>; the limiter refines a bucket per key.
  \<^item> \<open>GoTypes\<close>: Go types as \<^verbatim>\<open>reflect\<close> shows them.
  \<^item> \<open>Schema\<close>: \<^verbatim>\<open>schema.go\<close>; the locale \<open>schema_generator\<close> of a generator that keeps references closed,
    interpreted on \<open>schemaFor\<close>; its termination on guarded types.
  \<^item> \<open>OpenAPI\<close>: the rest of \<^verbatim>\<open>openapi.go\<close>.
  \<^item> \<open>Bind\<close>: \<^verbatim>\<open>bind.go\<close>, \<^verbatim>\<open>bind_generics.go\<close>, with the integer and bool parsers of \<^verbatim>\<open>strconv\<close>.
  \<^item> \<open>Adapter\<close>: \<^verbatim>\<open>adapter.go\<close>, over a store of writers; which writers let the handlers' writes return.
  \<^item> \<open>Static\<close>: \<^verbatim>\<open>static.go\<close> and \<^verbatim>\<open>render.go\<close>.
  \<^item> \<open>Runes\<close>: counting runes; \<open>Banner\<close>: \<^verbatim>\<open>banner.go\<close>; \<open>Server\<close>: \<^verbatim>\<open>server.go\<close> as a state machine of its goroutine, channel and signal.
  \<^item> \<open>Timeout\<close>: \<^verbatim>\<open>middleware/timeout.go\<close> over contexts as chains of timers.
  \<^item> \<open>Streaming\<close>, \<open>BookApi\<close>, \<open>Examples\<close>: the programs under \<^verbatim>\<open>examples/\<close>, and what they answer end to end.

  \<^bold>\<open>Conventions.\<close>  A Go pointer to a mutable structure is a state that operations take and return.
  Panics and errors are values of a sum; an index out of range is a panic of the model too.  Strings
  are byte strings.  A Go map is a map, or an association list where the code iterates over it.
  What is not under \<^verbatim>\<open>src/\<close> and not defined in \<open>Http\<close> and \<open>Url\<close> (encoders, the JSON decoder, \<^verbatim>\<open>ParseFloat\<close>, templates, gzip, base64, IP parsing, the clock,
  whether \<^verbatim>\<open>url.Parse\<close> finds a scheme or a host, stack traces, SHA-1) is an argument.

  \<^bold>\<open>Bounds.\<close>  \<open>Next\<close> runs with one unit of fuel more than there are handlers left, which \<open>Next_total\<close>
  shows to be enough for every chain of at most \<open>abortIndex = 2 ^ 30\<close> handlers; longer ones would
  outrun \<^verbatim>\<open>Abort\<close> in the code as well.  Registration terminates on every table that is conflict-free
  (\<open>walk_adds\<close>).  The schema generator runs on fuel, and \<open>schemaFor_total\<close> gives enough for every set of
  types that refer to themselves only through named structs.  Priorities are 32-bit words and wrap.  Response codes are between 100 and 999.

  \<^bold>\<open>Not modelled.\<close>  Concurrency beyond the two pools (\<open>Pools\<close>), the three mutexes (\<open>Mutex\<close>, \<open>Locks\<close>) and the
  server's goroutine (\<open>Server\<close>): registration while serving is a data race in the code, and the limiter's theorems take its calls
  in the order of their clock readings (\<open>late_reading_refused\<close> shows what another
  order does); writes of a program to slices it has passed on; which trailing slashes the tree takes away
  (only examples, in \<open>TreeFaults\<close>); what \<^verbatim>\<open>net/http\<close> does inside its file server, its JSON and its template packages.  The
  benchmarks are clients of the library.
\<close>

end
